(* ===== verification/Prelude.thy ===== *)
theory Prelude
  imports Main "HOL-Library.Word" "HOL-Library.Monad_Syntax"
begin

text \<open>
  Shared vocabulary of the development: the integer widths of the C sources, the status codes of
  \<^verbatim>\<open>top/include/lk/err.h\<close>, assertions as an option monad, the comparison macros of
  \<^verbatim>\<open>sys/types.h\<close>, and the generic lemmas on lists, maps and words that several components use.

  A failing \<^verbatim>\<open>DEBUG_ASSERT\<close>, an explicit \<^verbatim>\<open>panic\<close> and a dereference of a null pointer are the
  value \<^term>\<open>None\<close> of an operation's result: an operation that returns \<^term>\<open>Some\<close> ran to its end.
\<close>

named_theorems frame_simps \<open>what an operation leaves unchanged\<close>

section \<open>Machine types and status codes\<close>

type_synonym u32 = "32 word"
type_synonym status_t = int
type_synonym lk_time_t = "32 word"

abbreviation (input) NO_ERROR :: status_t where "NO_ERROR \<equiv> 0"
abbreviation (input) ERR_GENERIC :: status_t where "ERR_GENERIC \<equiv> - 1"
abbreviation (input) ERR_NOT_FOUND :: status_t where "ERR_NOT_FOUND \<equiv> - 2"
abbreviation (input) ERR_NOT_READY :: status_t where "ERR_NOT_READY \<equiv> - 3"
abbreviation (input) ERR_NO_MSG :: status_t where "ERR_NO_MSG \<equiv> - 4"
abbreviation (input) ERR_NO_MEMORY :: status_t where "ERR_NO_MEMORY \<equiv> - 5"
abbreviation (input) ERR_INVALID_ARGS :: status_t where "ERR_INVALID_ARGS \<equiv> - 8"
abbreviation (input) ERR_NOT_ENOUGH_BUFFER :: status_t where "ERR_NOT_ENOUGH_BUFFER \<equiv> - 9"
abbreviation (input) ERR_OBJECT_DESTROYED :: status_t where "ERR_OBJECT_DESTROYED \<equiv> - 11"
abbreviation (input) ERR_NOT_BLOCKED :: status_t where "ERR_NOT_BLOCKED \<equiv> - 12"
abbreviation (input) ERR_TIMED_OUT :: status_t where "ERR_TIMED_OUT \<equiv> - 13"
abbreviation (input) ERR_ALREADY_EXISTS :: status_t where "ERR_ALREADY_EXISTS \<equiv> - 14"
abbreviation (input) ERR_NOT_ALLOWED :: status_t where "ERR_NOT_ALLOWED \<equiv> - 17"
abbreviation (input) ERR_TOO_BIG :: status_t where "ERR_TOO_BIG \<equiv> - 25"
abbreviation (input) ERR_CANCELLED :: status_t where "ERR_CANCELLED \<equiv> - 26"
abbreviation (input) ERR_BUSY :: status_t where "ERR_BUSY \<equiv> - 33"
abbreviation (input) ERR_THREAD_DETACHED :: status_t where "ERR_THREAD_DETACHED \<equiv> - 34"
abbreviation (input) ERR_BAD_HANDLE :: status_t where "ERR_BAD_HANDLE \<equiv> - 42"
abbreviation (input) ERR_PARTIAL_WRITE :: status_t where "ERR_PARTIAL_WRITE \<equiv> - 44"

text \<open>The conversions \<^verbatim>\<open>%u\<close> and \<^verbatim>\<open>%d\<close> of a number that is not negative.\<close>

fun decimal :: "nat \<Rightarrow> string" where
  "decimal n = (if n < 10 then [char_of (48 + n)] else decimal (n div 10) @ [char_of (48 + n mod 10)])"

declare decimal.simps [simp del]

section \<open>Assertions\<close>

definition chk :: "bool \<Rightarrow> unit option" where
  "chk P = (if P then Some () else None)"

lemma chk_simps [simp]: "chk True = Some ()" "chk False = None"
  by (simp_all add: chk_def)

lemma chk_eq_Some [simp]: "chk P = Some u \<longleftrightarrow> P"
  by (simp add: chk_def)

lemma chk_bind_eq_Some [simp]: "(chk P \<bind> f) = Some x \<longleftrightarrow> P \<and> f () = Some x"
  by (cases P) simp_all

lemma chk_bind [simp]: "P \<Longrightarrow> (chk P \<bind> f) = f ()"
  by simp

section \<open>Time comparison\<close>

text \<open>
  \<^verbatim>\<open>TIME_LT(a,b)\<close> and its kin compare 32-bit clocks by the sign of their wrapped difference.
\<close>

definition TIME_LT :: "lk_time_t \<Rightarrow> lk_time_t \<Rightarrow> bool" where
  "TIME_LT a b \<longleftrightarrow> sint (a - b) < 0"

definition TIME_GT :: "lk_time_t \<Rightarrow> lk_time_t \<Rightarrow> bool" where
  "TIME_GT a b \<longleftrightarrow> sint (a - b) > 0"

abbreviation (input) INFINITE_TIME :: lk_time_t where "INFINITE_TIME \<equiv> - 1"

lemma sint_neg_iff: "sint (x :: u32) < 0 \<longleftrightarrow> 2 ^ 31 \<le> unat x"
proof -
  have lt: "unat x < 2 ^ 32" using unsigned_less [of x] by simp
  have "sint x < 0 \<longleftrightarrow> bit x 31" using bit_last_iff [of x] by simp
  also have "\<dots> \<longleftrightarrow> bit (unat x) 31" by (simp add: bit_unsigned_iff)
  also have "\<dots> \<longleftrightarrow> 2 ^ 31 \<le> unat x"
  proof
    assume "2 ^ 31 \<le> unat x"
    then have "unat x div 2 ^ 31 = 1" using lt by (intro div_nat_eqI) simp_all
    then show "bit (unat x) 31" by (simp add: bit_iff_odd)
  next
    assume b: "bit (unat x) 31"
    show "2 ^ 31 \<le> unat x"
    proof (rule ccontr)
      assume "\<not> 2 ^ 31 \<le> unat x"
      then have "\<not> bit (unat x) 31" by (simp add: bit_iff_odd)
      then show False using b by blast
    qed
  qed
  finally show ?thesis .
qed

lemma sint_eq_0_iff: "sint (x :: u32) = 0 \<longleftrightarrow> x = 0"
  using signed_word_eqI [of x 0, where 'a = int] by auto

lemma TIME_LT_iff: "TIME_LT a b \<longleftrightarrow> 2 ^ 31 \<le> unat (a - b)"
  unfolding TIME_LT_def by (rule sint_neg_iff)

lemma TIME_GT_iff: "TIME_GT a b \<longleftrightarrow> a \<noteq> b \<and> unat (a - b) < 2 ^ 31"
proof -
  have "0 < sint (a - b) \<longleftrightarrow> \<not> sint (a - b) < 0 \<and> sint (a - b) \<noteq> 0" by linarith
  also have "\<dots> \<longleftrightarrow> a \<noteq> b \<and> unat (a - b) < 2 ^ 31"
    unfolding sint_neg_iff sint_eq_0_iff not_le by auto
  finally show ?thesis by (simp only: TIME_GT_def)
qed

text \<open>
  Within a window of \<open>2 ^ 31\<close> milliseconds from a common base the macros are the order of the
  distances from the base.
\<close>

lemma unat_diff_base:
  fixes a b base :: lk_time_t
  shows "unat (a - b) = (if unat (b - base) \<le> unat (a - base) then unat (a - base) - unat (b - base)
                         else unat (a - base) + 2 ^ 32 - unat (b - base))"
proof -
  have ab: "a - base - (b - base) = a - b" by simp
  have "unat ((a - base) - (b - base)) =
      (if unat (b - base) \<le> unat (a - base) then unat (a - base) - unat (b - base)
       else unat (a - base) + 2 ^ size (a - base) - unat (b - base))"
    by (rule unat_sub_if_size)
  moreover have "size (a - base) = 32" by (simp add: word_size)
  ultimately show ?thesis by (simp only: ab)
qed

lemma wrapped_distance:
  "x < (2 :: nat) ^ 31 \<Longrightarrow> y < 2 ^ 31 \<Longrightarrow> \<not> y \<le> x \<Longrightarrow> 2 ^ 31 \<le> x + 2 ^ 32 - y"
  by simp

lemma TIME_LT_window:
  assumes "unat (a - base) < 2 ^ 31" and "unat (b - base) < 2 ^ 31"
  shows "TIME_LT a b \<longleftrightarrow> unat (a - base) < unat (b - base)"
proof (cases "unat (b - base) \<le> unat (a - base)")
  case True
  then have d: "unat (a - b) = unat (a - base) - unat (b - base)"
    unfolding unat_diff_base [of a b base] by (simp only: if_True)
  then have "unat (a - b) < 2 ^ 31" using assms(1) by linarith
  then show ?thesis unfolding TIME_LT_iff using True by linarith
next
  case False
  then have d: "unat (a - b) = unat (a - base) + 2 ^ 32 - unat (b - base)"
    unfolding unat_diff_base [of a b base] by (simp only: if_False)
  then have "TIME_LT a b" unfolding TIME_LT_iff using wrapped_distance [OF assms False] by (simp only:)
  then show ?thesis using False by (simp only: not_le)
qed

lemma TIME_GT_window:
  assumes "unat (a - base) < 2 ^ 31" and "unat (b - base) < 2 ^ 31"
  shows "TIME_GT a b \<longleftrightarrow> unat (b - base) < unat (a - base)"
proof (cases "unat (b - base) \<le> unat (a - base)")
  case True
  then have d: "unat (a - b) = unat (a - base) - unat (b - base)"
    unfolding unat_diff_base [of a b base] by (simp only: if_True)
  have "a = b \<longleftrightarrow> unat (a - b) = 0" unfolding unat_eq_0 by simp
  moreover have "unat (a - b) < 2 ^ 31" using d assms(1) by linarith
  ultimately show ?thesis unfolding TIME_GT_iff using d True by linarith
next
  case False
  then have d: "unat (a - b) = unat (a - base) + 2 ^ 32 - unat (b - base)"
    unfolding unat_diff_base [of a b base] by (simp only: if_False)
  then have "\<not> unat (a - b) < 2 ^ 31"
    using wrapped_distance [OF assms False] by (simp only: not_less)
  then show ?thesis unfolding TIME_GT_iff using False by linarith
qed

lemma unat_advance:
  fixes a p base :: lk_time_t
  assumes "unat (a - base) + unat p < 2 ^ 31"
  shows "unat (a + p - base) = unat (a - base) + unat p"
proof -
  have "unat (a - base) + unat p < 2 ^ LENGTH(32)" using assms by simp
  then have "unat ((a - base) + p) = unat (a - base) + unat p" by (simp only: unat_add_lem)
  moreover have "(a - base) + p = a + p - base" by (simp only: diff_add_eq)
  ultimately show ?thesis by (simp only:)
qed

section \<open>Lists\<close>

lemma remove1_notin [simp]: "distinct xs \<Longrightarrow> x \<notin> set (remove1 x xs)"
  by (induction xs) auto

lemma set_remove1_distinct: "distinct xs \<Longrightarrow> set (remove1 x xs) = set xs - {x}"
  by (rule set_remove1_eq)

lemma remove1_split: "x \<notin> set as \<Longrightarrow> remove1 x (as @ x # bs) = as @ bs"
  by (simp add: remove1_append)

end
