(* ===== verification/List_Node.thy ===== *)
theory List_Node
  imports Prelude
begin

text \<open>
  The intrusive doubly linked list of \<^verbatim>\<open>top/include/lk/list.h\<close>, on an explicit memory of nodes.
  A node is addressed by a natural number and address 0 is \<^verbatim>\<open>NULL\<close>; a load or a store through it
  is \<^term>\<open>None\<close>. Every operation is the sequence of loads and stores of the source. The relation
  \<open>list_repr h l xs\<close> says that the circle rooted at the list head \<open>l\<close> holds the nodes \<open>xs\<close> in
  order; each operation is shown to implement its HOL list counterpart, and the locale
  \<open>intrusive_list\<close> states that contract for the components that use the lists.
\<close>

section \<open>Nodes and memory\<close>

record list_node =
  ln_prev :: nat
  ln_next :: nat

type_synonym lheap = "nat \<Rightarrow> list_node"

definition ld_next :: "nat \<Rightarrow> lheap \<Rightarrow> nat option" where
  "ld_next p h = (if p = 0 then None else Some (ln_next (h p)))"

definition ld_prev :: "nat \<Rightarrow> lheap \<Rightarrow> nat option" where
  "ld_prev p h = (if p = 0 then None else Some (ln_prev (h p)))"

definition st_next :: "nat \<Rightarrow> nat \<Rightarrow> lheap \<Rightarrow> lheap option" where
  "st_next p v h = (if p = 0 then None else Some (h(p := (h p)\<lparr>ln_next := v\<rparr>)))"

definition st_prev :: "nat \<Rightarrow> nat \<Rightarrow> lheap \<Rightarrow> lheap option" where
  "st_prev p v h = (if p = 0 then None else Some (h(p := (h p)\<lparr>ln_prev := v\<rparr>)))"

lemmas ldst_defs = ld_next_def ld_prev_def st_next_def st_prev_def

section \<open>The operations of list.h\<close>

definition list_initialize :: "nat \<Rightarrow> lheap \<Rightarrow> lheap option" where
  "list_initialize l h = do { h \<leftarrow> st_next l l h; st_prev l l h }"

definition list_clear_node :: "nat \<Rightarrow> lheap \<Rightarrow> lheap option" where
  "list_clear_node item h = do { h \<leftarrow> st_next item 0 h; st_prev item 0 h }"

definition list_in_list :: "nat \<Rightarrow> lheap \<Rightarrow> bool option" where
  "list_in_list item h = do {
     p \<leftarrow> ld_prev item h;
     n \<leftarrow> ld_next item h;
     if p = 0 \<and> n = 0 then Some False else Some True }"

definition list_add_head :: "nat \<Rightarrow> nat \<Rightarrow> lheap \<Rightarrow> lheap option" where
  "list_add_head l item h = do {
     n \<leftarrow> ld_next l h;
     h \<leftarrow> st_next item n h;
     h \<leftarrow> st_prev item l h;
     n \<leftarrow> ld_next l h;
     h \<leftarrow> st_prev n item h;
     st_next l item h }"

abbreviation list_add_after :: "nat \<Rightarrow> nat \<Rightarrow> lheap \<Rightarrow> lheap option" where
  "list_add_after entry new_entry \<equiv> list_add_head entry new_entry"

definition list_add_tail :: "nat \<Rightarrow> nat \<Rightarrow> lheap \<Rightarrow> lheap option" where
  "list_add_tail l item h = do {
     p \<leftarrow> ld_prev l h;
     h \<leftarrow> st_prev item p h;
     h \<leftarrow> st_next item l h;
     p \<leftarrow> ld_prev l h;
     h \<leftarrow> st_next p item h;
     st_prev l item h }"

abbreviation list_add_before :: "nat \<Rightarrow> nat \<Rightarrow> lheap \<Rightarrow> lheap option" where
  "list_add_before entry new_entry \<equiv> list_add_tail entry new_entry"

definition list_delete :: "nat \<Rightarrow> lheap \<Rightarrow> lheap option" where
  "list_delete item h = do {
     n \<leftarrow> ld_next item h;
     p \<leftarrow> ld_prev item h;
     h \<leftarrow> st_prev n p h;
     p \<leftarrow> ld_prev item h;
     n \<leftarrow> ld_next item h;
     h \<leftarrow> st_next p n h;
     h \<leftarrow> st_next item 0 h;
     st_prev item 0 h }"

definition list_remove_head :: "nat \<Rightarrow> lheap \<Rightarrow> (nat \<times> lheap) option" where
  "list_remove_head l h = do {
     n \<leftarrow> ld_next l h;
     if n \<noteq> l then do { h \<leftarrow> list_delete n h; Some (n, h) }
     else Some (0, h) }"

definition list_remove_tail :: "nat \<Rightarrow> lheap \<Rightarrow> (nat \<times> lheap) option" where
  "list_remove_tail l h = do {
     p \<leftarrow> ld_prev l h;
     if p \<noteq> l then do { h \<leftarrow> list_delete p h; Some (p, h) }
     else Some (0, h) }"

definition list_peek_head :: "nat \<Rightarrow> lheap \<Rightarrow> nat option" where
  "list_peek_head l h = do { n \<leftarrow> ld_next l h; if n \<noteq> l then Some n else Some 0 }"

definition list_peek_tail :: "nat \<Rightarrow> lheap \<Rightarrow> nat option" where
  "list_peek_tail l h = do { p \<leftarrow> ld_prev l h; if p \<noteq> l then Some p else Some 0 }"

definition list_prev :: "nat \<Rightarrow> nat \<Rightarrow> lheap \<Rightarrow> nat option" where
  "list_prev l item h = do { p \<leftarrow> ld_prev item h; if p \<noteq> l then Some p else Some 0 }"

definition list_prev_wrap :: "nat \<Rightarrow> nat \<Rightarrow> lheap \<Rightarrow> nat option" where
  "list_prev_wrap l item h = do {
     p \<leftarrow> ld_prev item h;
     if p \<noteq> l then Some p
     else do { pp \<leftarrow> ld_prev p h; if pp \<noteq> l then Some pp else Some 0 } }"

definition list_next :: "nat \<Rightarrow> nat \<Rightarrow> lheap \<Rightarrow> nat option" where
  "list_next l item h = do { n \<leftarrow> ld_next item h; if n \<noteq> l then Some n else Some 0 }"

definition list_next_wrap :: "nat \<Rightarrow> nat \<Rightarrow> lheap \<Rightarrow> nat option" where
  "list_next_wrap l item h = do {
     n \<leftarrow> ld_next item h;
     if n \<noteq> l then Some n
     else do { nn \<leftarrow> ld_next n h; if nn \<noteq> l then Some nn else Some 0 } }"

definition list_is_empty :: "nat \<Rightarrow> lheap \<Rightarrow> bool option" where
  "list_is_empty l h = do { n \<leftarrow> ld_next l h; Some (n = l) }"

text \<open>
  The loop \<^verbatim>\<open>list_for_every\<close> as it counts in \<^verbatim>\<open>list_length\<close>; it does not end on a chain that
  never comes back to the head, so not returning is \<^term>\<open>None\<close>.
\<close>

partial_function (option) list_length_loop :: "lheap \<Rightarrow> nat \<Rightarrow> nat \<Rightarrow> nat \<Rightarrow> nat option" where
  "list_length_loop h l node cnt =
     (if node = l then Some cnt
      else ld_next node h \<bind> (\<lambda>n. list_length_loop h l n (cnt + 1)))"

definition list_length :: "nat \<Rightarrow> lheap \<Rightarrow> nat option" where
  "list_length l h = do { n \<leftarrow> ld_next l h; list_length_loop h l n 0 }"

section \<open>What a list in memory represents\<close>

fun dlinks :: "lheap \<Rightarrow> nat list \<Rightarrow> bool" where
  "dlinks h (x # y # zs) \<longleftrightarrow> ln_next (h x) = y \<and> ln_prev (h y) = x \<and> dlinks h (y # zs)"
| "dlinks h _ \<longleftrightarrow> True"

definition list_repr :: "lheap \<Rightarrow> nat \<Rightarrow> nat list \<Rightarrow> bool" where
  "list_repr h l xs \<longleftrightarrow> distinct (l # xs) \<and> 0 \<notin> set (l # xs) \<and> dlinks h (l # xs @ [l])"

lemma dlinks_append:
  "dlinks h (xs @ y # zs) \<longleftrightarrow> dlinks h (xs @ [y]) \<and> dlinks h (y # zs)"
proof (induction xs)
  case (Cons x xs)
  then show ?case by (cases xs) auto
qed simp

lemma dlinks_cong:
  assumes "\<And>p. p \<in> set (butlast xs) \<Longrightarrow> ln_next (h' p) = ln_next (h p)"
    and "\<And>p. p \<in> set (tl xs) \<Longrightarrow> ln_prev (h' p) = ln_prev (h p)"
  shows "dlinks h' xs = dlinks h xs"
  using assms
proof (induction xs rule: induct_list012)
  case (3 x y zs)
  have "dlinks h' (y # zs) = dlinks h (y # zs)"
    using "3.prems" by (intro "3.IH"(2)) (auto split: if_splits)
  then show ?case using "3.prems" by simp
qed auto

lemma list_repr_cong:
  assumes "list_repr h l xs" and "\<And>p. p \<in> set (l # xs) \<Longrightarrow> h' p = h p"
  shows "list_repr h' l xs"
proof -
  have "dlinks h' (l # xs @ [l]) = dlinks h (l # xs @ [l])"
    using assms(2) by (intro dlinks_cong) auto
  then show ?thesis using assms(1) by (simp add: list_repr_def)
qed

text \<open>Any node of the circle can serve as its root: the lemma that lets one proof serve all.\<close>

lemma list_repr_rotate:
  "list_repr h l (as @ e # bs) \<longleftrightarrow> list_repr h e (bs @ l # as)"
proof -
  have "dlinks h (l # (as @ e # bs) @ [l]) \<longleftrightarrow> dlinks h ((l # as) @ [e]) \<and> dlinks h (e # bs @ [l])"
    using dlinks_append [of h "l # as" e "bs @ [l]"] by simp
  moreover have "dlinks h (e # (bs @ l # as) @ [e]) \<longleftrightarrow> dlinks h ((e # bs) @ [l]) \<and> dlinks h (l # as @ [e])"
    using dlinks_append [of h "e # bs" l "as @ [e]"] by simp
  ultimately show ?thesis by (auto simp: list_repr_def)
qed

lemma list_repr_next:
  assumes "list_repr h l (as @ e # bs)"
  shows "ln_next (h e) = hd (bs @ [l])" and "ln_prev (h e) = last (l # as)"
proof -
  have r: "list_repr h e (bs @ l # as)" using assms by (simp add: list_repr_rotate)
  then show "ln_next (h e) = hd (bs @ [l])"
    by (cases bs) (auto simp: list_repr_def)
  have "dlinks h ((e # bs) @ l # as @ [e])" using r by (simp add: list_repr_def)
  then have "dlinks h ((l # as) @ [e])"
    using dlinks_append [of h "e # bs" l "as @ [e]"] by simp
  then have "dlinks h (butlast (l # as) @ last (l # as) # [e])"
    using append_butlast_last_id [of "l # as"]
    by (metis append.assoc append_Cons append_Nil list.distinct(1))
  then have "dlinks h (last (l # as) # [e])"
    using dlinks_append by blast
  then show "ln_prev (h e) = last (l # as)" by simp
qed

lemma list_repr_root:
  assumes "list_repr h l xs"
  shows "ln_next (h l) = hd (xs @ [l])" and "ln_prev (h l) = last (l # xs)"
proof -
  show "ln_next (h l) = hd (xs @ [l])"
    using assms by (cases xs) (auto simp: list_repr_def)
  show "ln_prev (h l) = last (l # xs)"
  proof (cases xs rule: rev_cases)
    case Nil
    then show ?thesis using assms by (simp add: list_repr_def)
  next
    case (snoc ys y)
    then have "dlinks h ((l # ys) @ y # [l])" using assms by (simp add: list_repr_def)
    then show ?thesis using snoc dlinks_append [of h "l # ys" y "[l]"] by simp
  qed
qed

section \<open>Sequences of operations, on memory and on HOL lists\<close>

text \<open>
  A client of one list issues a sequence of these operations. \<open>abs_exec\<close> is the contract: what
  each does to the list of nodes, \<^term>\<open>None\<close> where the caller breaks the rule that a node is
  in at most one place.
\<close>

datatype list_op =
  AddHead nat | AddTail nat | AddBefore nat nat | AddAfter nat nat | Delete nat
| RemoveHead | RemoveTail

fun list_exec :: "nat \<Rightarrow> list_op \<Rightarrow> lheap \<Rightarrow> (nat \<times> lheap) option" where
  "list_exec l (AddHead i) h = map_option (Pair 0) (list_add_head l i h)"
| "list_exec l (AddTail i) h = map_option (Pair 0) (list_add_tail l i h)"
| "list_exec l (AddBefore e i) h = map_option (Pair 0) (list_add_before e i h)"
| "list_exec l (AddAfter e i) h = map_option (Pair 0) (list_add_after e i h)"
| "list_exec l (Delete i) h = map_option (Pair 0) (list_delete i h)"
| "list_exec l RemoveHead h = list_remove_head l h"
| "list_exec l RemoveTail h = list_remove_tail l h"

fun insert_before :: "'a \<Rightarrow> 'a \<Rightarrow> 'a list \<Rightarrow> 'a list" where
  "insert_before e i [] = []"
| "insert_before e i (x # xs) = (if x = e then i # x # xs else x # insert_before e i xs)"

fun insert_after :: "'a \<Rightarrow> 'a \<Rightarrow> 'a list \<Rightarrow> 'a list" where
  "insert_after e i [] = []"
| "insert_after e i (x # xs) = (if x = e then x # i # xs else x # insert_after e i xs)"

fun abs_exec :: "nat \<Rightarrow> list_op \<Rightarrow> nat list \<Rightarrow> (nat \<times> nat list) option" where
  "abs_exec l (AddHead i) xs = (if i \<in> set (0 # l # xs) then None else Some (0, i # xs))"
| "abs_exec l (AddTail i) xs = (if i \<in> set (0 # l # xs) then None else Some (0, xs @ [i]))"
| "abs_exec l (AddBefore e i) xs =
     (if i \<in> set (0 # l # xs) \<or> e \<notin> set xs then None else Some (0, insert_before e i xs))"
| "abs_exec l (AddAfter e i) xs =
     (if i \<in> set (0 # l # xs) \<or> e \<notin> set xs then None else Some (0, insert_after e i xs))"
| "abs_exec l (Delete i) xs = (if i \<in> set xs then Some (0, remove1 i xs) else None)"
| "abs_exec l RemoveHead xs = (case xs of [] \<Rightarrow> Some (0, []) | x # ys \<Rightarrow> Some (x, ys))"
| "abs_exec l RemoveTail xs = (if xs = [] then Some (0, []) else Some (last xs, butlast xs))"

fun run_ops :: "(list_op \<Rightarrow> 's \<Rightarrow> (nat \<times> 's) option) \<Rightarrow> list_op list \<Rightarrow> 's \<Rightarrow> (nat list \<times> 's) option" where
  "run_ops ex [] s = Some ([], s)"
| "run_ops ex (c # cs) s = do {
     (r, s) \<leftarrow> ex c s;
     (rs, s) \<leftarrow> run_ops ex cs s;
     Some (r # rs, s) }"

fun add_all :: "('p \<Rightarrow> 'h \<Rightarrow> 'h option) \<Rightarrow> 'p list \<Rightarrow> 'h \<Rightarrow> 'h option" where
  "add_all add [] h = Some h"
| "add_all add (i # is) h = do { h \<leftarrow> add i h; add_all add is h }"

fun remove_n :: "('h \<Rightarrow> ('p \<times> 'h) option) \<Rightarrow> nat \<Rightarrow> 'h \<Rightarrow> ('p list \<times> 'h) option" where
  "remove_n rm 0 h = Some ([], h)"
| "remove_n rm (Suc n) h = do { (x, h) \<leftarrow> rm h; (xs, h) \<leftarrow> remove_n rm n h; Some (x # xs, h) }"

section \<open>The operations implement their list counterparts\<close>

lemma list_initialize_repr:
  assumes "l \<noteq> 0"
  shows "\<exists>h'. list_initialize l h = Some h' \<and> list_repr h' l [] \<and> (\<forall>p. p \<noteq> l \<longrightarrow> h' p = h p)"
  using assms by (simp add: list_initialize_def ldst_defs list_repr_def)

lemma list_add_head_repr:
  assumes "list_repr h l xs" and "item \<notin> set (l # xs)" and "item \<noteq> 0"
  shows "\<exists>h'. list_add_head l item h = Some h' \<and> list_repr h' l (item # xs)
           \<and> (\<forall>p. p \<notin> set (item # l # xs) \<longrightarrow> h' p = h p)"
proof (cases xs)
  case Nil
  then show ?thesis
    using assms by (simp add: list_add_head_def ldst_defs list_repr_def)
next
  case (Cons b bs)
  let ?h = "h(item := \<lparr>ln_prev = l, ln_next = b, \<dots> = list_node.more (h item)\<rparr>,
              b := (h b)\<lparr>ln_prev := item\<rparr>, l := (h l)\<lparr>ln_next := item\<rparr>)"
  have run: "list_add_head l item h = Some ?h"
    using assms Cons by (auto simp: list_add_head_def ldst_defs list_repr_def fun_eq_iff)
  have "dlinks ?h (b # bs @ [l]) = dlinks h (b # bs @ [l])"
    using assms Cons by (intro dlinks_cong) (auto simp: list_repr_def butlast_append)
  then have "list_repr ?h l (item # xs)"
    using assms Cons by (auto simp: list_repr_def)
  then show ?thesis using run Cons by auto
qed

lemma list_add_tail_repr:
  assumes "list_repr h l xs" and "item \<notin> set (l # xs)" and "item \<noteq> 0"
  shows "\<exists>h'. list_add_tail l item h = Some h' \<and> list_repr h' l (xs @ [item])
           \<and> (\<forall>p. p \<notin> set (item # l # xs) \<longrightarrow> h' p = h p)"
proof (cases xs rule: rev_cases)
  case Nil
  then show ?thesis
    using assms by (simp add: list_add_tail_def ldst_defs list_repr_def)
next
  case (snoc as a)
  let ?h = "h(item := \<lparr>ln_prev = a, ln_next = l, \<dots> = list_node.more (h item)\<rparr>,
              a := (h a)\<lparr>ln_next := item\<rparr>, l := (h l)\<lparr>ln_prev := item\<rparr>)"
  have "ln_prev (h l) = a"
    using list_repr_root(2) [OF assms(1)] snoc by simp
  then have run: "list_add_tail l item h = Some ?h"
    using assms snoc by (auto simp: list_add_tail_def ldst_defs list_repr_def fun_eq_iff)
  have "dlinks ?h ((l # as) @ [a]) = dlinks h ((l # as) @ [a])"
    using assms snoc by (intro dlinks_cong) (auto simp: list_repr_def butlast_append)
  moreover have "dlinks h ((l # as) @ a # [l])"
    using assms(1) snoc by (simp add: list_repr_def)
  ultimately have "dlinks ?h ((l # as) @ a # [item, l])"
    using assms snoc dlinks_append [of h "l # as" a "[l]"]
      dlinks_append [of ?h "l # as" a "[item, l]"] by (auto simp: list_repr_def)
  then have "list_repr ?h l (xs @ [item])"
    using assms snoc by (auto simp: list_repr_def)
  then show ?thesis using run snoc by auto
qed

text \<open>Adding after or before an entry of the list is adding at the head or tail of the circle
  rooted at that entry.\<close>

lemma list_add_before_repr:
  assumes "list_repr h l (as @ e # bs)" and "item \<notin> set (l # as @ e # bs)" and "item \<noteq> 0"
  shows "\<exists>h'. list_add_before e item h = Some h' \<and> list_repr h' l (as @ item # e # bs)
           \<and> (\<forall>p. p \<notin> set (item # l # as @ e # bs) \<longrightarrow> h' p = h p)"
proof -
  have "list_repr h e (bs @ l # as)" using assms(1) by (simp add: list_repr_rotate)
  moreover have "item \<notin> set (e # bs @ l # as)" using assms(2) by auto
  ultimately obtain h' where h': "list_add_tail e item h = Some h'"
      "list_repr h' e (bs @ l # as @ [item])"
      "\<forall>p. p \<notin> set (item # e # bs @ l # as) \<longrightarrow> h' p = h p"
    using list_add_tail_repr [of h e "bs @ l # as" item] assms(3) by auto
  have "list_repr h' l (as @ item # e # bs)"
    using h'(2) list_repr_rotate [of h' l "as @ [item]" e bs] by simp
  then show ?thesis using h' by auto
qed

lemma list_add_after_repr:
  assumes "list_repr h l (as @ e # bs)" and "item \<notin> set (l # as @ e # bs)" and "item \<noteq> 0"
  shows "\<exists>h'. list_add_after e item h = Some h' \<and> list_repr h' l (as @ e # item # bs)
           \<and> (\<forall>p. p \<notin> set (item # l # as @ e # bs) \<longrightarrow> h' p = h p)"
proof -
  have "list_repr h e (bs @ l # as)" using assms(1) by (simp add: list_repr_rotate)
  moreover have "item \<notin> set (e # bs @ l # as)" using assms(2) by auto
  ultimately obtain h' where h': "list_add_head e item h = Some h'"
      "list_repr h' e (item # bs @ l # as)"
      "\<forall>p. p \<notin> set (item # e # bs @ l # as) \<longrightarrow> h' p = h p"
    using list_add_head_repr [of h e "bs @ l # as" item] assms(3) by auto
  have "list_repr h' l (as @ e # item # bs)"
    using h'(2) list_repr_rotate [of h' l as e "item # bs"] by simp
  then show ?thesis using h' by auto
qed

text \<open>Deleting a node needs no list head: the circle closes over its neighbours.\<close>

lemma list_delete_circle:
  assumes "list_repr h item (l # ys)"
  shows "\<exists>h'. list_delete item h = Some h' \<and> list_repr h' l ys
           \<and> h' item = (h item)\<lparr>ln_prev := 0, ln_next := 0\<rparr>
           \<and> (\<forall>p. p \<notin> set (item # l # ys) \<longrightarrow> h' p = h p)"
proof (cases ys rule: rev_cases)
  case Nil
  then show ?thesis
    using assms by (auto simp: list_delete_def ldst_defs list_repr_def)
next
  case (snoc as a)
  let ?h = "h(l := (h l)\<lparr>ln_prev := a\<rparr>, a := (h a)\<lparr>ln_next := l\<rparr>,
              item := (h item)\<lparr>ln_prev := 0, ln_next := 0\<rparr>)"
  have nb: "ln_next (h item) = l" "ln_prev (h item) = a"
    using list_repr_root [OF assms] snoc by simp_all
  then have run: "list_delete item h = Some ?h"
    using assms snoc by (auto simp: list_delete_def ldst_defs list_repr_def fun_eq_iff)
  have "dlinks h ((item # l # as) @ a # [item])"
    using assms snoc by (simp add: list_repr_def)
  then have "dlinks h (l # as @ [a])"
    using dlinks_append [of h "item # l # as" a "[item]"] by simp
  moreover have "dlinks ?h ((l # as) @ [a]) = dlinks h ((l # as) @ [a])"
    using assms snoc by (intro dlinks_cong) (auto simp: list_repr_def butlast_append)
  ultimately have "dlinks ?h ((l # as) @ a # [l])"
    using assms snoc dlinks_append [of ?h "l # as" a "[l]"] by (auto simp: list_repr_def)
  then have "list_repr ?h l ys"
    using assms snoc by (auto simp: list_repr_def)
  then show ?thesis using run snoc by auto
qed

lemma list_delete_repr:
  assumes "list_repr h l (as @ item # bs)"
  shows "\<exists>h'. list_delete item h = Some h' \<and> list_repr h' l (as @ bs)
           \<and> list_in_list item h' = Some False
           \<and> (\<forall>p. p \<notin> set (l # as @ item # bs) \<longrightarrow> h' p = h p)"
proof -
  have item: "item \<noteq> 0" using assms by (auto simp: list_repr_def)
  have r: "list_repr h item (bs @ l # as)" using assms by (simp add: list_repr_rotate)
  show ?thesis
  proof (cases bs)
    case Nil
    then obtain h' where "list_delete item h = Some h'" "list_repr h' l as"
        "h' item = (h item)\<lparr>ln_prev := 0, ln_next := 0\<rparr>"
        "\<forall>p. p \<notin> set (item # l # as) \<longrightarrow> h' p = h p"
      using list_delete_circle [of h item l as] r by auto
    then show ?thesis using Nil item by (auto simp: list_in_list_def ldst_defs)
  next
    case (Cons b cs)
    then obtain h' where h': "list_delete item h = Some h'" "list_repr h' b (cs @ l # as)"
        "h' item = (h item)\<lparr>ln_prev := 0, ln_next := 0\<rparr>"
        "\<forall>p. p \<notin> set (item # b # cs @ l # as) \<longrightarrow> h' p = h p"
      using list_delete_circle [of h item b "cs @ l # as"] r by auto
    have "list_repr h' l (as @ b # cs)"
      using h'(2) by (simp add: list_repr_rotate)
    then show ?thesis using h' Cons item by (auto simp: list_in_list_def ldst_defs)
  qed
qed

lemma list_remove_head_repr:
  assumes "list_repr h l (x # xs)"
  shows "\<exists>h'. list_remove_head l h = Some (x, h') \<and> list_repr h' l xs
           \<and> list_in_list x h' = Some False
           \<and> (\<forall>p. p \<notin> set (l # x # xs) \<longrightarrow> h' p = h p)"
proof -
  have "ln_next (h l) = x" "x \<noteq> l" "l \<noteq> 0"
    using assms list_repr_root(1) [OF assms] by (auto simp: list_repr_def)
  then show ?thesis
    using list_delete_repr [of h l "[]" x xs] assms
    by (auto simp: list_remove_head_def ldst_defs)
qed

lemma list_remove_tail_repr:
  assumes "list_repr h l (xs @ [x])"
  shows "\<exists>h'. list_remove_tail l h = Some (x, h') \<and> list_repr h' l xs
           \<and> list_in_list x h' = Some False
           \<and> (\<forall>p. p \<notin> set (l # x # xs) \<longrightarrow> h' p = h p)"
proof -
  have "ln_prev (h l) = x" "x \<noteq> l" "l \<noteq> 0"
    using assms list_repr_root(2) [OF assms] by (auto simp: list_repr_def)
  then show ?thesis
    using list_delete_repr [of h l xs x "[]"] assms
    by (auto simp: list_remove_tail_def ldst_defs)
qed

lemma list_remove_empty:
  assumes "list_repr h l []"
  shows "list_remove_head l h = Some (0, h)" and "list_remove_tail l h = Some (0, h)"
  using assms by (auto simp: list_repr_def list_remove_head_def list_remove_tail_def ldst_defs)

lemma list_peek_repr:
  assumes "list_repr h l xs"
  shows "list_peek_head l h = Some (if xs = [] then 0 else hd xs)"
    and "list_peek_tail l h = Some (if xs = [] then 0 else last xs)"
    and "list_is_empty l h = Some (xs = [])"
proof -
  have l: "l \<noteq> 0" "l \<notin> set xs" using assms by (auto simp: list_repr_def)
  show "list_peek_head l h = Some (if xs = [] then 0 else hd xs)"
    using l list_repr_root(1) [OF assms] by (cases xs) (auto simp: list_peek_head_def ldst_defs)
  show "list_peek_tail l h = Some (if xs = [] then 0 else last xs)"
    using l list_repr_root(2) [OF assms] last_in_set [of xs]
    by (auto simp: list_peek_tail_def ldst_defs)
  show "list_is_empty l h = Some (xs = [])"
    using l list_repr_root(1) [OF assms] by (cases xs) (auto simp: list_is_empty_def ldst_defs)
qed

lemma list_neighbour_repr:
  assumes "list_repr h l (as @ e # bs)"
  shows "list_next l e h = Some (if bs = [] then 0 else hd bs)"
    and "list_prev l e h = Some (if as = [] then 0 else last as)"
    and "list_next_wrap l e h = Some (hd (bs @ as @ [e]))"
    and "list_prev_wrap l e h = Some (last (e # bs @ as))"
proof -
  have d: "l \<notin> set (as @ e # bs)" "l \<noteq> 0" "e \<noteq> 0" using assms by (auto simp: list_repr_def)
  note nb = list_repr_next [OF assms] list_repr_root [OF assms]
  show "list_next l e h = Some (if bs = [] then 0 else hd bs)"
    using d nb by (cases bs) (auto simp: list_next_def ldst_defs)
  show "list_prev l e h = Some (if as = [] then 0 else last as)"
    using d nb last_in_set [of as] by (auto simp: list_prev_def ldst_defs)
  show "list_next_wrap l e h = Some (hd (bs @ as @ [e]))"
    using d nb by (cases bs; cases as) (auto simp: list_next_wrap_def ldst_defs)
  show "list_prev_wrap l e h = Some (last (e # bs @ as))"
    using d nb last_in_set [of as] last_in_set [of bs]
    by (auto simp: list_prev_wrap_def ldst_defs)
qed

lemma list_length_loop_repr:
  assumes "list_repr h l (as @ bs)"
  shows "list_length_loop h l (hd (bs @ [l])) k = Some (k + length bs)"
  using assms
proof (induction bs arbitrary: as k)
  case Nil
  then show ?case by (simp add: list_length_loop.simps)
next
  case (Cons e bs)
  have "ln_next (h e) = hd (bs @ [l])" "e \<noteq> l" "e \<noteq> 0"
    using list_repr_next(1) [OF Cons.prems] Cons.prems by (auto simp: list_repr_def)
  then have "list_length_loop h l e k = list_length_loop h l (hd (bs @ [l])) (k + 1)"
    by (subst list_length_loop.simps) (simp add: ldst_defs)
  also have "\<dots> = Some (k + 1 + length bs)"
    using Cons.IH [of "as @ [e]" "k + 1"] Cons.prems by simp
  finally show ?case by simp
qed

lemma list_length_repr:
  assumes "list_repr h l xs"
  shows "list_length l h = Some (length xs)"
proof -
  have "l \<noteq> 0" using assms by (simp add: list_repr_def)
  then show ?thesis
    using list_length_loop_repr [of h l "[]" xs 0] list_repr_root(1) [OF assms] assms
    by (simp add: list_length_def ldst_defs)
qed

section \<open>The contract of the lists, as an interface\<close>

text \<open>
  What run queues, wait queues and timer queues rely on, over any memory and node type.
\<close>

locale intrusive_list =
  fixes repr :: "'h \<Rightarrow> 'p \<Rightarrow> 'p list \<Rightarrow> bool"
    and null :: 'p
    and add_tail :: "'p \<Rightarrow> 'p \<Rightarrow> 'h \<Rightarrow> 'h option"
    and add_head :: "'p \<Rightarrow> 'p \<Rightarrow> 'h \<Rightarrow> 'h option"
    and remove_head :: "'p \<Rightarrow> 'h \<Rightarrow> ('p \<times> 'h) option"
  assumes add_tail_law: "repr h l xs \<Longrightarrow> i \<notin> set (null # l # xs) \<Longrightarrow>
            \<exists>h'. add_tail l i h = Some h' \<and> repr h' l (xs @ [i])"
    and add_head_law: "repr h l xs \<Longrightarrow> i \<notin> set (null # l # xs) \<Longrightarrow>
            \<exists>h'. add_head l i h = Some h' \<and> repr h' l (i # xs)"
    and remove_head_law: "repr h l (x # xs) \<Longrightarrow>
            \<exists>h'. remove_head l h = Some (x, h') \<and> repr h' l xs"
    and remove_head_empty: "repr h l [] \<Longrightarrow> remove_head l h = Some (null, h)"
begin

lemma add_all_tail:
  assumes "repr h l xs" and "distinct is" and "set is \<inter> set (null # l # xs) = {}"
  shows "\<exists>h'. add_all (add_tail l) is h = Some h' \<and> repr h' l (xs @ is)"
  using assms
proof (induction "is" arbitrary: h xs)
  case (Cons i "is")
  then obtain h1 where h1: "add_tail l i h = Some h1" "repr h1 l (xs @ [i])"
    using add_tail_law [of h l xs i] by auto
  moreover have "set is \<inter> set (null # l # xs @ [i]) = {}"
    using Cons.prems by auto
  ultimately show ?case
    using Cons.IH [of h1 "xs @ [i]"] Cons.prems(2) by auto
qed auto

lemma add_all_head:
  assumes "repr h l xs" and "distinct is" and "set is \<inter> set (null # l # xs) = {}"
  shows "\<exists>h'. add_all (add_head l) is h = Some h' \<and> repr h' l (rev is @ xs)"
  using assms
proof (induction "is" arbitrary: h xs)
  case (Cons i "is")
  then obtain h1 where h1: "add_head l i h = Some h1" "repr h1 l (i # xs)"
    using add_head_law [of h l xs i] by auto
  moreover have "set is \<inter> set (null # l # i # xs) = {}"
    using Cons.prems by auto
  ultimately show ?case
    using Cons.IH [of h1 "i # xs"] Cons.prems(2) by auto
qed auto

lemma remove_n_prefix:
  assumes "repr h l (xs @ ys)"
  shows "\<exists>h'. remove_n (remove_head l) (length xs) h = Some (xs, h') \<and> repr h' l ys"
  using assms
proof (induction xs arbitrary: h)
  case (Cons x xs)
  then show ?case
    using remove_head_law [of h l x "xs @ ys"] by fastforce
qed auto

lemma fifo:
  assumes "repr h l []" and "distinct is" and "set is \<inter> {null, l} = {}"
  shows "\<exists>h1 h2. add_all (add_tail l) is h = Some h1
           \<and> remove_n (remove_head l) (length is) h1 = Some (is, h2) \<and> repr h2 l []"
  using add_all_tail [of h l "[]" "is"] remove_n_prefix [of _ l "is" "[]"] assms by fastforce

lemma lifo:
  assumes "repr h l []" and "distinct is" and "set is \<inter> {null, l} = {}"
  shows "\<exists>h1 h2. add_all (add_head l) is h = Some h1
           \<and> remove_n (remove_head l) (length is) h1 = Some (rev is, h2) \<and> repr h2 l []"
  using add_all_head [of h l "[]" "is"] remove_n_prefix [of _ l "rev is" "[]"] assms by fastforce

end

interpretation lk: intrusive_list list_repr 0 list_add_tail list_add_head list_remove_head
proof unfold_locales
  show "\<exists>h'. list_add_tail l i h = Some h' \<and> list_repr h' l (xs @ [i])"
    if "list_repr h l xs" "i \<notin> set (0 # l # xs)" for h l xs i
    using list_add_tail_repr [of h l xs i] that by auto
  show "\<exists>h'. list_add_head l i h = Some h' \<and> list_repr h' l (i # xs)"
    if "list_repr h l xs" "i \<notin> set (0 # l # xs)" for h l xs i
    using list_add_head_repr [of h l xs i] that by auto
  show "\<exists>h'. list_remove_head l h = Some (x, h') \<and> list_repr h' l xs"
    if "list_repr h l (x # xs)" for h l x xs
    using list_remove_head_repr [OF that] by auto
qed (rule list_remove_empty)

section \<open>Properties\<close>

lemma insert_before_split: "e \<notin> set as \<Longrightarrow> insert_before e i (as @ e # bs) = as @ i # e # bs"
  by (induction as) auto

lemma insert_after_split: "e \<notin> set as \<Longrightarrow> insert_after e i (as @ e # bs) = as @ e # i # bs"
  by (induction as) auto

lemma list_exec_refines:
  assumes r: "list_repr h l xs" and a: "abs_exec l c xs = Some (v, xs')"
  shows "\<exists>h'. list_exec l c h = Some (v, h') \<and> list_repr h' l xs'"
proof (cases c)
  case (AddHead i)
  then show ?thesis using lk.add_head_law [OF r, of i] a by (auto split: if_splits)
next
  case (AddTail i)
  then show ?thesis using lk.add_tail_law [OF r, of i] a by (auto split: if_splits)
next
  case (AddBefore e i)
  then obtain as bs where xs: "xs = as @ e # bs" "e \<notin> set as"
    using a split_list_first [of e xs] by (auto split: if_splits)
  then show ?thesis
    using list_add_before_repr [of h l as e bs i] AddBefore a r
    by (auto simp: insert_before_split split: if_splits)
next
  case (AddAfter e i)
  then obtain as bs where xs: "xs = as @ e # bs" "e \<notin> set as"
    using a split_list_first [of e xs] by (auto split: if_splits)
  then show ?thesis
    using list_add_after_repr [of h l as e bs i] AddAfter a r
    by (auto simp: insert_after_split split: if_splits)
next
  case (Delete i)
  then obtain as bs where xs: "xs = as @ i # bs" "i \<notin> set as"
    using a split_list_first [of i xs] by (auto split: if_splits)
  then show ?thesis
    using list_delete_repr [of h l as i bs] Delete a r
    by (auto simp: remove1_split split: if_splits)
next
  case RemoveHead
  then show ?thesis
    using lk.remove_head_law [of h l] lk.remove_head_empty [of h l] a r
    by (cases xs) auto
next
  case RemoveTail
  then show ?thesis
    using list_remove_tail_repr [of h l] list_remove_empty(2) [of h l] a r
    by (cases xs rule: rev_cases) fastforce+
qed

text \<open>
  C17. Any sequence of operations of \<^verbatim>\<open>list.h\<close> that respects the one rule of intrusive lists (a node
  is added only when it is not linked, deleted only when it is) runs to its end on linked memory,
  without touching a null pointer, returns what the same sequence returns on plain lists, and
  leaves the memory representing the resulting list.
\<close>

theorem list_ops_refine:
  assumes "list_repr h l xs" and "run_ops (abs_exec l) cs xs = Some (vs, xs')"
  shows "\<exists>h'. run_ops (list_exec l) cs h = Some (vs, h') \<and> list_repr h' l xs'
           \<and> list_length l h' = Some (length xs')"
  using assms
proof (induction cs arbitrary: h xs vs)
  case Nil
  then show ?case by (simp add: list_length_repr)
next
  case (Cons c cs)
  from Cons.prems(2) obtain v ys ws where
      c: "abs_exec l c xs = Some (v, ys)" and cs: "run_ops (abs_exec l) cs ys = Some (ws, xs')"
      and vs: "vs = v # ws"
    by (auto simp: bind_eq_Some_conv split: prod.splits)
  obtain h1 where "list_exec l c h = Some (v, h1)" "list_repr h1 l ys"
    using list_exec_refines [OF Cons.prems(1) c] by blast
  moreover from this obtain h2 where "run_ops (list_exec l) cs h1 = Some (ws, h2)"
      "list_repr h2 l xs'" "list_length l h2 = Some (length xs')"
    using Cons.IH [OF _ cs] by blast
  ultimately show ?case using vs by simp
qed

text \<open>A concrete run: three nodes added, one deleted from the middle, the head removed.\<close>

definition empty_circle :: lheap where
  "empty_circle = (\<lambda>p. \<lparr>ln_prev = p, ln_next = p\<rparr>)"

lemma list_ops_refine_witness:
  "list_repr empty_circle 1 []
   \<and> run_ops (abs_exec 1) [AddTail 2, AddTail 3, AddHead 4, Delete 2, RemoveHead] [] = Some ([0, 0, 0, 0, 4], [3])
   \<and> (\<exists>h'. run_ops (list_exec 1) [AddTail 2, AddTail 3, AddHead 4, Delete 2, RemoveHead] empty_circle
              = Some ([0, 0, 0, 0, 4], h') \<and> list_repr h' 1 [3] \<and> list_length 1 h' = Some 1)"
proof -
  have r: "list_repr empty_circle 1 []"
    by (simp add: list_repr_def empty_circle_def)
  have a: "run_ops (abs_exec 1) [AddTail 2, AddTail 3, AddHead 4, Delete 2, RemoveHead] []
      = Some ([0, 0, 0, 0, 4], [3])"
    by simp
  show ?thesis using r a list_ops_refine [OF r a] by simp
qed

text \<open>
  C18. Nodes appended with \<^verbatim>\<open>list_add_tail\<close> come back from \<^verbatim>\<open>list_remove_head\<close> in the order they
  went in, and nodes pushed with \<^verbatim>\<open>list_add_head\<close> in the reverse order, the list being empty again
  after as many removals.
\<close>

theorem list_queue_order:
  assumes "list_repr h l []" and "distinct is" and "set is \<inter> {0, l} = {}"
  shows "(\<exists>h1 h2. add_all (list_add_tail l) is h = Some h1
            \<and> remove_n (list_remove_head l) (length is) h1 = Some (is, h2) \<and> list_repr h2 l [])
       \<and> (\<exists>h1 h2. add_all (list_add_head l) is h = Some h1
            \<and> remove_n (list_remove_head l) (length is) h1 = Some (rev is, h2) \<and> list_repr h2 l [])"
  using lk.fifo [OF assms] lk.lifo [OF assms] by blast

lemma list_queue_order_witness:
  "list_repr empty_circle 1 [] \<and> distinct [5, 3, 7 :: nat] \<and> set [5, 3, 7 :: nat] \<inter> {0, 1} = {}
   \<and> (\<exists>h1 h2. add_all (list_add_tail 1) [5, 3, 7] empty_circle = Some h1
           \<and> remove_n (list_remove_head 1) 3 h1 = Some ([5, 3, 7], h2) \<and> list_repr h2 1 [])"
proof -
  have r: "list_repr empty_circle 1 []"
    by (simp add: list_repr_def empty_circle_def)
  have d: "distinct [5, 3, 7 :: nat]" "set [5, 3, 7 :: nat] \<inter> {0, 1} = {}" by simp_all
  show ?thesis using r d list_queue_order [OF r d] by (simp add: eval_nat_numeral)
qed

end
