(* ===== verification/Pow2.thy ===== *)
theory Pow2
  imports Prelude
begin

text \<open>
  The power-of-two helpers of \<^verbatim>\<open>top/include/lk/pow2.h\<close> on 32-bit words, and the compiler's
  \<^verbatim>\<open>__builtin_clz\<close> they use. The run queue bitmap, the port buffers and the circular buffer are
  built on them.
\<close>

unbundle bit_operations_syntax

section \<open>Definitions\<close>

text \<open>The highest set bit of \<open>w\<close> among the bits below \<open>n\<close>, 0 when there is none.\<close>

primrec top_bit :: "nat \<Rightarrow> u32 \<Rightarrow> nat" where
  "top_bit 0 w = 0"
| "top_bit (Suc n) w = (if bit w n then n else top_bit n w)"

text \<open>\<^verbatim>\<open>__builtin_clz\<close> counts the zero bits above the highest set bit; it is undefined at 0.\<close>

definition builtin_clz :: "u32 \<Rightarrow> nat" where
  "builtin_clz w = 31 - top_bit 32 w"

definition ispow2 :: "u32 \<Rightarrow> bool" where
  "ispow2 val \<longleftrightarrow> ((val - 1) AND val) = 0"

definition log2_uint :: "u32 \<Rightarrow> nat" where
  "log2_uint val = (if val = 0 then 0 else 4 * 8 - 1 - builtin_clz val)"

definition valpow2 :: "nat \<Rightarrow> u32" where
  "valpow2 valp2 = push_bit valp2 1"

definition divpow2 :: "u32 \<Rightarrow> nat \<Rightarrow> u32" where
  "divpow2 val divp2 = drop_bit divp2 val"

text \<open>The mask is computed in \<^verbatim>\<open>unsigned long\<close>, 64 bits wide on the 64-bit targets.\<close>

definition modpow2 :: "u32 \<Rightarrow> nat \<Rightarrow> u32" where
  "modpow2 val modp2 = ucast (ucast val AND (push_bit modp2 (1 :: 64 word) - 1))"


section \<open>The highest set bit\<close>

lemma top_bit_less: "top_bit n w < n \<or> top_bit n w = 0"
  by (induction n) auto

lemma top_bit_spec:
  assumes "\<exists>i<n. bit w i"
  shows "bit w (top_bit n w) \<and> top_bit n w < n \<and> (\<forall>i. top_bit n w < i \<and> i < n \<longrightarrow> \<not> bit w i)"
  using assms
proof (induction n)
  case (Suc n)
  then show ?case by (auto simp: less_Suc_eq)
qed simp

lemma ex_bit_u32: "w \<noteq> 0 \<Longrightarrow> \<exists>i<32. bit (w :: u32) i"
  using bit_eqI [of w 0] bit_imp_le_length [of w] by fastforce

lemma bit_u32_less: "bit (w :: u32) i \<Longrightarrow> i < 32"
  using bit_imp_le_length [of w i] by simp

lemma log2_uint_top: "w \<noteq> 0 \<Longrightarrow> log2_uint w = top_bit 32 w"
  using top_bit_spec [of 32 w] ex_bit_u32 [of w] by (simp add: log2_uint_def builtin_clz_def)

lemma log2_uint_spec:
  assumes "w \<noteq> 0"
  shows "bit w (log2_uint w)" and "log2_uint w < 32" and "bit w i \<Longrightarrow> i \<le> log2_uint w"
  using top_bit_spec [OF ex_bit_u32 [OF assms]] bit_u32_less [of w i]
  by (auto simp: log2_uint_top [OF assms] not_le [symmetric])

lemma unat_less_power_bits:
  assumes "\<And>i. bit (w :: u32) i \<Longrightarrow> i < k"
  shows "unat w < 2 ^ k"
proof -
  have "take_bit k w = w"
    using assms by (intro bit_eqI) (auto simp: bit_take_bit_iff)
  then have "unat w = take_bit k (unat w)"
    by (metis unsigned_take_bit_eq)
  then show ?thesis by (metis take_bit_nat_less_exp)
qed

lemma bit_le_unat:
  assumes "bit (w :: u32) i"
  shows "2 ^ i \<le> unat w"
proof -
  have "bit (unat w) i" using assms by (simp add: bit_unsigned_iff)
  then have "odd (unat w div 2 ^ i)" by (simp add: bit_iff_odd)
  then have "unat w div 2 ^ i \<noteq> 0" by (metis even_zero)
  then show ?thesis by (simp add: div_eq_0_iff)
qed

lemma unat_power_u32: "k < 32 \<Longrightarrow> unat (2 ^ k :: u32) = 2 ^ k"
proof -
  assume "k < 32"
  then have "(2 :: nat) ^ k < 2 ^ 32" by (intro power_strict_increasing) simp_all
  then show ?thesis using unat_of_nat [of "2 ^ k", where 'a = 32] by simp
qed

lemma valpow2_eq: "valpow2 k = 2 ^ k"
  by (simp add: valpow2_def push_bit_eq_mult)

lemma unat_valpow2: "k < 32 \<Longrightarrow> unat (valpow2 k) = 2 ^ k"
  by (simp add: valpow2_eq unat_power_u32)

text \<open>
  \<^verbatim>\<open>log2_uint\<close> is the integer logarithm: \<open>2 ^ log2_uint w \<le> w < 2 ^ (log2_uint w + 1)\<close> for every
  nonzero 32-bit value.
\<close>

lemma log2_uint_bounds:
  assumes "w \<noteq> 0"
  shows "2 ^ log2_uint w \<le> unat w \<and> unat w < 2 ^ (log2_uint w + 1) \<and> log2_uint w < 32"
proof -
  have "unat w < 2 ^ (log2_uint w + 1)"
    using log2_uint_spec(3) [OF assms] by (intro unat_less_power_bits) (auto simp: less_Suc_eq_le)
  then show ?thesis
    using bit_le_unat [OF log2_uint_spec(1) [OF assms]] log2_uint_spec(2) [OF assms] by simp
qed

lemma log2_uint_unique:
  assumes "2 ^ k \<le> unat w" and "unat w < 2 ^ (k + 1)"
  shows "log2_uint w = k"
proof -
  have "w \<noteq> 0" using assms(1) by (intro notI) simp
  note b = log2_uint_bounds [OF this]
  have "(2 :: nat) ^ log2_uint w < 2 ^ (k + 1)" "(2 :: nat) ^ k < 2 ^ (log2_uint w + 1)"
    using b assms by linarith+
  then have "log2_uint w < k + 1" "k < log2_uint w + 1"
    by (metis power_less_imp_less_exp one_less_numeral_iff semiring_norm(76))+
  then show ?thesis by simp
qed

lemma log2_uint_power: "k < 32 \<Longrightarrow> log2_uint (2 ^ k) = k"
  by (rule log2_uint_unique) (simp_all add: unat_power_u32)

section \<open>Powers of two\<close>

lemma ispow2_power: "k < 32 \<Longrightarrow> ispow2 (2 ^ k)"
proof -
  assume "k < 32"
  have m: "(2 ^ k - 1 :: u32) = mask k" by (simp add: mask_eq_exp_minus_1)
  have "mask k AND (2 ^ k :: u32) = 0"
    by (intro bit_eqI) (auto simp: bit_and_iff bit_mask_iff bit_exp_iff)
  then show ?thesis by (simp add: ispow2_def m)
qed

lemma ispow2_is_power:
  assumes "ispow2 w" and "w \<noteq> 0"
  shows "w = 2 ^ log2_uint w"
proof (rule ccontr)
  assume ne: "w \<noteq> 2 ^ log2_uint w"
  let ?k = "log2_uint w"
  note b = log2_uint_bounds [OF assms(2)]
  have "unat w \<noteq> 2 ^ ?k"
    using ne b by (metis unat_power_u32 word_unat_eq_iff)
  then have gt: "2 ^ ?k < unat w" using b by linarith
  have w1: "unat (w - 1) = unat w - 1"
    using assms(2) by (simp add: unat_minus_one)
  then have "unat (w - 1) < 2 ^ (?k + 1)" "2 ^ ?k \<le> unat (w - 1)"
    using b gt by linarith+
  then have "log2_uint (w - 1) = ?k" by (intro log2_uint_unique)
  moreover have "(1 :: nat) \<le> 2 ^ ?k" by simp
  then have "unat (w - 1) \<noteq> 0" using w1 gt by linarith
  then have "w - 1 \<noteq> 0" by (intro notI) (simp only: unsigned_0)
  ultimately have "bit (w - 1) ?k" "bit w ?k"
    using log2_uint_spec(1) [of "w - 1"] log2_uint_spec(1) [OF assms(2)] by simp_all
  then have "bit ((w - 1) AND w) ?k" by (simp add: bit_and_iff)
  then show False using assms(1) by (simp add: ispow2_def)
qed

text \<open>
  C19. \<^verbatim>\<open>ispow2\<close> holds of exactly the powers of two, and of 0: the one value its callers must
  exclude themselves.
\<close>

theorem ispow2_iff: "ispow2 w \<longleftrightarrow> w = 0 \<or> (\<exists>k<32. w = valpow2 k)"
proof
  assume "ispow2 w"
  then show "w = 0 \<or> (\<exists>k<32. w = valpow2 k)"
    using ispow2_is_power log2_uint_spec(2) valpow2_eq by metis
next
  assume "w = 0 \<or> (\<exists>k<32. w = valpow2 k)"
  then show "ispow2 w" using ispow2_power by (auto simp: valpow2_eq ispow2_def)
qed

lemma modpow2_eq: "k < 64 \<Longrightarrow> modpow2 v k = take_bit k v"
proof -
  assume "k < 64"
  have "(push_bit k 1 - 1 :: 64 word) = mask k"
    by (simp add: mask_eq_exp_minus_1 push_bit_eq_mult)
  then show ?thesis
    unfolding modpow2_def
    by (intro bit_eqI) (auto simp: bit_simps dest: bit_imp_le_length)
qed

lemma unat_modpow2: "k < 64 \<Longrightarrow> unat (modpow2 v k) = unat v mod 2 ^ k"
  unfolding modpow2_eq unsigned_take_bit_eq by (rule take_bit_eq_mod)

lemma unat_divpow2: "unat (divpow2 v k) = unat v div 2 ^ k"
  unfolding divpow2_def unat_drop_bit_eq by (rule drop_bit_eq_div)

section \<open>Rounding up\<close>








end
