(* ===== verification/Timer.thy ===== *)
theory Timer
  imports Prelude
begin

text \<open>
  The timer subsystem, \<^verbatim>\<open>kernel/timer.c\<close>, for a platform with a dynamic (one-shot) hardware timer.
  Each cpu has a queue of timers ordered by expiry; the intrusive list node of a timer is
  \<open>tm_node\<close>: the cpu in whose queue the timer is linked, if it is in one. A callback is a value of
  the type \<open>'c\<close> (the C function pointer together with its argument); what calling it does is the
  argument \<open>fire\<close> of \<open>timer_tick\<close>. The state is an extensible record, so that the threading
  system, whose callbacks the timers run, is an extension of it.
\<close>

section \<open>State\<close>

datatype handler_return = INT_NO_RESCHEDULE | INT_RESCHEDULE

abbreviation TIMER_MAGIC :: int where "TIMER_MAGIC \<equiv> 0x74696D72"

record 'c timer =
  tm_magic :: int
  tm_node :: "nat option"
  tm_scheduled_time :: lk_time_t
  tm_periodic_time :: lk_time_t
  tm_callback :: "'c option"

record ('m, 'c) timer_sys =
  timers :: "'m \<Rightarrow> 'c timer"
  timer_queue :: "nat \<Rightarrow> 'm list"
  hw_timer :: "nat \<Rightarrow> lk_time_t option"
  current_time :: lk_time_t

definition TIMER_INITIAL_VALUE :: "'c timer" where
  "TIMER_INITIAL_VALUE = \<lparr>tm_magic = TIMER_MAGIC, tm_node = None, tm_scheduled_time = 0,
     tm_periodic_time = 0, tm_callback = None\<rparr>"

section \<open>Operations\<close>

definition timer_initialize :: "'m \<Rightarrow> ('m, 'c, 'x) timer_sys_scheme \<Rightarrow> ('m, 'c, 'x) timer_sys_scheme" where
  "timer_initialize timer s = s\<lparr>timers := (timers s)(timer := TIMER_INITIAL_VALUE)\<rparr>"

text \<open>\<^verbatim>\<open>list_delete(&timer->node)\<close>: unlinks the timer from the queue it is in.\<close>

definition timer_node_delete :: "'m \<Rightarrow> ('m, 'c, 'x) timer_sys_scheme \<Rightarrow> ('m, 'c, 'x) timer_sys_scheme" where
  "timer_node_delete timer s =
     (case tm_node (timers s timer) of
        None \<Rightarrow> s
      | Some c \<Rightarrow> s\<lparr>timer_queue := (timer_queue s)(c := remove1 timer (timer_queue s c)),
                    timers := (timers s)(timer := (timers s timer)\<lparr>tm_node := None\<rparr>)\<rparr>)"

text \<open>The walk of \<^verbatim>\<open>insert_timer_in_queue\<close>: before the first entry that expires later.\<close>

fun insert_by_time :: "('m \<Rightarrow> lk_time_t) \<Rightarrow> 'm \<Rightarrow> 'm list \<Rightarrow> 'm list" where
  "insert_by_time time m [] = [m]"
| "insert_by_time time m (e # es) =
     (if TIME_GT (time e) (time m) then m # e # es else e # insert_by_time time m es)"

definition insert_timer_in_queue :: "nat \<Rightarrow> 'm \<Rightarrow> ('m, 'c, 'x) timer_sys_scheme \<Rightarrow> ('m, 'c, 'x) timer_sys_scheme" where
  "insert_timer_in_queue cpu timer s =
     s\<lparr>timer_queue := (timer_queue s)(cpu :=
          insert_by_time (\<lambda>m. tm_scheduled_time (timers s m)) timer (timer_queue s cpu)),
       timers := (timers s)(timer := (timers s timer)\<lparr>tm_node := Some cpu\<rparr>)\<rparr>"

definition timer_set :: "'m \<Rightarrow> lk_time_t \<Rightarrow> lk_time_t \<Rightarrow> 'c \<Rightarrow> nat \<Rightarrow> ('m, 'c, 'x) timer_sys_scheme \<Rightarrow>
    ('m, 'c, 'x) timer_sys_scheme option" where
  "timer_set timer delay period callback cpu s = do {
     chk (tm_magic (timers s timer) = TIMER_MAGIC);
     chk (tm_node (timers s timer) = None);
     let s = s\<lparr>timers := (timers s)(timer := (timers s timer)\<lparr>
                tm_scheduled_time := current_time s + delay,
                tm_periodic_time := period,
                tm_callback := Some callback\<rparr>)\<rparr>;
     let s = insert_timer_in_queue cpu timer s;
     if timer_queue s cpu \<noteq> [] \<and> hd (timer_queue s cpu) = timer
     then Some (s\<lparr>hw_timer := (hw_timer s)(cpu := Some delay)\<rparr>)
     else Some s }"

definition timer_set_oneshot :: "'m \<Rightarrow> lk_time_t \<Rightarrow> 'c \<Rightarrow> nat \<Rightarrow> ('m, 'c, 'x) timer_sys_scheme \<Rightarrow>
    ('m, 'c, 'x) timer_sys_scheme option" where
  "timer_set_oneshot timer delay callback cpu s =
     timer_set timer (if delay = 0 then 1 else delay) 0 callback cpu s"

definition timer_set_periodic :: "'m \<Rightarrow> lk_time_t \<Rightarrow> 'c \<Rightarrow> nat \<Rightarrow> ('m, 'c, 'x) timer_sys_scheme \<Rightarrow>
    ('m, 'c, 'x) timer_sys_scheme option" where
  "timer_set_periodic timer period callback cpu s =
     (let period = (if period = 0 then 1 else period)
      in timer_set timer period period callback cpu s)"

definition peek_head :: "'a list \<Rightarrow> 'a option" where
  "peek_head xs = (case xs of [] \<Rightarrow> None | x # _ \<Rightarrow> Some x)"

definition timer_cancel :: "'m \<Rightarrow> nat \<Rightarrow> ('m, 'c, 'x) timer_sys_scheme \<Rightarrow> ('m, 'c, 'x) timer_sys_scheme option" where
  "timer_cancel timer cpu s = do {
     chk (tm_magic (timers s timer) = TIMER_MAGIC);
     let oldhead = peek_head (timer_queue s cpu);
     let s = timer_node_delete timer s;
     let s = s\<lparr>timers := (timers s)(timer := (timers s timer)\<lparr>
                tm_periodic_time := 0, tm_callback := None\<rparr>)\<rparr>;
     case peek_head (timer_queue s cpu) of
       None \<Rightarrow> Some (s\<lparr>hw_timer := (hw_timer s)(cpu := None)\<rparr>)
     | Some newhead \<Rightarrow>
         if Some newhead \<noteq> oldhead then
           (let now = current_time s;
                sched = tm_scheduled_time (timers s newhead);
                delay = (if TIME_LT sched now then 0 else sched - now)
            in Some (s\<lparr>hw_timer := (hw_timer s)(cpu := Some delay)\<rparr>))
         else Some s }"

text \<open>
  After its callback, a periodic timer that was not requeued or cancelled goes back in the queue,
  one period later, or one period from now when that is already past.
\<close>

definition timer_requeue :: "nat \<Rightarrow> lk_time_t \<Rightarrow> bool \<Rightarrow> 'm \<Rightarrow> ('m, 'c, 'x) timer_sys_scheme \<Rightarrow>
    ('m, 'c, 'x) timer_sys_scheme" where
  "timer_requeue cpu now periodic timer s =
     (if periodic \<and> tm_node (timers s timer) = None \<and> tm_periodic_time (timers s timer) > 0 then
        (let t = timers s timer;
             sched = tm_scheduled_time t + tm_periodic_time t;
             sched = (if TIME_LT sched now then now + tm_periodic_time t else sched);
             s = s\<lparr>timers := (timers s)(timer := t\<lparr>tm_scheduled_time := sched\<rparr>)\<rparr>
         in insert_timer_in_queue cpu timer s)
      else s)"

partial_function (option) timer_tick_loop ::
    "('m \<Rightarrow> 'c \<Rightarrow> lk_time_t \<Rightarrow> ('m, 'c, 'x) timer_sys_scheme \<Rightarrow> (handler_return \<times> ('m, 'c, 'x) timer_sys_scheme) option)
     \<Rightarrow> nat \<Rightarrow> lk_time_t \<Rightarrow> handler_return \<Rightarrow> ('m, 'c, 'x) timer_sys_scheme
     \<Rightarrow> (handler_return \<times> ('m, 'c, 'x) timer_sys_scheme) option" where
  "timer_tick_loop fire cpu now ret s =
     (case timer_queue s cpu of
        [] \<Rightarrow> Some (ret, s)
      | timer # rest \<Rightarrow>
          if TIME_LT now (tm_scheduled_time (timers s timer)) then Some (ret, s)
          else do {
            chk (tm_magic (timers s timer) = TIMER_MAGIC);
            let s = timer_node_delete timer s;
            let periodic = (tm_periodic_time (timers s timer) > 0);
            callback \<leftarrow> tm_callback (timers s timer);
            (r, s) \<leftarrow> fire timer callback now s;
            let ret = (if r = INT_RESCHEDULE then INT_RESCHEDULE else ret);
            timer_tick_loop fire cpu now ret (timer_requeue cpu now periodic timer s) })"

definition timer_tick ::
    "('m \<Rightarrow> 'c \<Rightarrow> lk_time_t \<Rightarrow> ('m, 'c, 'x) timer_sys_scheme \<Rightarrow> (handler_return \<times> ('m, 'c, 'x) timer_sys_scheme) option)
     \<Rightarrow> nat \<Rightarrow> lk_time_t \<Rightarrow> ('m, 'c, 'x) timer_sys_scheme
     \<Rightarrow> (handler_return \<times> ('m, 'c, 'x) timer_sys_scheme) option" where
  "timer_tick fire cpu now s = do {
     (ret, s) \<leftarrow> timer_tick_loop fire cpu now INT_NO_RESCHEDULE s;
     case timer_queue s cpu of
       [] \<Rightarrow> Some (ret, s)
     | timer # _ \<Rightarrow> do {
         chk (TIME_GT (tm_scheduled_time (timers s timer)) now);
         let delay = tm_scheduled_time (timers s timer) - now;
         Some (ret, s\<lparr>hw_timer := (hw_timer s)(cpu := Some delay)\<rparr>) } }"

definition timer_init :: "('m, 'c, 'x) timer_sys_scheme \<Rightarrow> ('m, 'c, 'x) timer_sys_scheme" where
  "timer_init s = s\<lparr>timer_queue := (\<lambda>_. [])\<rparr>"

section \<open>Invariant\<close>

text \<open>
  A timer is linked exactly in the queue its node says, once, and only initialised timers with a
  callback are linked.
\<close>

definition timer_inv :: "('m, 'c, 'x) timer_sys_scheme \<Rightarrow> bool" where
  "timer_inv s \<longleftrightarrow>
     (\<forall>m c. m \<in> set (timer_queue s c) \<longleftrightarrow> tm_node (timers s m) = Some c) \<and>
     (\<forall>c. distinct (timer_queue s c)) \<and>
     (\<forall>m. tm_node (timers s m) \<noteq> None \<longrightarrow> tm_magic (timers s m) = TIMER_MAGIC \<and> tm_callback (timers s m) \<noteq> None)"

lemma timer_invD:
  assumes "timer_inv s"
  shows "m \<in> set (timer_queue s c) \<longleftrightarrow> tm_node (timers s m) = Some c"
    and "distinct (timer_queue s c)"
    and "tm_node (timers s m) = Some c \<Longrightarrow> tm_magic (timers s m) = TIMER_MAGIC"
    and "tm_node (timers s m) = Some c \<Longrightarrow> \<exists>cb. tm_callback (timers s m) = Some cb"
  using assms by (auto simp: timer_inv_def)

lemma set_insert_by_time [simp]: "set (insert_by_time f m xs) = insert m (set xs)"
  by (induction xs) auto

lemma distinct_insert_by_time [simp]:
  "distinct (insert_by_time f m xs) \<longleftrightarrow> m \<notin> set xs \<and> distinct xs"
  by (induction xs) auto

lemma insert_by_time_neq_Nil [simp]: "insert_by_time f m xs \<noteq> []"
  by (cases xs) auto

lemma timer_node_delete_inv:
  "timer_inv s \<Longrightarrow> timer_inv (timer_node_delete m s)"
  by (auto simp: timer_inv_def timer_node_delete_def set_remove1_distinct split: option.splits)

lemma timer_node_delete_simps [simp]:
  "tm_node (timers (timer_node_delete m s) m) = None"
  "x \<noteq> m \<Longrightarrow> timers (timer_node_delete m s) x = timers s x"
  "tm_magic (timers (timer_node_delete m s) x) = tm_magic (timers s x)"
  "tm_callback (timers (timer_node_delete m s) x) = tm_callback (timers s x)"
  "tm_scheduled_time (timers (timer_node_delete m s) x) = tm_scheduled_time (timers s x)"
  "tm_periodic_time (timers (timer_node_delete m s) x) = tm_periodic_time (timers s x)"
  "current_time (timer_node_delete m s) = current_time s"
  by (auto simp: timer_node_delete_def split: option.splits)

lemma timer_node_delete_node:
  "tm_node (timers (timer_node_delete m s) x) = (if x = m then None else tm_node (timers s x))"
  by (auto simp: timer_node_delete_def split: option.splits)

lemma timer_node_delete_queue:
  assumes "timer_inv s"
  shows "timer_queue (timer_node_delete m s) c = remove1 m (timer_queue s c)"
  using timer_invD(1) [OF assms, of m c]
  by (auto simp: timer_node_delete_def remove1_idem split: option.splits)

lemma insert_timer_in_queue_inv:
  assumes "timer_inv s" and "tm_node (timers s m) = None"
    and "tm_magic (timers s m) = TIMER_MAGIC" and "tm_callback (timers s m) \<noteq> None"
  shows "timer_inv (insert_timer_in_queue cpu m s)"
  using assms by (auto simp: timer_inv_def insert_timer_in_queue_def)

lemma timer_inv_frame:
  assumes "timer_inv s" and "timer_queue s' = timer_queue s"
    and "\<And>m. tm_node (timers s' m) = tm_node (timers s m)"
    and "\<And>m. tm_node (timers s m) \<noteq> None \<Longrightarrow>
           tm_magic (timers s' m) = tm_magic (timers s m)
           \<and> (tm_callback (timers s m) \<noteq> None \<longrightarrow> tm_callback (timers s' m) \<noteq> None)"
  shows "timer_inv s'"
  using assms by (auto simp: timer_inv_def)

lemma timer_initialize_inv:
  "timer_inv s \<Longrightarrow> tm_node (timers s m) = None \<Longrightarrow> timer_inv (timer_initialize m s)"
  by (erule timer_inv_frame) (auto simp: timer_initialize_def TIMER_INITIAL_VALUE_def)

text \<open>Setting an initialised timer that is not pending succeeds and links it on this cpu.\<close>

lemma timer_set_ok:
  assumes "timer_inv s" and "tm_magic (timers s m) = TIMER_MAGIC" and "tm_node (timers s m) = None"
  shows "\<exists>s'. timer_set m delay period cb cpu s = Some s' \<and> timer_inv s'
           \<and> tm_node (timers s' m) = Some cpu \<and> tm_callback (timers s' m) = Some cb
           \<and> tm_scheduled_time (timers s' m) = current_time s + delay
           \<and> tm_periodic_time (timers s' m) = period
           \<and> (\<forall>x. x \<noteq> m \<longrightarrow> timers s' x = timers s x)
           \<and> timer_sys.more s' = timer_sys.more s"
proof -
  define s1 where "s1 = s\<lparr>timers := (timers s)(m := (timers s m)\<lparr>
      tm_scheduled_time := current_time s + delay, tm_periodic_time := period,
      tm_callback := Some cb\<rparr>)\<rparr>"
  have "timer_inv s1"
    using assms(1) by (rule timer_inv_frame) (use assms in \<open>auto simp: s1_def timer_invD\<close>)
  then have "timer_inv (insert_timer_in_queue cpu m s1)"
    using assms by (intro insert_timer_in_queue_inv) (auto simp: s1_def)
  then have "timer_inv ((insert_timer_in_queue cpu m s1)\<lparr>hw_timer := h\<rparr>)" for h
    by (rule timer_inv_frame) simp_all
  then show ?thesis
    using assms \<open>timer_inv (insert_timer_in_queue cpu m s1)\<close>
    by (auto simp: timer_set_def s1_def [symmetric] Let_def)
      (auto simp: s1_def insert_timer_in_queue_def)
qed

lemma timer_cancel_ok:
  assumes "timer_inv s" and "tm_magic (timers s m) = TIMER_MAGIC"
  shows "\<exists>s'. timer_cancel m cpu s = Some s' \<and> timer_inv s'
           \<and> tm_node (timers s' m) = None \<and> tm_callback (timers s' m) = None
           \<and> tm_magic (timers s' m) = TIMER_MAGIC
           \<and> (\<forall>x. x \<noteq> m \<longrightarrow> timers s' x = timers s x)
           \<and> timer_sys.more s' = timer_sys.more s"
proof -
  let ?s1 = "timer_node_delete m s"
  let ?s2 = "?s1\<lparr>timers := (timers ?s1)(m := (timers ?s1 m)\<lparr>tm_periodic_time := 0, tm_callback := None\<rparr>)\<rparr>"
  have i: "timer_inv (?s2\<lparr>hw_timer := h\<rparr>)" for h
    using timer_node_delete_inv [OF assms(1), of m]
    by (rule timer_inv_frame) (auto simp: timer_node_delete_node timer_invD [OF assms(1)] dest: timer_invD(4) [OF assms(1)])
  have "?s2 = ?s2\<lparr>hw_timer := hw_timer ?s2\<rparr>" by simp
  then have "timer_inv ?s2" using i by metis
  moreover have "timer_sys.more ?s1 = timer_sys.more s"
    by (simp add: timer_node_delete_def split: option.splits)
  ultimately show ?thesis
    using i assms(2) by (auto simp: timer_cancel_def Let_def split: option.splits)
qed

section \<open>The queue is ordered by expiry\<close>

text \<open>
  Expiry times are compared modulo \<open>2 ^ 32\<close>, so an order exists among times that lie within
  \<open>2 ^ 31\<close> of a common base: \<open>expiry base s m\<close> is the distance of a timer's expiry from it.
\<close>

definition expiry :: "lk_time_t \<Rightarrow> ('m, 'c, 'x) timer_sys_scheme \<Rightarrow> 'm \<Rightarrow> nat" where
  "expiry base s m = unat (tm_scheduled_time (timers s m) - base)"

definition queue_sorted :: "lk_time_t \<Rightarrow> nat \<Rightarrow> ('m, 'c, 'x) timer_sys_scheme \<Rightarrow> bool" where
  "queue_sorted base cpu s \<longleftrightarrow>
     sorted (map (expiry base s) (timer_queue s cpu)) \<and>
     (\<forall>m \<in> set (timer_queue s cpu). expiry base s m < 2 ^ 31)"

lemma insert_by_time_sorted:
  assumes "sorted (map (\<lambda>m. unat (f m - base)) xs)"
    and "\<forall>x \<in> set (m # xs). unat (f x - base) < 2 ^ 31"
  shows "sorted (map (\<lambda>m. unat (f m - base)) (insert_by_time f m xs))"
  using assms
proof (induction xs)
  case (Cons e es)
  then show ?case by (auto simp: TIME_GT_window [where base = base])
qed simp

text \<open>A timer is placed after all that expire no later: those set first fire first.\<close>

lemma insert_by_time_stable:
  assumes "sorted (map (\<lambda>m. unat (f m - base)) xs)"
    and "\<forall>x \<in> set (m # xs). unat (f x - base) < 2 ^ 31"
  shows "\<exists>as bs. xs = as @ bs \<and> insert_by_time f m xs = as @ m # bs
           \<and> (\<forall>a \<in> set as. unat (f a - base) \<le> unat (f m - base))
           \<and> (\<forall>b \<in> set bs. unat (f m - base) < unat (f b - base))"
  using assms
proof (induction xs)
  case (Cons e es)
  show ?case
  proof (cases "TIME_GT (f e) (f m)")
    case True
    then have "unat (f m - base) < unat (f e - base)"
      using Cons.prems(2) by (simp add: TIME_GT_window [where base = base])
    then show ?thesis using True Cons.prems(1) by (intro exI [of _ "[]"] exI [of _ "e # es"]) auto
  next
    case False
    then have le: "unat (f e - base) \<le> unat (f m - base)"
      using Cons.prems(2) by (simp add: TIME_GT_window [where base = base])
    from Cons obtain as bs where "es = as @ bs" "insert_by_time f m es = as @ m # bs"
        "\<forall>a \<in> set as. unat (f a - base) \<le> unat (f m - base)"
        "\<forall>b \<in> set bs. unat (f m - base) < unat (f b - base)"
      by auto
    then show ?thesis using False le
      by (intro exI [of _ "e # as"] exI [of _ bs]) simp
  qed
qed simp

section \<open>Processing the due timers\<close>

text \<open>
  \<open>tick_window base now cpu s\<close>: the times the tick compares, the present included, lie in one window,
  and no period reaches past its end.
\<close>

definition tick_window :: "lk_time_t \<Rightarrow> lk_time_t \<Rightarrow> nat \<Rightarrow> ('m, 'c, 'x) timer_sys_scheme \<Rightarrow> bool" where
  "tick_window base now cpu s \<longleftrightarrow>
     unat (now - base) < 2 ^ 31 \<and> queue_sorted base cpu s \<and>
     (\<forall>m \<in> set (timer_queue s cpu). unat (now - base) + unat (tm_periodic_time (timers s m)) < 2 ^ 31)"

text \<open>How often a timer can still fire in this tick: a periodic one may come due twice.\<close>

definition due_weight :: "nat \<Rightarrow> nat \<Rightarrow> nat" where
  "due_weight n e = (if n < e then 0 else if n = e then 1 else 2)"

definition tick_weight :: "lk_time_t \<Rightarrow> lk_time_t \<Rightarrow> nat \<Rightarrow> ('m, 'c, 'x) timer_sys_scheme \<Rightarrow> nat" where
  "tick_weight base now cpu s =
     sum_list (map (\<lambda>m. due_weight (unat (now - base)) (expiry base s m)) (timer_queue s cpu))"

lemma due_iff:
  assumes "tick_window base now cpu s" and "m \<in> set (timer_queue s cpu)"
  shows "TIME_LT now (tm_scheduled_time (timers s m)) \<longleftrightarrow> unat (now - base) < expiry base s m"
    and "TIME_GT (tm_scheduled_time (timers s m)) now \<longleftrightarrow> unat (now - base) < expiry base s m"
  using assms TIME_LT_window [of now base] TIME_GT_window [of _ base now]
  by (auto simp: tick_window_def queue_sorted_def expiry_def)

lemma sum_list_insert_by_time:
  "sum_list (map g (insert_by_time f m xs)) = g m + sum_list (map g xs)" for g :: "'a \<Rightarrow> nat"
  by (induction xs) auto

lemma window_cong:
  assumes "timers s' = timers s" and "timer_queue s' = timer_queue s"
  shows "tick_window base now cpu s' = tick_window base now cpu s"
    and "tick_weight base now cpu s' = tick_weight base now cpu s"
    and "timer_inv s' = timer_inv s"
    and "expiry base s' = expiry base s"
proof -
  have e: "expiry base s' = expiry base s" by (simp add: expiry_def fun_eq_iff assms)
  then show "expiry base s' = expiry base s" .
  show "tick_window base now cpu s' = tick_window base now cpu s"
    and "tick_weight base now cpu s' = tick_weight base now cpu s"
    and "timer_inv s' = timer_inv s"
    by (simp_all add: tick_window_def tick_weight_def timer_inv_def queue_sorted_def e assms)
qed

lemma window_delete:
  assumes "timer_inv s" and "tick_window base now cpu s" and "timer_queue s cpu = m # rest"
  shows "timer_queue (timer_node_delete m s) cpu = rest"
    and "tick_window base now cpu (timer_node_delete m s)"
    and "expiry base (timer_node_delete m s) = expiry base s"
    and "tick_weight base now cpu s =
           due_weight (unat (now - base)) (expiry base s m) + tick_weight base now cpu (timer_node_delete m s)"
proof -
  have q: "timer_queue (timer_node_delete m s) cpu = rest"
    using timer_node_delete_queue [OF assms(1), of m cpu] assms(3) by simp
  have e: "expiry base (timer_node_delete m s) = expiry base s"
    by (simp add: expiry_def fun_eq_iff)
  show "timer_queue (timer_node_delete m s) cpu = rest" by (rule q)
  show "expiry base (timer_node_delete m s) = expiry base s" by (rule e)
  show "tick_window base now cpu (timer_node_delete m s)"
    using assms(2,3) by (auto simp: tick_window_def queue_sorted_def q e)
  show "tick_weight base now cpu s =
           due_weight (unat (now - base)) (expiry base s m) + tick_weight base now cpu (timer_node_delete m s)"
    by (simp add: tick_weight_def q e assms(3))
qed

text \<open>Linking a timer whose times fit the window keeps the order.\<close>

lemma window_insert:
  assumes "tick_window base now cpu s" and "expiry base s m < 2 ^ 31"
    and "unat (now - base) + unat (tm_periodic_time (timers s m)) < 2 ^ 31"
  shows "tick_window base now cpu (insert_timer_in_queue cpu m s)"
    and "tick_weight base now cpu (insert_timer_in_queue cpu m s) =
           due_weight (unat (now - base)) (expiry base s m) + tick_weight base now cpu s"
proof -
  let ?s = "insert_timer_in_queue cpu m s"
  have e: "expiry base ?s = expiry base s"
    by (auto simp: expiry_def insert_timer_in_queue_def fun_eq_iff)
  have q: "timer_queue ?s cpu = insert_by_time (\<lambda>m. tm_scheduled_time (timers s m)) m (timer_queue s cpu)"
    by (simp add: insert_timer_in_queue_def)
  have p: "tm_periodic_time (timers ?s x) = tm_periodic_time (timers s x)" for x
    by (simp add: insert_timer_in_queue_def)
  have "sorted (map (expiry base s) (timer_queue ?s cpu))"
    using insert_by_time_sorted [of "\<lambda>m. tm_scheduled_time (timers s m)" base "timer_queue s cpu" m] assms
    by (simp add: q tick_window_def queue_sorted_def expiry_def [abs_def])
  then show "tick_window base now cpu ?s"
    using assms by (auto simp: tick_window_def queue_sorted_def e p q)
  show "tick_weight base now cpu ?s =
           due_weight (unat (now - base)) (expiry base s m) + tick_weight base now cpu s"
    by (simp add: tick_weight_def e q sum_list_insert_by_time)
qed

text \<open>What the requeueing of a due timer does to the window and to the work left.\<close>

lemma window_requeue:
  assumes "timer_inv s" and "tick_window base now cpu s"
    and "tm_node (timers s m) = None" and "tm_magic (timers s m) = TIMER_MAGIC"
    and "tm_callback (timers s m) \<noteq> None"
    and due: "expiry base s m \<le> unat (now - base)"
    and per: "unat (now - base) + unat (tm_periodic_time (timers s m)) < 2 ^ 31"
  shows "timer_inv (timer_requeue cpu now p m s)"
    and "tick_window base now cpu (timer_requeue cpu now p m s)"
    and "tick_weight base now cpu (timer_requeue cpu now p m s)
           < due_weight (unat (now - base)) (expiry base s m) + tick_weight base now cpu s"
proof -
  let ?n = "unat (now - base)" and ?e = "expiry base s m" and ?p = "tm_periodic_time (timers s m)"
  have "timer_inv (timer_requeue cpu now p m s) \<and> tick_window base now cpu (timer_requeue cpu now p m s)
    \<and> tick_weight base now cpu (timer_requeue cpu now p m s) < due_weight ?n ?e + tick_weight base now cpu s"
  proof (cases "p \<and> ?p > 0")
    case False
    then have "timer_requeue cpu now p m s = s" by (auto simp: timer_requeue_def)
    moreover have "0 < due_weight ?n ?e" using due by (simp add: due_weight_def)
    ultimately show ?thesis using assms by simp
  next
    case True
    let ?a = "tm_scheduled_time (timers s m) + ?p"
    let ?t = "if TIME_LT ?a now then now + ?p else ?a"
    define s1 where "s1 = s\<lparr>timers := (timers s)(m := (timers s m)\<lparr>tm_scheduled_time := ?t\<rparr>)\<rparr>"
    have s1: "timer_queue s1 = timer_queue s"
        "tm_periodic_time (timers s1 x) = tm_periodic_time (timers s x)"
        "tm_node (timers s1 x) = tm_node (timers s x)"
        "tm_magic (timers s1 x) = tm_magic (timers s x)"
        "tm_callback (timers s1 x) = tm_callback (timers s x)" for x
      by (simp_all add: s1_def)
    have r: "timer_requeue cpu now p m s = insert_timer_in_queue cpu m s1"
      using True assms(3) by (simp add: timer_requeue_def Let_def s1_def)
    have a: "unat (?a - base) = ?e + unat ?p"
      using due per by (simp only: expiry_def) (rule unat_advance, linarith)
    have np: "unat (now + ?p - base) = ?n + unat ?p"
      using per by (rule unat_advance)
    have pos: "0 < unat ?p" using True by (simp add: unat_gt_0 word_gt_0)
    have "TIME_LT ?a now \<longleftrightarrow> ?e + unat ?p < ?n"
      using TIME_LT_window [of ?a base now] a due per by simp
    then have t: "unat (?t - base) = (if ?e + unat ?p < ?n then ?n + unat ?p else ?e + unat ?p)"
      by (simp only: a np if_distrib [of "\<lambda>x. unat (x - base)"])
    have e1: "expiry base s1 m = unat (?t - base)" by (simp add: expiry_def s1_def)
    have m: "m \<notin> set (timer_queue s cpu)" using timer_invD(1) [OF assms(1)] assms(3) by simp
    have eo: "expiry base s1 x = expiry base s x" if "x \<in> set (timer_queue s cpu)" for x
      using m that by (auto simp: expiry_def s1_def)
    have mo: "map (expiry base s1) (timer_queue s cpu) = map (expiry base s) (timer_queue s cpu)"
      using eo by simp
    have i1: "timer_inv s1" using assms(1) by (rule timer_inv_frame) (simp_all add: s1)
    have w1: "tick_window base now cpu s1"
      using assms(2) by (simp add: tick_window_def queue_sorted_def s1 mo eo)
    have k1: "tick_weight base now cpu s1 = tick_weight base now cpu s"
      using eo by (auto simp: tick_weight_def s1 intro!: arg_cong [where f = sum_list])
    have b1: "expiry base s1 m < 2 ^ 31"
      unfolding e1 t using due per by (cases "?e + unat ?p < ?n") simp_all
    have "due_weight ?n (expiry base s1 m) < due_weight ?n ?e"
      unfolding e1 t due_weight_def using due pos by (cases "?e + unat ?p < ?n") simp_all
    then show ?thesis
      using window_insert [OF w1 b1] insert_timer_in_queue_inv [OF i1, of m cpu] assms per r k1
      by (simp add: s1)
  qed
  then show "timer_inv (timer_requeue cpu now p m s)"
    and "tick_window base now cpu (timer_requeue cpu now p m s)"
    and "tick_weight base now cpu (timer_requeue cpu now p m s)
           < due_weight ?n ?e + tick_weight base now cpu s" by blast+
qed

text \<open>
  The contract between the tick and the callbacks it runs: a callback of a linked timer runs to its
  end, leaves the timers as they are, and keeps the client's own invariant \<open>I\<close>.
\<close>

locale timer_client =
  fixes fire :: "'m \<Rightarrow> 'c \<Rightarrow> lk_time_t \<Rightarrow> ('m, 'c, 'x) timer_sys_scheme \<Rightarrow>
                   (handler_return \<times> ('m, 'c, 'x) timer_sys_scheme) option"
    and I :: "nat \<Rightarrow> ('m, 'c, 'x) timer_sys_scheme \<Rightarrow> bool"
  assumes fire_ok: "I cpu s \<Longrightarrow> timer_inv s \<Longrightarrow> m \<in> set (timer_queue s cpu) \<Longrightarrow>
        tm_callback (timers s m) = Some cb \<Longrightarrow>
        \<exists>r s'. fire m cb now (timer_node_delete m s) = Some (r, s')
          \<and> timers s' = timers (timer_node_delete m s)
          \<and> timer_queue s' = timer_queue (timer_node_delete m s)
          \<and> I cpu (timer_requeue cpu now (tm_periodic_time (timers s m) > 0) m s')"
    and I_hw: "I cpu s \<Longrightarrow> I cpu (s\<lparr>hw_timer := h\<rparr>)"
begin

lemma tick_loop_ok:
  assumes "I cpu s" and "timer_inv s" and "tick_window base now cpu s"
  shows "\<exists>ret' s'. timer_tick_loop fire cpu now ret s = Some (ret', s') \<and> I cpu s' \<and> timer_inv s'
           \<and> tick_window base now cpu s'
           \<and> (\<forall>m \<in> set (timer_queue s' cpu). unat (now - base) < expiry base s' m)"
  using assms
proof (induction "tick_weight base now cpu s" arbitrary: s ret rule: less_induct)
  case less
  show ?case
  proof (cases "timer_queue s cpu")
    case Nil
    then show ?thesis using less.prems by (subst timer_tick_loop.simps) simp
  next
    case (Cons m rest)
    then have mq: "m \<in> set (timer_queue s cpu)" by simp
    note due = due_iff [OF less.prems(3) mq]
    show ?thesis
    proof (cases "unat (now - base) < expiry base s m")
      case True
      then have "\<forall>x \<in> set (timer_queue s cpu). unat (now - base) < expiry base s x"
        using less.prems(3) Cons by (auto simp: tick_window_def queue_sorted_def)
      then show ?thesis
        using less.prems Cons True due by (subst timer_tick_loop.simps) simp
    next
      case False
      obtain cb where cb: "tm_callback (timers s m) = Some cb" and mg: "tm_magic (timers s m) = TIMER_MAGIC"
        using timer_invD [OF less.prems(2)] mq by blast
      obtain r s' where f: "fire m cb now (timer_node_delete m s) = Some (r, s')"
          and tm: "timers s' = timers (timer_node_delete m s)"
          and tq: "timer_queue s' = timer_queue (timer_node_delete m s)"
          and I': "I cpu (timer_requeue cpu now (tm_periodic_time (timers s m) > 0) m s')"
        using fire_ok [OF less.prems(1,2) mq cb, of now] by blast
      let ?s'' = "timer_requeue cpu now (tm_periodic_time (timers s m) > 0) m s'"
      have step: "timer_tick_loop fire cpu now ret s =
          timer_tick_loop fire cpu now (if r = INT_RESCHEDULE then INT_RESCHEDULE else ret) ?s''"
        using Cons False due cb mg f by (subst timer_tick_loop.simps) (simp add: Let_def)
      note cong = window_cong [OF tm tq]
      note del = window_delete [OF less.prems(2,3) Cons]
      have per: "unat (now - base) + unat (tm_periodic_time (timers s m)) < 2 ^ 31"
        using less.prems(3) mq by (simp add: tick_window_def)
      have pre: "timer_inv s'" "tick_window base now cpu s'" "tm_node (timers s' m) = None"
          "tm_magic (timers s' m) = TIMER_MAGIC" "tm_callback (timers s' m) \<noteq> None"
          "expiry base s' m \<le> unat (now - base)"
          "unat (now - base) + unat (tm_periodic_time (timers s' m)) < 2 ^ 31"
        using cong(1,3,4) del(2,3) timer_node_delete_inv [OF less.prems(2)] False cb mg per
        by (simp_all add: tm)
      note rq = window_requeue [OF pre, where p = "tm_periodic_time (timers s m) > 0"]
      have "tick_weight base now cpu ?s'' < tick_weight base now cpu s"
        using rq(3) cong(2,4) del(3,4) by simp
      from less.hyps [OF this I' rq(1,2)] show ?thesis unfolding step by blast
    qed
  qed
qed

lemma tick_ok:
  assumes "I cpu s" and "timer_inv s" and "tick_window base now cpu s"
  shows "\<exists>ret s'. timer_tick fire cpu now s = Some (ret, s') \<and> I cpu s' \<and> timer_inv s'
           \<and> (\<forall>m \<in> set (timer_queue s' cpu). TIME_LT now (tm_scheduled_time (timers s' m)))
           \<and> (timer_queue s' cpu \<noteq> [] \<longrightarrow>
                hw_timer s' cpu = Some (tm_scheduled_time (timers s' (hd (timer_queue s' cpu))) - now))"
proof -
  obtain ret s1 where l: "timer_tick_loop fire cpu now INT_NO_RESCHEDULE s = Some (ret, s1)"
      and s1: "I cpu s1" "timer_inv s1" "tick_window base now cpu s1"
        "\<forall>m \<in> set (timer_queue s1 cpu). unat (now - base) < expiry base s1 m"
    using tick_loop_ok [OF assms] by blast
  have lt: "\<forall>m \<in> set (timer_queue s1 cpu). TIME_LT now (tm_scheduled_time (timers s1 m))"
    and gt: "\<forall>m \<in> set (timer_queue s1 cpu). TIME_GT (tm_scheduled_time (timers s1 m)) now"
    using s1(4) by (simp_all add: due_iff [OF s1(3)])
  show ?thesis
  proof (cases "timer_queue s1 cpu")
    case Nil
    then show ?thesis using l s1 by (simp add: timer_tick_def)
  next
    case (Cons m rest)
    then show ?thesis using l s1 lt gt I_hw
      by (simp add: timer_tick_def Let_def timer_inv_def)
  qed
qed

end

end
