(* ===== verification/Thread.thy ===== *)
theory Thread
  imports Prelude Pow2 Timer
begin

text \<open>
  The threading core, \<^verbatim>\<open>kernel/thread.c\<close> and \<^verbatim>\<open>kernel/mp.c\<close>: threads, run queues, the scheduler,
  and wait queues, for an SMP build with a dynamic timer. The state extends that of the timers.

  A critical section under \<^verbatim>\<open>thread_lock\<close> is one definition on the whole state; the cpu it runs on is
  an argument (\<^verbatim>\<open>arch_curr_cpu_num()\<close>). The assertions that interrupts are off and the lock is held
  are therefore not modelled; all other \<^verbatim>\<open>DEBUG_ASSERT\<close>s are. Where the caller gives up the cpu in
  the middle of a function, the function is two definitions: what runs before the switch, and a
  \<open>_resume\<close> part that runs when the thread is current again.

  The intrusive \<^verbatim>\<open>queue_node\<close> of a thread is \<open>t_queue_node\<close>: the queue the thread is linked in, if
  any. Run queues and wait queues are lists of threads, which \<open>List_Node\<close> shows the linked lists of
  \<^verbatim>\<open>list.h\<close> to implement. An index outside \<^verbatim>\<open>run_queue[]\<close> is \<^term>\<open>None\<close>. Thread statistics, the
  contents of stacks and the machine context switch are not modelled.
\<close>

unbundle bit_operations_syntax

section \<open>Data\<close>

datatype thread_state =
  THREAD_SUSPENDED | THREAD_READY | THREAD_RUNNING | THREAD_BLOCKED | THREAD_SLEEPING | THREAD_DEATH

text \<open>A thread is one of the statically allocated idle threads or a thread of its own.\<close>

datatype tid = IdleThread nat | Thread nat

text \<open>
  A wait queue is embedded in another object: in a thread, for those that join it, in a mutex, a
  semaphore or an event; or it stands by itself.
\<close>

datatype wqref = RetcodeWQ tid | MutexWQ nat | SemWQ nat | EventWQ nat | WQ nat

datatype queue_ref = RunQ nat | WaitQ wqref

datatype timer_ref = PreemptTimer nat | StackTimer tid

datatype timer_cb =
  CB_thread_timer_tick | CB_thread_sleep_handler tid | CB_wait_queue_timeout_handler tid

datatype heap_obj = ThreadStruct tid | ThreadStack nat

abbreviation (input) THREAD_MAGIC :: int where "THREAD_MAGIC \<equiv> 0x74687264"
abbreviation (input) WAIT_QUEUE_MAGIC :: int where "WAIT_QUEUE_MAGIC \<equiv> 0x77616974"

abbreviation (input) THREAD_FLAG_DETACHED :: u32 where "THREAD_FLAG_DETACHED \<equiv> 1"
abbreviation (input) THREAD_FLAG_FREE_STACK :: u32 where "THREAD_FLAG_FREE_STACK \<equiv> 2"
abbreviation (input) THREAD_FLAG_FREE_STRUCT :: u32 where "THREAD_FLAG_FREE_STRUCT \<equiv> 4"
abbreviation (input) THREAD_FLAG_REAL_TIME :: u32 where "THREAD_FLAG_REAL_TIME \<equiv> 8"
abbreviation (input) THREAD_FLAG_IDLE :: u32 where "THREAD_FLAG_IDLE \<equiv> 16"
abbreviation (input) THREAD_FLAG_DEBUG_STACK_BOUNDS_CHECK :: u32 where
  "THREAD_FLAG_DEBUG_STACK_BOUNDS_CHECK \<equiv> 32"

abbreviation (input) NUM_PRIORITIES :: int where "NUM_PRIORITIES \<equiv> 32"
abbreviation (input) HIGHEST_PRIORITY :: int where "HIGHEST_PRIORITY \<equiv> 31"
abbreviation (input) IDLE_PRIORITY :: int where "IDLE_PRIORITY \<equiv> 0"
abbreviation (input) DEFAULT_PRIORITY :: int where "DEFAULT_PRIORITY \<equiv> 16"

record thread =
  t_magic :: int
  t_queue_node :: "queue_ref option"
  t_priority :: int
  t_state :: thread_state
  t_remaining_quantum :: int
  t_flags :: u32
  t_curr_cpu :: int
  t_pinned_cpu :: int
  t_aspace :: "nat option"
  t_blocking_wait_queue :: "wqref option"
  t_wait_queue_block_ret :: status_t
  t_stack :: "nat option"
  t_stack_size :: nat
  t_entry :: nat
  t_arg :: nat
  t_retcode :: int
  t_tls :: "nat \<Rightarrow> nat"
  t_name :: string

record wait_queue =
  wq_magic :: int
  wq_list :: "tid list"
  wq_count :: int

record kernel = "(timer_ref, timer_cb) timer_sys" +
  threads :: "tid \<Rightarrow> thread"
  thread_list :: "tid list"
  run_queue :: "nat \<Rightarrow> tid list"
  run_queue_bitmap :: u32
  current_thread :: "nat \<Rightarrow> tid option"
  wait_queues :: "wqref \<Rightarrow> wait_queue"
  active_cpus :: u32
  idle_cpus :: u32
  realtime_cpus :: u32
  ipis :: "u32 list"
  cpu_aspace :: "nat \<Rightarrow> nat option"
  heap_freed :: "heap_obj list"

definition upd_thread :: "tid \<Rightarrow> (thread \<Rightarrow> thread) \<Rightarrow> 'x kernel_scheme \<Rightarrow> 'x kernel_scheme" where
  "upd_thread t f s = s\<lparr>threads := (threads s)(t := f (threads s t))\<rparr>"

definition upd_wq :: "wqref \<Rightarrow> (wait_queue \<Rightarrow> wait_queue) \<Rightarrow> 'x kernel_scheme \<Rightarrow> 'x kernel_scheme" where
  "upd_wq w f s = s\<lparr>wait_queues := (wait_queues s)(w := f (wait_queues s w))\<rparr>"

section \<open>Other cpus\<close>

text \<open>
  \<^verbatim>\<open>kernel/mp.c\<close>. An inter-processor interrupt is recorded with its target mask, latest first.
\<close>

definition mp_reschedule :: "u32 \<Rightarrow> u32 \<Rightarrow> nat \<Rightarrow> 'x kernel_scheme \<Rightarrow> 'x kernel_scheme" where
  "mp_reschedule target flags cpu s =
     (let target = target AND active_cpus s;
          target = (if flags AND 1 = 0 then target AND NOT (realtime_cpus s) else target);
          target = target AND NOT (push_bit cpu 1)
      in if target = 0 then s else s\<lparr>ipis := target # ipis s\<rparr>)"

definition mp_is_cpu_active :: "nat \<Rightarrow> 'x kernel_scheme \<Rightarrow> bool" where
  "mp_is_cpu_active cpu s \<longleftrightarrow> active_cpus s AND push_bit cpu 1 \<noteq> 0"

definition mp_is_cpu_idle :: "nat \<Rightarrow> 'x kernel_scheme \<Rightarrow> bool" where
  "mp_is_cpu_idle cpu s \<longleftrightarrow> idle_cpus s AND push_bit cpu 1 \<noteq> 0"

text \<open>The argument of \<^verbatim>\<open>mp_set_curr_cpu_active\<close> is not read.\<close>

definition mp_set_curr_cpu_active :: "nat \<Rightarrow> 'x kernel_scheme \<Rightarrow> 'x kernel_scheme" where
  "mp_set_curr_cpu_active cpu s = s\<lparr>active_cpus := active_cpus s OR push_bit cpu 1\<rparr>"

definition mp_mbx_reschedule_irq :: "nat \<Rightarrow> 'x kernel_scheme \<Rightarrow> handler_return" where
  "mp_mbx_reschedule_irq cpu s =
     (if active_cpus s AND push_bit cpu 1 \<noteq> 0 then INT_RESCHEDULE else INT_NO_RESCHEDULE)"

definition mp_set_cpu_idle :: "nat \<Rightarrow> 'x kernel_scheme \<Rightarrow> 'x kernel_scheme" where
  "mp_set_cpu_idle cpu s = s\<lparr>idle_cpus := idle_cpus s OR push_bit cpu 1\<rparr>"

definition mp_set_cpu_busy :: "nat \<Rightarrow> 'x kernel_scheme \<Rightarrow> 'x kernel_scheme" where
  "mp_set_cpu_busy cpu s = s\<lparr>idle_cpus := idle_cpus s AND NOT (push_bit cpu 1)\<rparr>"

definition mp_set_cpu_realtime :: "nat \<Rightarrow> 'x kernel_scheme \<Rightarrow> 'x kernel_scheme" where
  "mp_set_cpu_realtime cpu s = s\<lparr>realtime_cpus := realtime_cpus s OR push_bit cpu 1\<rparr>"

definition mp_set_cpu_non_realtime :: "nat \<Rightarrow> 'x kernel_scheme \<Rightarrow> 'x kernel_scheme" where
  "mp_set_cpu_non_realtime cpu s = s\<lparr>realtime_cpus := realtime_cpus s AND NOT (push_bit cpu 1)\<rparr>"

section \<open>Run queues\<close>

definition insert_in_run_queue_head :: "tid \<Rightarrow> 'x kernel_scheme \<Rightarrow> 'x kernel_scheme option" where
  "insert_in_run_queue_head t s = do {
     chk (t_magic (threads s t) = THREAD_MAGIC);
     chk (t_state (threads s t) = THREAD_READY);
     chk (t_queue_node (threads s t) = None);
     chk (0 \<le> t_priority (threads s t) \<and> t_priority (threads s t) < NUM_PRIORITIES);
     let p = nat (t_priority (threads s t));
     let s = upd_thread t (\<lambda>th. th\<lparr>t_queue_node := Some (RunQ p)\<rparr>) s;
     Some (s\<lparr>run_queue := (run_queue s)(p := t # run_queue s p),
             run_queue_bitmap := run_queue_bitmap s OR push_bit p 1\<rparr>) }"

definition insert_in_run_queue_tail :: "tid \<Rightarrow> 'x kernel_scheme \<Rightarrow> 'x kernel_scheme option" where
  "insert_in_run_queue_tail t s = do {
     chk (t_magic (threads s t) = THREAD_MAGIC);
     chk (t_state (threads s t) = THREAD_READY);
     chk (t_queue_node (threads s t) = None);
     chk (0 \<le> t_priority (threads s t) \<and> t_priority (threads s t) < NUM_PRIORITIES);
     let p = nat (t_priority (threads s t));
     let s = upd_thread t (\<lambda>th. th\<lparr>t_queue_node := Some (RunQ p)\<rparr>) s;
     Some (s\<lparr>run_queue := (run_queue s)(p := run_queue s p @ [t]),
             run_queue_bitmap := run_queue_bitmap s OR push_bit p 1\<rparr>) }"

definition wakeup_cpu_for_thread :: "tid \<Rightarrow> nat \<Rightarrow> 'x kernel_scheme \<Rightarrow> 'x kernel_scheme" where
  "wakeup_cpu_for_thread t cpu s =
     (let pinned_cpu = t_pinned_cpu (threads s t)
      in if pinned_cpu < 0 then mp_reschedule (- 1) 0 cpu s
         else mp_reschedule (push_bit (nat pinned_cpu) 1) 0 cpu s)"

section \<open>Flags\<close>

definition thread_is_realtime :: "thread \<Rightarrow> bool" where
  "thread_is_realtime t \<longleftrightarrow> t_flags t AND THREAD_FLAG_REAL_TIME \<noteq> 0 \<and> t_priority t > DEFAULT_PRIORITY"

definition thread_is_idle :: "thread \<Rightarrow> bool" where
  "thread_is_idle t \<longleftrightarrow> t_flags t AND THREAD_FLAG_IDLE \<noteq> 0"

definition thread_is_real_time_or_idle :: "thread \<Rightarrow> bool" where
  "thread_is_real_time_or_idle t \<longleftrightarrow> t_flags t AND (THREAD_FLAG_REAL_TIME OR THREAD_FLAG_IDLE) \<noteq> 0"

section \<open>Choosing and switching to the next thread\<close>

text \<open>
  The loop of \<^verbatim>\<open>get_top_thread\<close> over the local copy of the bitmap: the first thread that may run on
  this cpu, in the highest non-empty queue that has one.
\<close>

lemma clear_top_bit_less:
  assumes "bm \<noteq> 0"
  shows "unat (bm AND NOT (push_bit (31 - builtin_clz bm) 1)) < unat bm"
proof -
  let ?k = "log2_uint bm"
  have k: "31 - builtin_clz bm = ?k" using assms by (simp add: log2_uint_def)
  have "unat (bm AND NOT (push_bit ?k 1)) < 2 ^ ?k"
  proof (rule unat_less_power_bits)
    fix i assume "bit (bm AND NOT (push_bit ?k 1)) i"
    then have "bit bm i" "i \<noteq> ?k"
      using log2_uint_spec(2) [OF assms] by (auto simp: bit_simps)
    then show "i < ?k" using log2_uint_spec(3) [OF assms, of i] by simp
  qed
  then show ?thesis using log2_uint_bounds [OF assms] k by simp
qed

function get_top_loop :: "(tid \<Rightarrow> bool) \<Rightarrow> (nat \<Rightarrow> tid list) \<Rightarrow> u32 \<Rightarrow> (nat \<times> tid) option" where
  "get_top_loop may_run queues bm =
     (if bm = 0 then None
      else let next_queue = 31 - builtin_clz bm
           in case find may_run (queues next_queue) of
                Some newthread \<Rightarrow> Some (next_queue, newthread)
              | None \<Rightarrow> get_top_loop may_run queues (bm AND NOT (push_bit next_queue 1)))"
  by pat_completeness auto
termination
  by (relation "measure (\<lambda>(_, _, bm). unat bm)") (use clear_top_bit_less in simp_all)

declare get_top_loop.simps [simp del]

definition get_top_thread :: "nat \<Rightarrow> 'x kernel_scheme \<Rightarrow> tid \<times> 'x kernel_scheme" where
  "get_top_thread cpu s =
     (case get_top_loop (\<lambda>t. t_pinned_cpu (threads s t) < 0 \<or> t_pinned_cpu (threads s t) = int cpu)
             (run_queue s) (run_queue_bitmap s) of
        None \<Rightarrow> (IdleThread cpu, s)
      | Some (next_queue, newthread) \<Rightarrow>
          (let s = upd_thread newthread (\<lambda>th. th\<lparr>t_queue_node := None\<rparr>) s;
               s = s\<lparr>run_queue := (run_queue s)(next_queue := remove1 newthread (run_queue s next_queue))\<rparr>;
               s = (if run_queue s next_queue = []
                    then s\<lparr>run_queue_bitmap := run_queue_bitmap s AND NOT (push_bit next_queue 1)\<rparr>
                    else s)
           in (newthread, s)))"

definition switch_preempt_timer :: "tid \<Rightarrow> tid \<Rightarrow> nat \<Rightarrow> 'x kernel_scheme \<Rightarrow> 'x kernel_scheme option" where
  "switch_preempt_timer oldthread newthread cpu s =
     (if thread_is_real_time_or_idle (threads s newthread) then
        (if \<not> thread_is_real_time_or_idle (threads s oldthread)
         then timer_cancel (PreemptTimer cpu) cpu s else Some s)
      else if thread_is_real_time_or_idle (threads s oldthread)
      then timer_set_periodic (PreemptTimer cpu) 10 CB_thread_timer_tick cpu s
      else Some s)"

definition thread_resched :: "nat \<Rightarrow> 'x kernel_scheme \<Rightarrow> 'x kernel_scheme option" where
  "thread_resched cpu s = do {
     oldthread \<leftarrow> current_thread s cpu;
     chk (t_state (threads s oldthread) \<noteq> THREAD_RUNNING);
     let (newthread, s) = get_top_thread cpu s;
     let s = upd_thread newthread (\<lambda>th. th\<lparr>t_state := THREAD_RUNNING\<rparr>) s;
     if newthread = oldthread then Some s
     else do {
       let s = (if t_remaining_quantum (threads s newthread) \<le> 0
                then upd_thread newthread (\<lambda>th. th\<lparr>t_remaining_quantum := 5\<rparr>) s else s);
       let s = upd_thread oldthread (\<lambda>th. th\<lparr>t_curr_cpu := - 1\<rparr>) s;
       let s = upd_thread newthread (\<lambda>th. th\<lparr>t_curr_cpu := int cpu\<rparr>) s;
       let s = (if thread_is_idle (threads s newthread) then mp_set_cpu_idle cpu s
                else mp_set_cpu_busy cpu s);
       let s = (if thread_is_realtime (threads s newthread) then mp_set_cpu_realtime cpu s
                else mp_set_cpu_non_realtime cpu s);
       s \<leftarrow> switch_preempt_timer oldthread newthread cpu s;
       let s = s\<lparr>current_thread := (current_thread s)(cpu \<mapsto> newthread)\<rparr>;
       if t_aspace (threads s newthread) \<noteq> t_aspace (threads s oldthread)
       then Some (s\<lparr>cpu_aspace := (cpu_aspace s)(cpu := t_aspace (threads s newthread))\<rparr>)
       else Some s } }"

definition thread_yield :: "nat \<Rightarrow> 'x kernel_scheme \<Rightarrow> 'x kernel_scheme option" where
  "thread_yield cpu s = do {
     ct \<leftarrow> current_thread s cpu;
     chk (t_magic (threads s ct) = THREAD_MAGIC);
     chk (t_state (threads s ct) = THREAD_RUNNING);
     let s = upd_thread ct (\<lambda>th. th\<lparr>t_state := THREAD_READY, t_remaining_quantum := 0\<rparr>) s;
     s \<leftarrow> (if \<not> thread_is_idle (threads s ct) then insert_in_run_queue_tail ct s else Some s);
     thread_resched cpu s }"

definition thread_preempt :: "nat \<Rightarrow> 'x kernel_scheme \<Rightarrow> 'x kernel_scheme option" where
  "thread_preempt cpu s = do {
     ct \<leftarrow> current_thread s cpu;
     chk (t_magic (threads s ct) = THREAD_MAGIC);
     chk (t_state (threads s ct) = THREAD_RUNNING);
     let s = upd_thread ct (\<lambda>th. th\<lparr>t_state := THREAD_READY\<rparr>) s;
     s \<leftarrow> (if \<not> thread_is_idle (threads s ct) then
             (if t_remaining_quantum (threads s ct) > 0 then insert_in_run_queue_head ct s
              else insert_in_run_queue_tail ct s)
           else Some s);
     thread_resched cpu s }"

definition thread_block :: "nat \<Rightarrow> 'x kernel_scheme \<Rightarrow> 'x kernel_scheme option" where
  "thread_block cpu s = do {
     ct \<leftarrow> current_thread s cpu;
     chk (t_magic (threads s ct) = THREAD_MAGIC);
     chk (t_state (threads s ct) = THREAD_BLOCKED);
     chk (\<not> thread_is_idle (threads s ct));
     thread_resched cpu s }"

definition thread_unblock :: "tid \<Rightarrow> bool \<Rightarrow> nat \<Rightarrow> 'x kernel_scheme \<Rightarrow> 'x kernel_scheme option" where
  "thread_unblock t resched cpu s = do {
     chk (t_magic (threads s t) = THREAD_MAGIC);
     chk (t_state (threads s t) = THREAD_BLOCKED);
     chk (\<not> thread_is_idle (threads s t));
     let s = upd_thread t (\<lambda>th. th\<lparr>t_state := THREAD_READY\<rparr>) s;
     s \<leftarrow> insert_in_run_queue_head t s;
     let s = wakeup_cpu_for_thread t cpu s;
     if resched then thread_resched cpu s else Some s }"

section \<open>Wait queues\<close>

definition WAIT_QUEUE_INITIAL_VALUE :: wait_queue where
  "WAIT_QUEUE_INITIAL_VALUE = \<lparr>wq_magic = WAIT_QUEUE_MAGIC, wq_list = [], wq_count = 0\<rparr>"

definition wait_queue_init :: "wqref \<Rightarrow> 'x kernel_scheme \<Rightarrow> 'x kernel_scheme" where
  "wait_queue_init w s = upd_wq w (\<lambda>_. WAIT_QUEUE_INITIAL_VALUE) s"

text \<open>
  A blocking call either returns at once or gives up the cpu; in the second case the rest of it is
  the \<open>_resume\<close> part.
\<close>

datatype 'a outcome = Returns 'a | Switches

definition wait_queue_block :: "wqref \<Rightarrow> lk_time_t \<Rightarrow> nat \<Rightarrow> 'x kernel_scheme \<Rightarrow>
    (status_t outcome \<times> 'x kernel_scheme) option" where
  "wait_queue_block w timeout cpu s = do {
     ct \<leftarrow> current_thread s cpu;
     chk (wq_magic (wait_queues s w) = WAIT_QUEUE_MAGIC);
     chk (t_state (threads s ct) = THREAD_RUNNING);
     if timeout = 0 then Some (Returns ERR_TIMED_OUT, s)
     else do {
       let s = upd_wq w (\<lambda>q. q\<lparr>wq_list := wq_list q @ [ct], wq_count := wq_count q + 1\<rparr>) s;
       let s = upd_thread ct (\<lambda>th. th\<lparr>t_queue_node := Some (WaitQ w), t_state := THREAD_BLOCKED,
                 t_blocking_wait_queue := Some w, t_wait_queue_block_ret := NO_ERROR\<rparr>) s;
       s \<leftarrow> (if timeout \<noteq> INFINITE_TIME
             then timer_set_oneshot (StackTimer ct) timeout (CB_wait_queue_timeout_handler ct) cpu
                    (timer_initialize (StackTimer ct) s)
             else Some s);
       s \<leftarrow> thread_resched cpu s;
       Some (Switches, s) } }"

definition wait_queue_block_resume :: "lk_time_t \<Rightarrow> nat \<Rightarrow> 'x kernel_scheme \<Rightarrow>
    (status_t \<times> 'x kernel_scheme) option" where
  "wait_queue_block_resume timeout cpu s = do {
     ct \<leftarrow> current_thread s cpu;
     s \<leftarrow> (if timeout \<noteq> INFINITE_TIME then timer_cancel (StackTimer ct) cpu s else Some s);
     Some (t_wait_queue_block_ret (threads s ct), s) }"

definition wait_queue_wake_one :: "wqref \<Rightarrow> bool \<Rightarrow> status_t \<Rightarrow> nat \<Rightarrow> 'x kernel_scheme \<Rightarrow>
    (int \<times> 'x kernel_scheme) option" where
  "wait_queue_wake_one w reschedule wait_queue_error cpu s = do {
     ct \<leftarrow> current_thread s cpu;
     chk (wq_magic (wait_queues s w) = WAIT_QUEUE_MAGIC);
     case wq_list (wait_queues s w) of
       [] \<Rightarrow> Some (0, s)
     | t # rest \<Rightarrow> do {
         let s = upd_wq w (\<lambda>q. q\<lparr>wq_list := rest, wq_count := wq_count q - 1\<rparr>) s;
         chk (t_state (threads s t) = THREAD_BLOCKED);
         let s = upd_thread t (\<lambda>th. th\<lparr>t_queue_node := None, t_state := THREAD_READY,
                   t_wait_queue_block_ret := wait_queue_error, t_blocking_wait_queue := None\<rparr>) s;
         s \<leftarrow> (if reschedule
               then insert_in_run_queue_head ct (upd_thread ct (\<lambda>th. th\<lparr>t_state := THREAD_READY\<rparr>) s)
               else Some s);
         s \<leftarrow> insert_in_run_queue_head t s;
         let s = wakeup_cpu_for_thread t cpu s;
         s \<leftarrow> (if reschedule then thread_resched cpu s else Some s);
         Some (1, s) } }"

text \<open>The loop that empties the wait queue, with the cpu mask and the count it accumulates.\<close>

fun wake_all_loop :: "wqref \<Rightarrow> status_t \<Rightarrow> tid list \<Rightarrow> u32 \<Rightarrow> int \<Rightarrow> 'x kernel_scheme \<Rightarrow>
    (u32 \<times> int \<times> 'x kernel_scheme) option" where
  "wake_all_loop w err [] cpu_mask ret s = Some (cpu_mask, ret, s)"
| "wake_all_loop w err (t # rest) cpu_mask ret s = do {
     let s = upd_wq w (\<lambda>q. q\<lparr>wq_list := rest, wq_count := wq_count q - 1\<rparr>) s;
     chk (t_state (threads s t) = THREAD_BLOCKED);
     let s = upd_thread t (\<lambda>th. th\<lparr>t_queue_node := None, t_state := THREAD_READY,
               t_wait_queue_block_ret := err, t_blocking_wait_queue := None\<rparr>) s;
     let pinned_cpu = t_pinned_cpu (threads s t);
     let cpu_mask = (if pinned_cpu < 0 then - 1 else cpu_mask OR push_bit (nat pinned_cpu) 1);
     s \<leftarrow> insert_in_run_queue_head t s;
     wake_all_loop w err rest cpu_mask (ret + 1) s }"

definition wait_queue_wake_all :: "wqref \<Rightarrow> bool \<Rightarrow> status_t \<Rightarrow> nat \<Rightarrow> 'x kernel_scheme \<Rightarrow>
    (int \<times> 'x kernel_scheme) option" where
  "wait_queue_wake_all w reschedule wait_queue_error cpu s = do {
     ct \<leftarrow> current_thread s cpu;
     chk (wq_magic (wait_queues s w) = WAIT_QUEUE_MAGIC);
     s \<leftarrow> (if reschedule \<and> wq_count (wait_queues s w) > 0
           then insert_in_run_queue_head ct (upd_thread ct (\<lambda>th. th\<lparr>t_state := THREAD_READY\<rparr>) s)
           else Some s);
     (cpu_mask, ret, s) \<leftarrow> wake_all_loop w wait_queue_error (wq_list (wait_queues s w)) 0 0 s;
     chk (wq_count (wait_queues s w) = 0);
     if ret > 0 then do {
       let s = mp_reschedule cpu_mask 0 cpu s;
       s \<leftarrow> (if reschedule then thread_resched cpu s else Some s);
       Some (ret, s) }
     else Some (ret, s) }"

definition wait_queue_destroy :: "wqref \<Rightarrow> bool \<Rightarrow> nat \<Rightarrow> 'x kernel_scheme \<Rightarrow> 'x kernel_scheme option" where
  "wait_queue_destroy w reschedule cpu s = do {
     chk (wq_magic (wait_queues s w) = WAIT_QUEUE_MAGIC);
     (_, s) \<leftarrow> wait_queue_wake_all w reschedule ERR_OBJECT_DESTROYED cpu s;
     Some (upd_wq w (\<lambda>q. q\<lparr>wq_magic := 0\<rparr>) s) }"

definition thread_unblock_from_wait_queue :: "tid \<Rightarrow> status_t \<Rightarrow> nat \<Rightarrow> 'x kernel_scheme \<Rightarrow>
    (status_t \<times> 'x kernel_scheme) option" where
  "thread_unblock_from_wait_queue t wait_queue_error cpu s = do {
     chk (t_magic (threads s t) = THREAD_MAGIC);
     if t_state (threads s t) \<noteq> THREAD_BLOCKED then Some (ERR_NOT_BLOCKED, s)
     else do {
       w \<leftarrow> t_blocking_wait_queue (threads s t);
       chk (wq_magic (wait_queues s w) = WAIT_QUEUE_MAGIC);
       node \<leftarrow> t_queue_node (threads s t);
       let s = (case node of
                  RunQ p \<Rightarrow> s\<lparr>run_queue := (run_queue s)(p := remove1 t (run_queue s p))\<rparr>
                | WaitQ v \<Rightarrow> upd_wq v (\<lambda>q. q\<lparr>wq_list := remove1 t (wq_list q)\<rparr>) s);
       let s = upd_wq w (\<lambda>q. q\<lparr>wq_count := wq_count q - 1\<rparr>) s;
       let s = upd_thread t (\<lambda>th. th\<lparr>t_queue_node := None, t_blocking_wait_queue := None,
                 t_state := THREAD_READY, t_wait_queue_block_ret := wait_queue_error\<rparr>) s;
       s \<leftarrow> insert_in_run_queue_head t s;
       Some (NO_ERROR, wakeup_cpu_for_thread t cpu s) } }"

section \<open>Timer callbacks\<close>

definition thread_timer_tick :: "nat \<Rightarrow> 'x kernel_scheme \<Rightarrow> (handler_return \<times> 'x kernel_scheme) option" where
  "thread_timer_tick cpu s = do {
     ct \<leftarrow> current_thread s cpu;
     if thread_is_real_time_or_idle (threads s ct) then Some (INT_NO_RESCHEDULE, s)
     else do {
       let s = upd_thread ct (\<lambda>th. th\<lparr>t_remaining_quantum := t_remaining_quantum th - 1\<rparr>) s;
       if t_remaining_quantum (threads s ct) \<le> 0 then Some (INT_RESCHEDULE, s)
       else Some (INT_NO_RESCHEDULE, s) } }"

definition thread_sleep_handler :: "tid \<Rightarrow> 'x kernel_scheme \<Rightarrow> (handler_return \<times> 'x kernel_scheme) option" where
  "thread_sleep_handler t s = do {
     chk (t_magic (threads s t) = THREAD_MAGIC);
     chk (t_state (threads s t) = THREAD_SLEEPING);
     let s = upd_thread t (\<lambda>th. th\<lparr>t_state := THREAD_READY\<rparr>) s;
     s \<leftarrow> insert_in_run_queue_head t s;
     Some (INT_RESCHEDULE, s) }"

definition wait_queue_timeout_handler :: "tid \<Rightarrow> nat \<Rightarrow> 'x kernel_scheme \<Rightarrow>
    (handler_return \<times> 'x kernel_scheme) option" where
  "wait_queue_timeout_handler t cpu s = do {
     chk (t_magic (threads s t) = THREAD_MAGIC);
     (r, s) \<leftarrow> thread_unblock_from_wait_queue t ERR_TIMED_OUT cpu s;
     Some (if r \<ge> NO_ERROR then INT_RESCHEDULE else INT_NO_RESCHEDULE, s) }"

fun fire_callback :: "nat \<Rightarrow> timer_ref \<Rightarrow> timer_cb \<Rightarrow> lk_time_t \<Rightarrow> 'x kernel_scheme \<Rightarrow>
    (handler_return \<times> 'x kernel_scheme) option" where
  "fire_callback cpu m CB_thread_timer_tick now s = thread_timer_tick cpu s"
| "fire_callback cpu m (CB_thread_sleep_handler t) now s = thread_sleep_handler t s"
| "fire_callback cpu m (CB_wait_queue_timeout_handler t) now s = wait_queue_timeout_handler t cpu s"

section \<open>Creating, starting and ending threads\<close>

text \<open>What \<^verbatim>\<open>memset(t, 0, sizeof(thread_t))\<close> leaves.\<close>

definition zero_thread :: thread where
  "zero_thread = \<lparr>t_magic = 0, t_queue_node = None, t_priority = 0, t_state = THREAD_SUSPENDED,
     t_remaining_quantum = 0, t_flags = 0, t_curr_cpu = 0, t_pinned_cpu = 0, t_aspace = None,
     t_blocking_wait_queue = None, t_wait_queue_block_ret = 0, t_stack = None, t_stack_size = 0,
     t_entry = 0, t_arg = 0, t_retcode = 0, t_tls = (\<lambda>_. 0), t_name = []\<rparr>"

text \<open>\<^verbatim>\<open>strlcpy\<close> into \<^verbatim>\<open>char name[32]\<close> keeps 31 characters.\<close>

definition init_thread_struct :: "tid \<Rightarrow> string \<Rightarrow> 'x kernel_scheme \<Rightarrow> 'x kernel_scheme" where
  "init_thread_struct t name s =
     upd_thread t (\<lambda>_. zero_thread\<lparr>t_magic := THREAD_MAGIC, t_pinned_cpu := - 1, t_name := take 31 name\<rparr>) s"

text \<open>
  The results of the two calls of \<^verbatim>\<open>malloc\<close> are arguments; the new thread inherits the thread local
  storage of the current one.
\<close>

definition thread_create_etc :: "tid option \<Rightarrow> string \<Rightarrow> nat \<Rightarrow> nat \<Rightarrow> int \<Rightarrow> nat option \<Rightarrow> nat \<Rightarrow>
    tid option \<Rightarrow> nat option \<Rightarrow> nat \<Rightarrow> 'x kernel_scheme \<Rightarrow> (tid option \<times> 'x kernel_scheme) option" where
  "thread_create_etc t0 name entry arg priority stack stack_size malloc_struct malloc_stack cpu s =
     (case (case t0 of None \<Rightarrow> malloc_struct | Some t \<Rightarrow> Some t) of
        None \<Rightarrow> Some (None, s)
      | Some t \<Rightarrow> do {
          let flags = (if t0 = None then THREAD_FLAG_FREE_STRUCT else 0);
          let s = init_thread_struct t name s;
          let s = upd_thread t (\<lambda>th. th\<lparr>t_entry := entry, t_arg := arg, t_priority := priority,
                    t_state := THREAD_SUSPENDED, t_blocking_wait_queue := None,
                    t_wait_queue_block_ret := NO_ERROR, t_curr_cpu := - 1, t_retcode := 0\<rparr>) s;
          let s = wait_queue_init (RetcodeWQ t) s;
          let s = upd_thread t (\<lambda>th. th\<lparr>t_aspace := None\<rparr>) s;
          let stack_size = (if stack = None then stack_size + 256 else stack_size);
          let flags = (if stack = None then flags OR THREAD_FLAG_DEBUG_STACK_BOUNDS_CHECK else flags);
          case (case stack of None \<Rightarrow> malloc_stack | Some st \<Rightarrow> Some st) of
            None \<Rightarrow> Some (None, if flags AND THREAD_FLAG_FREE_STRUCT \<noteq> 0
                              then s\<lparr>heap_freed := ThreadStruct t # heap_freed s\<rparr> else s)
          | Some st \<Rightarrow> do {
              let flags = (if stack = None then flags OR THREAD_FLAG_FREE_STACK else flags);
              let s = upd_thread t (\<lambda>th. th\<lparr>t_stack := Some st, t_stack_size := stack_size,
                        t_flags := flags\<rparr>) s;
              ct \<leftarrow> current_thread s cpu;
              let s = upd_thread t (\<lambda>th. th\<lparr>t_tls := t_tls (threads s ct)\<rparr>) s;
              Some (Some t, s\<lparr>thread_list := t # thread_list s\<rparr>) } })"

definition thread_create :: "string \<Rightarrow> nat \<Rightarrow> nat \<Rightarrow> int \<Rightarrow> nat \<Rightarrow> tid option \<Rightarrow> nat option \<Rightarrow> nat \<Rightarrow>
    'x kernel_scheme \<Rightarrow> (tid option \<times> 'x kernel_scheme) option" where
  "thread_create name entry arg priority stack_size malloc_struct malloc_stack cpu s =
     thread_create_etc None name entry arg priority None stack_size malloc_struct malloc_stack cpu s"

definition thread_set_real_time :: "tid option \<Rightarrow> nat \<Rightarrow> 'x kernel_scheme \<Rightarrow> (status_t \<times> 'x kernel_scheme) option" where
  "thread_set_real_time t0 cpu s =
     (case t0 of
        None \<Rightarrow> Some (ERR_INVALID_ARGS, s)
      | Some t \<Rightarrow> do {
          chk (t_magic (threads s t) = THREAD_MAGIC);
          s \<leftarrow> (if current_thread s cpu = Some t then timer_cancel (PreemptTimer cpu) cpu s else Some s);
          Some (NO_ERROR, upd_thread t (\<lambda>th. th\<lparr>t_flags := t_flags th OR THREAD_FLAG_REAL_TIME\<rparr>) s) })"

definition thread_resume :: "tid \<Rightarrow> bool \<Rightarrow> nat \<Rightarrow> 'x kernel_scheme \<Rightarrow> (status_t \<times> 'x kernel_scheme) option" where
  "thread_resume t ints_disabled cpu s = do {
     chk (t_magic (threads s t) = THREAD_MAGIC);
     chk (t_state (threads s t) \<noteq> THREAD_DEATH);
     let suspended = (t_state (threads s t) = THREAD_SUSPENDED);
     s \<leftarrow> (if suspended
           then insert_in_run_queue_head t (upd_thread t (\<lambda>th. th\<lparr>t_state := THREAD_READY\<rparr>) s)
           else Some s);
     let s = wakeup_cpu_for_thread t cpu s;
     s \<leftarrow> (if suspended \<and> \<not> ints_disabled then thread_yield cpu s else Some s);
     Some (NO_ERROR, s) }"

text \<open>The end of \<^verbatim>\<open>thread_join\<close>, once the thread is dead: its return code, and what is freed.\<close>

definition thread_join_finish :: "tid \<Rightarrow> 'x kernel_scheme \<Rightarrow> (int \<times> 'x kernel_scheme) option" where
  "thread_join_finish t s = do {
     chk (t_magic (threads s t) = THREAD_MAGIC);
     chk (t_state (threads s t) = THREAD_DEATH);
     chk (t_blocking_wait_queue (threads s t) = None);
     chk (t_queue_node (threads s t) = None);
     let retcode = t_retcode (threads s t);
     let s = s\<lparr>thread_list := remove1 t (thread_list s)\<rparr>;
     let s = upd_thread t (\<lambda>th. th\<lparr>t_magic := 0\<rparr>) s;
     let s = (case t_stack (threads s t) of
                Some st \<Rightarrow> if t_flags (threads s t) AND THREAD_FLAG_FREE_STACK \<noteq> 0
                           then s\<lparr>heap_freed := ThreadStack st # heap_freed s\<rparr> else s
              | None \<Rightarrow> s);
     let s = (if t_flags (threads s t) AND THREAD_FLAG_FREE_STRUCT \<noteq> 0
              then s\<lparr>heap_freed := ThreadStruct t # heap_freed s\<rparr> else s);
     Some (retcode, s) }"

text \<open>A join returns its status, with the return code of the thread on success.\<close>

type_synonym join_result = "status_t \<times> int option"

definition thread_join :: "tid \<Rightarrow> lk_time_t \<Rightarrow> nat \<Rightarrow> 'x kernel_scheme \<Rightarrow>
    (join_result outcome \<times> 'x kernel_scheme) option" where
  "thread_join t timeout cpu s = do {
     chk (t_magic (threads s t) = THREAD_MAGIC);
     if t_flags (threads s t) AND THREAD_FLAG_DETACHED \<noteq> 0
     then Some (Returns (ERR_THREAD_DETACHED, None), s)
     else if t_state (threads s t) \<noteq> THREAD_DEATH then do {
       (r, s) \<leftarrow> wait_queue_block (RetcodeWQ t) timeout cpu s;
       case r of
         Switches \<Rightarrow> Some (Switches, s)
       | Returns err \<Rightarrow>
           if err < 0 then Some (Returns (err, None), s)
           else do {
             (retcode, s) \<leftarrow> thread_join_finish t s;
             Some (Returns (NO_ERROR, Some retcode), s) } }
     else do {
       (retcode, s) \<leftarrow> thread_join_finish t s;
       Some (Returns (NO_ERROR, Some retcode), s) } }"

definition thread_join_resume :: "tid \<Rightarrow> lk_time_t \<Rightarrow> nat \<Rightarrow> 'x kernel_scheme \<Rightarrow>
    (join_result \<times> 'x kernel_scheme) option" where
  "thread_join_resume t timeout cpu s = do {
     (err, s) \<leftarrow> wait_queue_block_resume timeout cpu s;
     if err < 0 then Some ((err, None), s)
     else do {
       (retcode, s) \<leftarrow> thread_join_finish t s;
       Some ((NO_ERROR, Some retcode), s) } }"

text \<open>
  A dead thread is joined with timeout 0, which returns at once.
\<close>

definition thread_detach :: "tid \<Rightarrow> nat \<Rightarrow> 'x kernel_scheme \<Rightarrow> (status_t \<times> 'x kernel_scheme) option" where
  "thread_detach t cpu s = do {
     chk (t_magic (threads s t) = THREAD_MAGIC);
     (_, s) \<leftarrow> wait_queue_wake_all (RetcodeWQ t) False ERR_THREAD_DETACHED cpu s;
     if t_state (threads s t) = THREAD_DEATH then do {
       let s = upd_thread t (\<lambda>th. th\<lparr>t_flags := t_flags th AND NOT THREAD_FLAG_DETACHED\<rparr>) s;
       (r, s) \<leftarrow> thread_join t 0 cpu s;
       case r of Returns (err, _) \<Rightarrow> Some (err, s) | Switches \<Rightarrow> None }
     else Some (NO_ERROR, upd_thread t (\<lambda>th. th\<lparr>t_flags := t_flags th OR THREAD_FLAG_DETACHED\<rparr>) s) }"

definition thread_detach_and_resume :: "tid \<Rightarrow> bool \<Rightarrow> nat \<Rightarrow> 'x kernel_scheme \<Rightarrow>
    (status_t \<times> 'x kernel_scheme) option" where
  "thread_detach_and_resume t ints_disabled cpu s = do {
     (err, s) \<leftarrow> thread_detach t cpu s;
     if err < 0 then Some (err, s) else thread_resume t ints_disabled cpu s }"

definition thread_exit :: "int \<Rightarrow> nat \<Rightarrow> 'x kernel_scheme \<Rightarrow> 'x kernel_scheme option" where
  "thread_exit retcode cpu s = do {
     ct \<leftarrow> current_thread s cpu;
     chk (t_magic (threads s ct) = THREAD_MAGIC);
     chk (t_state (threads s ct) = THREAD_RUNNING);
     chk (\<not> thread_is_idle (threads s ct));
     let s = upd_thread ct (\<lambda>th. th\<lparr>t_state := THREAD_DEATH, t_retcode := retcode\<rparr>) s;
     s \<leftarrow> (if t_flags (threads s ct) AND THREAD_FLAG_DETACHED \<noteq> 0 then do {
             let s = s\<lparr>thread_list := remove1 ct (thread_list s)\<rparr>;
             let s = upd_thread ct (\<lambda>th. th\<lparr>t_magic := 0\<rparr>) s;
             let s = (case t_stack (threads s ct) of
                        Some st \<Rightarrow>
                          if t_flags (threads s ct) AND THREAD_FLAG_FREE_STACK \<noteq> 0
                          then upd_thread ct (\<lambda>th. th\<lparr>t_flags :=
                                   t_flags th AND NOT THREAD_FLAG_DEBUG_STACK_BOUNDS_CHECK\<rparr>)
                                 (s\<lparr>heap_freed := ThreadStack st # heap_freed s\<rparr>)
                          else s
                      | None \<Rightarrow> s);
             Some (if t_flags (threads s ct) AND THREAD_FLAG_FREE_STRUCT \<noteq> 0
                   then s\<lparr>heap_freed := ThreadStruct ct # heap_freed s\<rparr> else s) }
           else do {
             (_, s) \<leftarrow> wait_queue_wake_all (RetcodeWQ ct) False 0 cpu s;
             Some s });
     thread_resched cpu s }"

definition thread_sleep :: "lk_time_t \<Rightarrow> nat \<Rightarrow> 'x kernel_scheme \<Rightarrow> 'x kernel_scheme option" where
  "thread_sleep delay cpu s = do {
     ct \<leftarrow> current_thread s cpu;
     chk (t_magic (threads s ct) = THREAD_MAGIC);
     chk (t_state (threads s ct) = THREAD_RUNNING);
     chk (\<not> thread_is_idle (threads s ct));
     let s = timer_initialize (StackTimer ct) s;
     s \<leftarrow> timer_set_oneshot (StackTimer ct) delay (CB_thread_sleep_handler ct) cpu s;
     let s = upd_thread ct (\<lambda>th. th\<lparr>t_state := THREAD_SLEEPING\<rparr>) s;
     thread_resched cpu s }"

definition thread_set_name :: "string \<Rightarrow> nat \<Rightarrow> 'x kernel_scheme \<Rightarrow> 'x kernel_scheme option" where
  "thread_set_name name cpu s = do {
     ct \<leftarrow> current_thread s cpu;
     Some (upd_thread ct (\<lambda>th. th\<lparr>t_name := take 31 name\<rparr>) s) }"

definition thread_set_priority :: "int \<Rightarrow> nat \<Rightarrow> 'x kernel_scheme \<Rightarrow> 'x kernel_scheme option" where
  "thread_set_priority priority cpu s = do {
     ct \<leftarrow> current_thread s cpu;
     let priority = (if priority \<le> IDLE_PRIORITY then IDLE_PRIORITY + 1 else priority);
     let priority = (if priority > HIGHEST_PRIORITY then HIGHEST_PRIORITY else priority);
     let s = upd_thread ct (\<lambda>th. th\<lparr>t_priority := priority, t_state := THREAD_READY\<rparr>) s;
     s \<leftarrow> insert_in_run_queue_head ct s;
     thread_resched cpu s }"

section \<open>Bringing up the cpus\<close>

definition thread_init_early :: "'x kernel_scheme \<Rightarrow> 'x kernel_scheme" where
  "thread_init_early s =
     (let s = s\<lparr>run_queue := (\<lambda>_. []), thread_list := []\<rparr>;
          t = IdleThread 0;
          s = init_thread_struct t ''bootstrap'' s;
          s = upd_thread t (\<lambda>th. th\<lparr>t_priority := HIGHEST_PRIORITY, t_state := THREAD_RUNNING,
                t_flags := THREAD_FLAG_DETACHED, t_curr_cpu := 0, t_pinned_cpu := 0\<rparr>) s;
          s = wait_queue_init (RetcodeWQ t) s
      in s\<lparr>thread_list := t # thread_list s, current_thread := (current_thread s)(0 \<mapsto> t)\<rparr>)"

definition thread_init :: "nat \<Rightarrow> 'x kernel_scheme \<Rightarrow> 'x kernel_scheme" where
  "thread_init smp_max_cpus s = fold (\<lambda>i. timer_initialize (PreemptTimer i)) [0..<smp_max_cpus] s"

text \<open>\<^verbatim>\<open>snprintf(name, 16, "idle %d", cpu)\<close>.\<close>

definition idle_name :: "nat \<Rightarrow> string" where
  "idle_name cpu = take 15 (''idle '' @ decimal cpu)"

text \<open>Up to the loop of the idle thread.\<close>

definition thread_become_idle :: "nat \<Rightarrow> 'x kernel_scheme \<Rightarrow> 'x kernel_scheme option" where
  "thread_become_idle cpu s = do {
     t \<leftarrow> current_thread s cpu;
     s \<leftarrow> thread_set_name (idle_name cpu) cpu s;
     let s = upd_thread t (\<lambda>th. th\<lparr>t_priority := IDLE_PRIORITY,
               t_flags := t_flags th OR THREAD_FLAG_IDLE, t_pinned_cpu := int cpu\<rparr>) s;
     thread_yield cpu (mp_set_cpu_idle cpu (mp_set_curr_cpu_active cpu s)) }"

definition thread_secondary_cpu_init_early :: "nat \<Rightarrow> 'x kernel_scheme \<Rightarrow> 'x kernel_scheme" where
  "thread_secondary_cpu_init_early cpu s =
     (let t = IdleThread cpu;
          s = init_thread_struct t (idle_name cpu) s;
          s = upd_thread t (\<lambda>th. th\<lparr>t_priority := HIGHEST_PRIORITY, t_state := THREAD_RUNNING,
                t_flags := THREAD_FLAG_DETACHED OR THREAD_FLAG_IDLE,
                t_curr_cpu := int cpu, t_pinned_cpu := int cpu\<rparr>) s;
          s = wait_queue_init (RetcodeWQ t) s
      in s\<lparr>thread_list := t # thread_list s, current_thread := (current_thread s)(cpu \<mapsto> t)\<rparr>)"

definition thread_secondary_cpu_entry :: "nat \<Rightarrow> 'x kernel_scheme \<Rightarrow> 'x kernel_scheme option" where
  "thread_secondary_cpu_entry cpu s = do {
     t \<leftarrow> current_thread s cpu;
     let s = upd_thread t (\<lambda>th. th\<lparr>t_priority := IDLE_PRIORITY\<rparr>) s;
     thread_yield cpu (mp_set_cpu_idle cpu (mp_set_curr_cpu_active cpu s)) }"

fun thread_state_to_str :: "thread_state \<Rightarrow> string" where
  "thread_state_to_str THREAD_SUSPENDED = ''susp''"
| "thread_state_to_str THREAD_READY = ''rdy''"
| "thread_state_to_str THREAD_RUNNING = ''run''"
| "thread_state_to_str THREAD_BLOCKED = ''blok''"
| "thread_state_to_str THREAD_SLEEPING = ''slep''"
| "thread_state_to_str THREAD_DEATH = ''deth''"

end
