(* ===== verification/Thread_Inv.thy ===== *)
theory Thread_Inv
  imports Thread
begin

text \<open>
  The scheduler's invariant, the elementary steps the operations of \<open>Thread\<close> are made of, and the
  reschedule routine: each keeps the invariant and no assertion fails.

  \<open>kinv L C s\<close> is the invariant in the middle of a critical section: the threads of \<open>L\<close> are ready but
  not yet in a run queue, and the cpus of \<open>C\<close> run a thread that has already left the running state.
  Outside critical sections both are empty.
\<close>

unbundle bit_operations_syntax

section \<open>The invariant\<close>

definition queues_ok :: "'x kernel_scheme \<Rightarrow> bool" where
  "queues_ok s \<longleftrightarrow>
     (\<forall>p t. t \<in> set (run_queue s p) \<longleftrightarrow> t_queue_node (threads s t) = Some (RunQ p)) \<and>
     (\<forall>w t. t \<in> set (wq_list (wait_queues s w)) \<longleftrightarrow> t_queue_node (threads s t) = Some (WaitQ w)) \<and>
     (\<forall>p. distinct (run_queue s p)) \<and> (\<forall>w. distinct (wq_list (wait_queues s w))) \<and>
     (\<forall>p. bit (run_queue_bitmap s) p \<longleftrightarrow> run_queue s p \<noteq> [])"

definition wqs_ok :: "'x kernel_scheme \<Rightarrow> bool" where
  "wqs_ok s \<longleftrightarrow> (\<forall>w. if wq_magic (wait_queues s w) = WAIT_QUEUE_MAGIC
                    then wq_count (wait_queues s w) = int (length (wq_list (wait_queues s w)))
                    else wq_list (wait_queues s w) = [])"

definition live :: "'x kernel_scheme \<Rightarrow> tid \<Rightarrow> bool" where
  "live s t \<longleftrightarrow> t \<in> set (thread_list s)"

definition thread_ok :: "tid set \<Rightarrow> 'x kernel_scheme \<Rightarrow> tid \<Rightarrow> bool" where
  "thread_ok L s t \<longleftrightarrow> (let th = threads s t in
     (live s t \<longrightarrow> t_magic th = THREAD_MAGIC \<and> 0 \<le> t_priority th \<and> t_priority th < NUM_PRIORITIES
        \<and> (thread_is_idle th \<longleftrightarrow> (\<exists>c. t = IdleThread c))) \<and>
     (\<forall>p. t_queue_node th = Some (RunQ p) \<longrightarrow>
        live s t \<and> \<not> thread_is_idle th \<and> t_state th = THREAD_READY \<and> t_priority th = int p) \<and>
     (\<forall>w. t_queue_node th = Some (WaitQ w) \<longleftrightarrow>
        live s t \<and> t_state th = THREAD_BLOCKED \<and> t_blocking_wait_queue th = Some w) \<and>
     (live s t \<longrightarrow> (t_blocking_wait_queue th \<noteq> None \<longleftrightarrow> t_state th = THREAD_BLOCKED)) \<and>
     (live s t \<and> \<not> thread_is_idle th \<and> t_state th = THREAD_READY \<and> t \<notin> L \<longrightarrow> t_queue_node th \<noteq> None) \<and>
     (t \<in> L \<longrightarrow> live s t \<and> \<not> thread_is_idle th \<and> t_state th = THREAD_READY \<and> t_queue_node th = None))"

definition threads_ok :: "tid set \<Rightarrow> 'x kernel_scheme \<Rightarrow> bool" where
  "threads_ok L s \<longleftrightarrow> distinct (thread_list s) \<and> (\<forall>t. thread_ok L s t)"

definition cpus_ok :: "nat set \<Rightarrow> 'x kernel_scheme \<Rightarrow> bool" where
  "cpus_ok C s \<longleftrightarrow>
     (\<forall>c t. current_thread s c = Some t \<longrightarrow>
        t_curr_cpu (threads s t) = int c \<and>
        (t_pinned_cpu (threads s t) < 0 \<or> t_pinned_cpu (threads s t) = int c) \<and>
        (if c \<in> C then t_state (threads s t) \<noteq> THREAD_RUNNING
         else live s t \<and> t_state (threads s t) = THREAD_RUNNING)) \<and>
     (\<forall>t. live s t \<and> t_state (threads s t) = THREAD_RUNNING \<longrightarrow> (\<exists>c. current_thread s c = Some t))"

definition idle_ok :: "'x kernel_scheme \<Rightarrow> bool" where
  "idle_ok s \<longleftrightarrow>
     (\<forall>c. live s (IdleThread c) \<longleftrightarrow> current_thread s c \<noteq> None) \<and>
     (\<forall>c. live s (IdleThread c) \<longrightarrow>
        t_pinned_cpu (threads s (IdleThread c)) = int c \<and>
        t_state (threads s (IdleThread c)) \<in> {THREAD_READY, THREAD_RUNNING}) \<and>
     (\<forall>c t. current_thread s c = Some t \<and> bit (active_cpus s) c \<longrightarrow>
        (bit (idle_cpus s) c \<longleftrightarrow> thread_is_idle (threads s t)))"

definition preempt_ok :: "'x kernel_scheme \<Rightarrow> bool" where
  "preempt_ok s \<longleftrightarrow>
     (\<forall>c. current_thread s c \<noteq> None \<longrightarrow> tm_magic (timers s (PreemptTimer c)) = TIMER_MAGIC) \<and>
     (\<forall>c d. tm_node (timers s (PreemptTimer c)) = Some d \<longrightarrow>
        d = c \<and> tm_callback (timers s (PreemptTimer c)) = Some CB_thread_timer_tick
        \<and> tm_periodic_time (timers s (PreemptTimer c)) > 0) \<and>
     (\<forall>c t. current_thread s c = Some t \<longrightarrow>
        (tm_node (timers s (PreemptTimer c)) = None \<longleftrightarrow> thread_is_real_time_or_idle (threads s t)))"

definition stack_timers_ok :: "'x kernel_scheme \<Rightarrow> bool" where
  "stack_timers_ok s \<longleftrightarrow>
     (\<forall>t. tm_node (timers s (StackTimer t)) \<noteq> None \<longrightarrow> live s t \<and>
        tm_periodic_time (timers s (StackTimer t)) = 0 \<and>
        (if t_state (threads s t) = THREAD_SLEEPING
         then tm_callback (timers s (StackTimer t)) = Some (CB_thread_sleep_handler t)
         else tm_callback (timers s (StackTimer t)) = Some (CB_wait_queue_timeout_handler t))) \<and>
     (\<forall>t. live s t \<and> t_state (threads s t) = THREAD_SLEEPING \<longrightarrow> tm_node (timers s (StackTimer t)) \<noteq> None)"

definition kinv :: "tid set \<Rightarrow> nat set \<Rightarrow> 'x kernel_scheme \<Rightarrow> bool" where
  "kinv L C s \<longleftrightarrow> queues_ok s \<and> wqs_ok s \<and> threads_ok L s \<and> cpus_ok C s \<and> idle_ok s
     \<and> preempt_ok s \<and> stack_timers_ok s \<and> timer_inv s"

abbreviation sched_inv :: "'x kernel_scheme \<Rightarrow> bool" where
  "sched_inv \<equiv> kinv {} {}"

lemmas inv_defs = queues_ok_def wqs_ok_def threads_ok_def thread_ok_def cpus_ok_def idle_ok_def
  preempt_ok_def stack_timers_ok_def Let_def

text \<open>What each part of the invariant depends on.\<close>

lemma live_cong: "thread_list s' = thread_list s \<Longrightarrow> live s' = live s"
  by (simp add: live_def fun_eq_iff)

lemma queues_ok_cong:
  "threads s' = threads s \<Longrightarrow> run_queue s' = run_queue s \<Longrightarrow> run_queue_bitmap s' = run_queue_bitmap s \<Longrightarrow>
   wait_queues s' = wait_queues s \<Longrightarrow> queues_ok s' = queues_ok s"
  by (simp add: queues_ok_def)

lemma wqs_ok_cong: "wait_queues s' = wait_queues s \<Longrightarrow> wqs_ok s' = wqs_ok s"
  by (simp add: wqs_ok_def)

lemma threads_ok_cong:
  "threads s' = threads s \<Longrightarrow> thread_list s' = thread_list s \<Longrightarrow> threads_ok L s' = threads_ok L s"
  by (simp add: threads_ok_def thread_ok_def live_def)

lemma cpus_ok_cong:
  "threads s' = threads s \<Longrightarrow> thread_list s' = thread_list s \<Longrightarrow> current_thread s' = current_thread s \<Longrightarrow>
   cpus_ok C s' = cpus_ok C s"
  by (simp add: cpus_ok_def live_def)

lemma idle_ok_cong:
  "threads s' = threads s \<Longrightarrow> thread_list s' = thread_list s \<Longrightarrow> current_thread s' = current_thread s \<Longrightarrow>
   active_cpus s' = active_cpus s \<Longrightarrow> idle_cpus s' = idle_cpus s \<Longrightarrow> idle_ok s' = idle_ok s"
  by (simp add: idle_ok_def live_def)

lemma preempt_ok_cong:
  "threads s' = threads s \<Longrightarrow> current_thread s' = current_thread s \<Longrightarrow> timers s' = timers s \<Longrightarrow>
   preempt_ok s' = preempt_ok s"
  by (simp only: preempt_ok_def)

lemma stack_timers_ok_cong:
  "threads s' = threads s \<Longrightarrow> thread_list s' = thread_list s \<Longrightarrow> timers s' = timers s \<Longrightarrow>
   stack_timers_ok s' = stack_timers_ok s"
  by (simp add: stack_timers_ok_def live_def)

lemma timer_inv_cong: "timers s' = timers s \<Longrightarrow> timer_queue s' = timer_queue s \<Longrightarrow> timer_inv s' = timer_inv s"
  by (simp only: timer_inv_def)

lemmas inv_congs = queues_ok_cong wqs_ok_cong threads_ok_cong cpus_ok_cong idle_ok_cong preempt_ok_cong
  stack_timers_ok_cong timer_inv_cong

lemma kinv_cong:
  assumes "threads s' = threads s" "thread_list s' = thread_list s" "run_queue s' = run_queue s"
    "run_queue_bitmap s' = run_queue_bitmap s" "current_thread s' = current_thread s"
    "wait_queues s' = wait_queues s" "active_cpus s' = active_cpus s" "idle_cpus s' = idle_cpus s"
    "timers s' = timers s" "timer_queue s' = timer_queue s"
  shows "kinv L C s' = kinv L C s"
  by (simp only: kinv_def queues_ok_cong [OF assms(1,3,4,6)] wqs_ok_cong [OF assms(6)]
      threads_ok_cong [OF assms(1,2)] cpus_ok_cong [OF assms(1,2,5)] idle_ok_cong [OF assms(1,2,5,7,8)]
      preempt_ok_cong [OF assms(1,5,9)] stack_timers_ok_cong [OF assms(1,2,9)] timer_inv_cong [OF assms(9,10)])

lemma kinvD:
  assumes "kinv L C s"
  shows "queues_ok s" "wqs_ok s" "threads_ok L s" "cpus_ok C s" "idle_ok s" "preempt_ok s"
    "stack_timers_ok s" "timer_inv s"
  using assms by (simp_all add: kinv_def)

lemma upd_thread_simps [simp]:
  "threads (upd_thread t f s) = (threads s)(t := f (threads s t))"
  "thread_list (upd_thread t f s) = thread_list s"
  "run_queue (upd_thread t f s) = run_queue s"
  "run_queue_bitmap (upd_thread t f s) = run_queue_bitmap s"
  "current_thread (upd_thread t f s) = current_thread s"
  "wait_queues (upd_thread t f s) = wait_queues s"
  "active_cpus (upd_thread t f s) = active_cpus s"
  "idle_cpus (upd_thread t f s) = idle_cpus s"
  "realtime_cpus (upd_thread t f s) = realtime_cpus s"
  "ipis (upd_thread t f s) = ipis s"
  "cpu_aspace (upd_thread t f s) = cpu_aspace s"
  "heap_freed (upd_thread t f s) = heap_freed s"
  "kernel.more (upd_thread t f s) = kernel.more s"
  "timers (upd_thread t f s) = timers s"
  "timer_queue (upd_thread t f s) = timer_queue s"
  "hw_timer (upd_thread t f s) = hw_timer s"
  "current_time (upd_thread t f s) = current_time s"
  by (simp_all add: upd_thread_def)

lemma upd_wq_simps [simp]:
  "threads (upd_wq w g s) = threads s"
  "thread_list (upd_wq w g s) = thread_list s"
  "run_queue (upd_wq w g s) = run_queue s"
  "run_queue_bitmap (upd_wq w g s) = run_queue_bitmap s"
  "current_thread (upd_wq w g s) = current_thread s"
  "wait_queues (upd_wq w g s) = (wait_queues s)(w := g (wait_queues s w))"
  "active_cpus (upd_wq w g s) = active_cpus s"
  "idle_cpus (upd_wq w g s) = idle_cpus s"
  "realtime_cpus (upd_wq w g s) = realtime_cpus s"
  "ipis (upd_wq w g s) = ipis s"
  "cpu_aspace (upd_wq w g s) = cpu_aspace s"
  "heap_freed (upd_wq w g s) = heap_freed s"
  "kernel.more (upd_wq w g s) = kernel.more s"
  "timers (upd_wq w g s) = timers s"
  "timer_queue (upd_wq w g s) = timer_queue s"
  "hw_timer (upd_wq w g s) = hw_timer s"
  "current_time (upd_wq w g s) = current_time s"
  by (simp_all add: upd_wq_def)

lemma live_simps [simp]:
  "live (upd_thread t f s) = live s"
  "live (upd_wq w g s) = live s"
  by (simp_all add: live_def fun_eq_iff)

lemma thread_is_idle_upd [simp]:
  "thread_is_idle (th\<lparr>t_magic := x0\<rparr>) = thread_is_idle th"
  "thread_is_idle (th\<lparr>t_queue_node := x1\<rparr>) = thread_is_idle th"
  "thread_is_idle (th\<lparr>t_priority := x2\<rparr>) = thread_is_idle th"
  "thread_is_idle (th\<lparr>t_state := x3\<rparr>) = thread_is_idle th"
  "thread_is_idle (th\<lparr>t_remaining_quantum := x4\<rparr>) = thread_is_idle th"
  "thread_is_idle (th\<lparr>t_curr_cpu := x5\<rparr>) = thread_is_idle th"
  "thread_is_idle (th\<lparr>t_pinned_cpu := x6\<rparr>) = thread_is_idle th"
  "thread_is_idle (th\<lparr>t_aspace := x7\<rparr>) = thread_is_idle th"
  "thread_is_idle (th\<lparr>t_blocking_wait_queue := x8\<rparr>) = thread_is_idle th"
  "thread_is_idle (th\<lparr>t_wait_queue_block_ret := x9\<rparr>) = thread_is_idle th"
  "thread_is_idle (th\<lparr>t_retcode := x10\<rparr>) = thread_is_idle th"
  "thread_is_idle (th\<lparr>t_name := x11\<rparr>) = thread_is_idle th"
  by (simp_all add: thread_is_idle_def)

lemma thread_is_real_time_or_idle_upd [simp]:
  "thread_is_real_time_or_idle (th\<lparr>t_magic := x0\<rparr>) = thread_is_real_time_or_idle th"
  "thread_is_real_time_or_idle (th\<lparr>t_queue_node := x1\<rparr>) = thread_is_real_time_or_idle th"
  "thread_is_real_time_or_idle (th\<lparr>t_priority := x2\<rparr>) = thread_is_real_time_or_idle th"
  "thread_is_real_time_or_idle (th\<lparr>t_state := x3\<rparr>) = thread_is_real_time_or_idle th"
  "thread_is_real_time_or_idle (th\<lparr>t_remaining_quantum := x4\<rparr>) = thread_is_real_time_or_idle th"
  "thread_is_real_time_or_idle (th\<lparr>t_curr_cpu := x5\<rparr>) = thread_is_real_time_or_idle th"
  "thread_is_real_time_or_idle (th\<lparr>t_pinned_cpu := x6\<rparr>) = thread_is_real_time_or_idle th"
  "thread_is_real_time_or_idle (th\<lparr>t_aspace := x7\<rparr>) = thread_is_real_time_or_idle th"
  "thread_is_real_time_or_idle (th\<lparr>t_blocking_wait_queue := x8\<rparr>) = thread_is_real_time_or_idle th"
  "thread_is_real_time_or_idle (th\<lparr>t_wait_queue_block_ret := x9\<rparr>) = thread_is_real_time_or_idle th"
  "thread_is_real_time_or_idle (th\<lparr>t_retcode := x10\<rparr>) = thread_is_real_time_or_idle th"
  "thread_is_real_time_or_idle (th\<lparr>t_name := x11\<rparr>) = thread_is_real_time_or_idle th"
  by (simp_all add: thread_is_real_time_or_idle_def)

section \<open>What the invariant says of single threads\<close>

lemma thread_okD:
  assumes "kinv L C s"
  shows "live s t \<Longrightarrow> t_magic (threads s t) = THREAD_MAGIC"
    and "live s t \<Longrightarrow> 0 \<le> t_priority (threads s t) \<and> t_priority (threads s t) < NUM_PRIORITIES"
    and "live s t \<Longrightarrow> thread_is_idle (threads s t) \<longleftrightarrow> (\<exists>c. t = IdleThread c)"
    and "t_queue_node (threads s t) = Some (RunQ p) \<Longrightarrow>
           live s t \<and> \<not> thread_is_idle (threads s t) \<and> t_state (threads s t) = THREAD_READY
           \<and> t_priority (threads s t) = int p"
    and "t_queue_node (threads s t) = Some (WaitQ w) \<longleftrightarrow>
           live s t \<and> t_state (threads s t) = THREAD_BLOCKED \<and> t_blocking_wait_queue (threads s t) = Some w"
    and "live s t \<Longrightarrow> t_state (threads s t) = THREAD_BLOCKED \<Longrightarrow>
           \<exists>w. t_blocking_wait_queue (threads s t) = Some w"
    and "live s t \<Longrightarrow> t_state (threads s t) = THREAD_READY \<Longrightarrow> t \<notin> L \<Longrightarrow>
           \<not> thread_is_idle (threads s t) \<Longrightarrow> t_queue_node (threads s t) \<noteq> None"
    and "t \<in> L \<Longrightarrow> live s t \<and> \<not> thread_is_idle (threads s t) \<and> t_state (threads s t) = THREAD_READY
           \<and> t_queue_node (threads s t) = None"
    and "live s t \<Longrightarrow> t_state (threads s t) \<noteq> THREAD_BLOCKED \<Longrightarrow> t_blocking_wait_queue (threads s t) = None"
  using kinvD(3) [OF assms] by (auto simp: threads_ok_def thread_ok_def Let_def)

lemma queue_node_None:
  assumes "kinv L C s" and "t_state (threads s t) \<noteq> THREAD_READY" and "t_state (threads s t) \<noteq> THREAD_BLOCKED"
  shows "t_queue_node (threads s t) = None"
proof (cases "t_queue_node (threads s t)")
  case (Some q)
  then show ?thesis using thread_okD(4,5) [OF assms(1), of t] assms(2,3) by (cases q) auto
qed simp

lemma run_queueD:
  assumes "kinv L C s"
  shows "t \<in> set (run_queue s p) \<longleftrightarrow> t_queue_node (threads s t) = Some (RunQ p)"
    and "distinct (run_queue s p)"
    and "bit (run_queue_bitmap s) p \<longleftrightarrow> run_queue s p \<noteq> []"
  using kinvD(1) [OF assms] by (auto simp: queues_ok_def)

lemma run_queue_bound:
  assumes "kinv L C s" and "t \<in> set (run_queue s p)"
  shows "p < 32"
  using run_queueD(3) [OF assms(1), of p] assms(2) by (auto dest: bit_u32_less)

lemma wait_queueD:
  assumes "kinv L C s"
  shows "t \<in> set (wq_list (wait_queues s w)) \<longleftrightarrow> t_queue_node (threads s t) = Some (WaitQ w)"
    and "distinct (wq_list (wait_queues s w))"
    and "wq_magic (wait_queues s w) = WAIT_QUEUE_MAGIC \<Longrightarrow>
           wq_count (wait_queues s w) = int (length (wq_list (wait_queues s w)))"
    and "t_queue_node (threads s t) = Some (WaitQ w) \<Longrightarrow> wq_magic (wait_queues s w) = WAIT_QUEUE_MAGIC"
  using kinvD(1,2) [OF assms] by (auto simp: queues_ok_def wqs_ok_def) (metis list.set(1) empty_iff)

lemma currentD:
  assumes "kinv L C s" and "current_thread s c = Some t"
  shows "t_curr_cpu (threads s t) = int c"
    and "t_pinned_cpu (threads s t) < 0 \<or> t_pinned_cpu (threads s t) = int c"
    and "c \<notin> C \<Longrightarrow> live s t \<and> t_state (threads s t) = THREAD_RUNNING"
    and "c \<in> C \<Longrightarrow> t_state (threads s t) \<noteq> THREAD_RUNNING"
  using kinvD(4) [OF assms(1)] assms(2) by (auto simp: cpus_ok_def split: if_splits)

lemma runningD:
  assumes "kinv L C s" and "live s t" and "t_state (threads s t) = THREAD_RUNNING"
  shows "\<exists>c. current_thread s c = Some t"
  using kinvD(4) [OF assms(1)] assms(2,3) by (auto simp: cpus_ok_def)

lemma cpus_okI:
  assumes "\<And>c t. current_thread s c = Some t \<Longrightarrow> t_curr_cpu (threads s t) = int c"
    and "\<And>c t. current_thread s c = Some t \<Longrightarrow>
           t_pinned_cpu (threads s t) < 0 \<or> t_pinned_cpu (threads s t) = int c"
    and "\<And>c t. current_thread s c = Some t \<Longrightarrow> c \<in> C \<Longrightarrow> t_state (threads s t) \<noteq> THREAD_RUNNING"
    and "\<And>c t. current_thread s c = Some t \<Longrightarrow> c \<notin> C \<Longrightarrow> live s t \<and> t_state (threads s t) = THREAD_RUNNING"
    and "\<And>t. live s t \<Longrightarrow> t_state (threads s t) = THREAD_RUNNING \<Longrightarrow> \<exists>c. current_thread s c = Some t"
  shows "cpus_ok C s"
  using assms unfolding cpus_ok_def by simp

lemma current_unique:
  assumes "kinv L C s" and "current_thread s c = Some t" and "current_thread s d = Some t"
  shows "c = d"
  using currentD(1) [OF assms(1,2)] currentD(1) [OF assms(1,3)] by simp

lemma current_idle:
  assumes "kinv L C s" and "current_thread s d = Some (IdleThread c)" and "d \<notin> C"
  shows "c = d"
  using currentD(2,3) [OF assms(1,2)] kinvD(5) [OF assms(1)] assms(3) by (auto simp: idle_ok_def)

lemma idleD:
  assumes "kinv L C s"
  shows "live s (IdleThread c) \<longleftrightarrow> current_thread s c \<noteq> None"
    and "live s (IdleThread c) \<Longrightarrow> t_pinned_cpu (threads s (IdleThread c)) = int c"
    and "live s (IdleThread c) \<Longrightarrow> t_state (threads s (IdleThread c)) \<in> {THREAD_READY, THREAD_RUNNING}"
    and "current_thread s c = Some t \<Longrightarrow> bit (active_cpus s) c \<Longrightarrow>
           bit (idle_cpus s) c \<longleftrightarrow> thread_is_idle (threads s t)"
  using kinvD(5) [OF assms] by (auto simp: idle_ok_def)

lemma preemptD:
  assumes "kinv L C s" and "current_thread s c = Some t"
  shows "tm_magic (timers s (PreemptTimer c)) = TIMER_MAGIC"
    and "if thread_is_real_time_or_idle (threads s t) then tm_node (timers s (PreemptTimer c)) = None
         else tm_node (timers s (PreemptTimer c)) = Some c
           \<and> tm_callback (timers s (PreemptTimer c)) = Some CB_thread_timer_tick
           \<and> tm_periodic_time (timers s (PreemptTimer c)) > 0"
proof -
  note P = kinvD(6) [OF assms(1), unfolded preempt_ok_def]
  show "tm_magic (timers s (PreemptTimer c)) = TIMER_MAGIC" using P assms(2) by simp
  have nd: "tm_node (timers s (PreemptTimer c)) = None \<longleftrightarrow> thread_is_real_time_or_idle (threads s t)"
    using P assms(2) by blast
  show "if thread_is_real_time_or_idle (threads s t) then tm_node (timers s (PreemptTimer c)) = None
         else tm_node (timers s (PreemptTimer c)) = Some c
           \<and> tm_callback (timers s (PreemptTimer c)) = Some CB_thread_timer_tick
           \<and> tm_periodic_time (timers s (PreemptTimer c)) > 0"
  proof (cases "tm_node (timers s (PreemptTimer c))")
    case (Some d)
    then have "d = c \<and> tm_callback (timers s (PreemptTimer c)) = Some CB_thread_timer_tick
        \<and> tm_periodic_time (timers s (PreemptTimer c)) > 0" using P by blast
    then show ?thesis using Some nd by simp
  qed (use nd in simp)
qed

lemma idle_queue_node:
  assumes "kinv L C s" and "live s (IdleThread c)"
  shows "t_queue_node (threads s (IdleThread c)) = None"
proof (cases "t_queue_node (threads s (IdleThread c))")
  case (Some q)
  then show ?thesis
    using thread_okD(3,4,5) [OF assms(1), of "IdleThread c"] idleD(3) [OF assms] assms(2) by (cases q) auto
qed simp

section \<open>Elementary steps\<close>

text \<open>Only thread \<open>t\<close> changes.\<close>

lemma threads_okI:
  assumes "kinv L C s" and "thread_list s' = thread_list s"
    and "\<And>x. x \<noteq> t \<Longrightarrow> threads s' x = threads s x" and "\<And>x. x \<noteq> t \<Longrightarrow> x \<in> L' \<longleftrightarrow> x \<in> L"
    and "thread_ok L' s' t"
  shows "threads_ok L' s'"
  unfolding threads_ok_def
proof (intro conjI allI)
  show "distinct (thread_list s')" using kinvD(3) [OF assms(1)] by (simp add: threads_ok_def assms(2))
  fix x show "thread_ok L' s' x"
  proof (cases "x = t")
    case False
    have "thread_ok L s x" using kinvD(3) [OF assms(1)] by (simp add: threads_ok_def)
    then show ?thesis by (simp only: thread_ok_def live_cong [OF assms(2)] assms(3,4) [OF False])
  qed (use assms(5) in simp)
qed

lemma thread_ok_self: "kinv L C s \<Longrightarrow> thread_ok L s t"
  by (auto dest: kinvD(3) simp: threads_ok_def)

text \<open>The fields of a thread that the invariant reads, the state and the priority apart.\<close>

definition same_links :: "thread \<Rightarrow> thread \<Rightarrow> bool" where
  "same_links th th' \<longleftrightarrow> t_magic th' = t_magic th \<and> t_queue_node th' = t_queue_node th \<and> t_flags th' = t_flags th
     \<and> t_curr_cpu th' = t_curr_cpu th \<and> t_pinned_cpu th' = t_pinned_cpu th
     \<and> t_blocking_wait_queue th' = t_blocking_wait_queue th"

lemma same_links_idle [simp]:
  "same_links th th' \<Longrightarrow> thread_is_idle th' = thread_is_idle th"
  "same_links th th' \<Longrightarrow> thread_is_real_time_or_idle th' = thread_is_real_time_or_idle th"
  by (simp_all add: same_links_def thread_is_idle_def thread_is_real_time_or_idle_def)

lemma timer_inv_upd [simp]:
  "timer_inv (upd_thread t f s) = timer_inv s" "timer_inv (upd_wq w g s) = timer_inv s"
  by (simp_all add: timer_inv_def)

lemma cpus_ok_leave:
  assumes "kinv L C s" and "current_thread s c = Some ct" and "c \<notin> C"
    and "t_curr_cpu (f (threads s ct)) = t_curr_cpu (threads s ct)"
    and "t_pinned_cpu (f (threads s ct)) = t_pinned_cpu (threads s ct)"
    and "t_state (f (threads s ct)) \<noteq> THREAD_RUNNING"
  shows "cpus_ok (insert c C) (upd_thread ct f s)"
proof (rule cpus_okI; unfold upd_thread_simps live_simps)
  fix d t assume d: "current_thread s d = Some t"
  have same: "t = ct \<longleftrightarrow> d = c" using d assms(2) current_unique [OF assms(1,2), of d] by auto
  note D = currentD [OF assms(1) d]
  show "t_curr_cpu (((threads s)(ct := f (threads s ct))) t) = int d"
    "t_pinned_cpu (((threads s)(ct := f (threads s ct))) t) < 0 \<or>
     t_pinned_cpu (((threads s)(ct := f (threads s ct))) t) = int d"
    using D(1,2) assms(4,5) by auto
  show "d \<in> insert c C \<Longrightarrow> t_state (((threads s)(ct := f (threads s ct))) t) \<noteq> THREAD_RUNNING"
    "d \<notin> insert c C \<Longrightarrow> live s t \<and> t_state (((threads s)(ct := f (threads s ct))) t) = THREAD_RUNNING"
    using D(3,4) same assms(6) by auto
qed (use runningD [OF assms(1)] assms(6) in \<open>auto split: if_splits\<close>)

lemma cpus_ok_other:
  assumes "kinv L C s" and "t_state (threads s t) \<noteq> THREAD_RUNNING"
    and "t_curr_cpu (f (threads s t)) = t_curr_cpu (threads s t)"
    and "t_pinned_cpu (f (threads s t)) = t_pinned_cpu (threads s t)"
    and "t_state (f (threads s t)) \<noteq> THREAD_RUNNING"
  shows "cpus_ok C (upd_thread t f s)"
proof (rule cpus_okI; unfold upd_thread_simps live_simps)
  fix d x assume d: "current_thread s d = Some x"
  note D = currentD [OF assms(1) d]
  show "t_curr_cpu (((threads s)(t := f (threads s t))) x) = int d"
    "t_pinned_cpu (((threads s)(t := f (threads s t))) x) < 0 \<or>
     t_pinned_cpu (((threads s)(t := f (threads s t))) x) = int d"
    using D(1,2) assms(3,4) by auto
  show "d \<in> C \<Longrightarrow> t_state (((threads s)(t := f (threads s t))) x) \<noteq> THREAD_RUNNING"
    "d \<notin> C \<Longrightarrow> live s x \<and> t_state (((threads s)(t := f (threads s t))) x) = THREAD_RUNNING"
    using D(3,4) assms(2,5) by auto
qed (use runningD [OF assms(1)] assms(5) in \<open>auto split: if_splits\<close>)

text \<open>The current thread of \<open>c\<close> becomes ready, and is still to be queued.\<close>

lemma kinv_make_ready:
  assumes "kinv L C s" and "current_thread s c = Some ct" and "c \<notin> C"
    and "same_links (threads s ct) (f (threads s ct))" and "t_state (f (threads s ct)) = THREAD_READY"
    and "0 \<le> t_priority (f (threads s ct)) \<and> t_priority (f (threads s ct)) < NUM_PRIORITIES"
  shows "kinv (if thread_is_idle (threads s ct) then L else insert ct L) (insert c C) (upd_thread ct f s)"
proof -
  note I = kinvD [OF assms(1)]
  have ct: "live s ct" "t_state (threads s ct) = THREAD_RUNNING"
    using currentD(3) [OF assms(1,2,3)] by simp_all
  then have nd: "t_queue_node (threads s ct) = None" using queue_node_None [OF assms(1)] by simp
  note sl = assms(4) [unfolded same_links_def]
  have "queues_ok (upd_thread ct f s)" using I(1) sl by (auto simp: queues_ok_def)
  moreover have "wqs_ok (upd_thread ct f s)" using I(2) by (simp add: wqs_ok_def)
  moreover have "threads_ok (if thread_is_idle (threads s ct) then L else insert ct L) (upd_thread ct f s)"
    by (rule threads_okI [OF assms(1), where t = ct])
      (use thread_ok_self [OF assms(1), of ct] sl ct nd assms(4,5,6) in \<open>auto simp: thread_ok_def Let_def\<close>)
  moreover have "cpus_ok (insert c C) (upd_thread ct f s)"
    using cpus_ok_leave [OF assms(1,2,3)] sl assms(5) by simp
  moreover have "idle_ok (upd_thread ct f s)"
    using I(5) sl assms(4,5) by (auto simp: idle_ok_def)
  moreover have "preempt_ok (upd_thread ct f s)"
    using I(6) assms(4) by (auto simp: preempt_ok_def)
  moreover have "stack_timers_ok (upd_thread ct f s)"
    using I(7) ct assms(5) by (auto simp: stack_timers_ok_def)
  ultimately show ?thesis using I(8) by (simp add: kinv_def)
qed

text \<open>A loose thread is put in its run queue.\<close>

definition rq_put :: "tid \<Rightarrow> tid list \<Rightarrow> 'x kernel_scheme \<Rightarrow> 'x kernel_scheme" where
  "rq_put t xs s =
     (let p = nat (t_priority (threads s t));
          s = upd_thread t (\<lambda>th. th\<lparr>t_queue_node := Some (RunQ p)\<rparr>) s
      in s\<lparr>run_queue := (run_queue s)(p := xs), run_queue_bitmap := run_queue_bitmap s OR push_bit p 1\<rparr>)"

abbreviation rq_of :: "tid \<Rightarrow> 'x kernel_scheme \<Rightarrow> tid list" where
  "rq_of t s \<equiv> run_queue s (nat (t_priority (threads s t)))"

lemma kinv_rq_put:
  assumes "kinv L C s" and "t \<in> L" and "set xs = insert t (set (rq_of t s))" and "distinct xs"
  shows "kinv (L - {t}) C (rq_put t xs s)"
proof -
  note I = kinvD [OF assms(1)]
  define p where "p = nat (t_priority (threads s t))"
  let ?f = "\<lambda>th. th\<lparr>t_queue_node := Some (RunQ p)\<rparr>"
  let ?s = "rq_put t xs s"
  note T = thread_okD [OF assms(1), of t]
  have t: "live s t" "\<not> thread_is_idle (threads s t)" "t_state (threads s t) = THREAD_READY"
      "t_queue_node (threads s t) = None"
    using T(8) assms(2) by auto
  have p: "t_priority (threads s t) = int p" "p < 32" using T(2) t(1) by (auto simp: p_def)
  have eq: "?s = (upd_thread t ?f s)\<lparr>run_queue := (run_queue s)(p := xs),
      run_queue_bitmap := run_queue_bitmap s OR push_bit p 1\<rparr>"
    by (simp add: rq_put_def p_def Let_def)
  have lv: "live ?s = live s" by (simp add: eq live_def fun_eq_iff)
  have xs: "set xs = insert t (set (run_queue s p))" using assms(3) by (simp add: p_def)
  then have "xs \<noteq> []" by auto
  then have "queues_ok ?s"
    using I(1) xs assms(4) t(4) p(2) by (auto simp: queues_ok_def eq bit_simps)
  moreover have "wqs_ok ?s" using I(2) by (simp add: wqs_ok_def eq)
  moreover have "threads_ok (L - {t}) ?s"
    by (rule threads_okI [OF assms(1), where t = t])
      (use thread_ok_self [OF assms(1), of t] t p in \<open>auto simp: thread_ok_def Let_def lv, auto simp: eq\<close>)
  moreover have "cpus_ok C ?s"
    using cpus_ok_other [OF assms(1), of t ?f] t(3)
    by (subst cpus_ok_cong [where s = "upd_thread t ?f s"]) (simp_all add: eq)
  moreover have "idle_ok ?s" using I(5) unfolding idle_ok_def lv by (auto simp: eq)
  moreover have "preempt_ok ?s" using I(6) by (auto simp: preempt_ok_def eq)
  moreover have "stack_timers_ok ?s" using I(7) unfolding stack_timers_ok_def lv by (auto simp: eq)
  moreover have "timer_inv ?s" using I(8) by (simp add: timer_inv_def eq)
  ultimately show ?thesis by (simp add: kinv_def)
qed

lemma insert_in_run_queue_eq:
  assumes "kinv L C s" and "t \<in> L"
  shows "insert_in_run_queue_head t s = Some (rq_put t (t # rq_of t s) s)"
    and "insert_in_run_queue_tail t s = Some (rq_put t (rq_of t s @ [t]) s)"
  using thread_okD(1,2,8) [OF assms(1), of t] assms(2)
  by (simp_all add: insert_in_run_queue_head_def insert_in_run_queue_tail_def rq_put_def Let_def)

lemma insert_in_run_queue_ok:
  assumes "kinv L C s" and "t \<in> L"
  shows "kinv (L - {t}) C (rq_put t (t # rq_of t s) s)"
    and "kinv (L - {t}) C (rq_put t (rq_of t s @ [t]) s)"
proof -
  have "t \<notin> set (rq_of t s)" using thread_okD(8) [OF assms] run_queueD(1) [OF assms(1)] by simp
  then show "kinv (L - {t}) C (rq_put t (t # rq_of t s) s)" "kinv (L - {t}) C (rq_put t (rq_of t s @ [t]) s)"
    using run_queueD(2) [OF assms(1)] by (auto intro!: kinv_rq_put [OF assms])
qed

text \<open>The current thread of \<open>c\<close> joins the end of a wait queue.\<close>

definition wq_put :: "wqref \<Rightarrow> tid \<Rightarrow> 'x kernel_scheme \<Rightarrow> 'x kernel_scheme" where
  "wq_put w t s = upd_thread t (\<lambda>th. th\<lparr>t_queue_node := Some (WaitQ w), t_state := THREAD_BLOCKED,
       t_blocking_wait_queue := Some w, t_wait_queue_block_ret := NO_ERROR\<rparr>)
     (upd_wq w (\<lambda>q. q\<lparr>wq_list := wq_list q @ [t], wq_count := wq_count q + 1\<rparr>) s)"

lemma kinv_wq_put:
  assumes "kinv L C s" and "current_thread s c = Some ct" and "c \<notin> C"
    and "\<not> thread_is_idle (threads s ct)" and "wq_magic (wait_queues s w) = WAIT_QUEUE_MAGIC"
  shows "kinv L (insert c C) (wq_put w ct s)"
proof -
  note I = kinvD [OF assms(1)]
  let ?f = "\<lambda>th. th\<lparr>t_queue_node := Some (WaitQ w), t_state := THREAD_BLOCKED,
       t_blocking_wait_queue := Some w, t_wait_queue_block_ret := NO_ERROR\<rparr>"
  let ?s = "wq_put w ct s"
  have ct: "live s ct" "t_state (threads s ct) = THREAD_RUNNING"
    using currentD(3) [OF assms(1,2,3)] by simp_all
  then have nd: "t_queue_node (threads s ct) = None" "ct \<notin> L"
    using queue_node_None [OF assms(1)] thread_okD(8) [OF assms(1), of ct] by auto
  have lv: "live ?s = live s" by (simp add: wq_put_def)
  have "queues_ok ?s"
    using I(1) nd by (auto simp: queues_ok_def wq_put_def)
  moreover have "wqs_ok ?s" using I(2) assms(5) by (auto simp: wqs_ok_def wq_put_def)
  moreover have "threads_ok L ?s"
    by (rule threads_okI [OF assms(1), where t = ct])
      (use thread_ok_self [OF assms(1), of ct] ct nd assms(4) in \<open>auto simp: thread_ok_def Let_def wq_put_def\<close>)
  moreover have "cpus_ok (insert c C) ?s"
    using cpus_ok_leave [OF assms(1,2,3), of ?f]
    by (subst cpus_ok_cong [where s = "upd_thread ct ?f s"]) (simp_all add: wq_put_def)
  moreover have "idle_ok ?s" using I(5) assms(4) thread_okD(3) [OF assms(1) ct(1)]
    unfolding idle_ok_def lv by (auto simp: wq_put_def)
  moreover have "preempt_ok ?s" using I(6) by (auto simp: preempt_ok_def wq_put_def)
  moreover have "stack_timers_ok ?s" using I(7) ct unfolding stack_timers_ok_def lv by (auto simp: wq_put_def)
  moreover have "timer_inv ?s" using I(8) by (simp add: wq_put_def)
  ultimately show ?thesis by (simp add: kinv_def)
qed

text \<open>A waiting thread leaves its wait queue, with the status its wait returns.\<close>

definition wq_take :: "wqref \<Rightarrow> tid \<Rightarrow> status_t \<Rightarrow> 'x kernel_scheme \<Rightarrow> 'x kernel_scheme" where
  "wq_take w t err s = upd_thread t (\<lambda>th. th\<lparr>t_queue_node := None, t_state := THREAD_READY,
       t_wait_queue_block_ret := err, t_blocking_wait_queue := None\<rparr>)
     (upd_wq w (\<lambda>q. q\<lparr>wq_list := remove1 t (wq_list q), wq_count := wq_count q - 1\<rparr>) s)"

lemma waitingD:
  assumes "kinv L C s" and "t \<in> set (wq_list (wait_queues s w))"
  shows "live s t" "t_state (threads s t) = THREAD_BLOCKED" "t_blocking_wait_queue (threads s t) = Some w"
    "t_queue_node (threads s t) = Some (WaitQ w)" "wq_magic (wait_queues s w) = WAIT_QUEUE_MAGIC"
    "t \<notin> L" "\<not> thread_is_idle (threads s t)"
proof -
  show nd: "t_queue_node (threads s t) = Some (WaitQ w)" using wait_queueD(1) [OF assms(1)] assms(2) by simp
  then show st: "live s t" "t_state (threads s t) = THREAD_BLOCKED" "t_blocking_wait_queue (threads s t) = Some w"
    using thread_okD(5) [OF assms(1)] by simp_all
  show "wq_magic (wait_queues s w) = WAIT_QUEUE_MAGIC" by (rule wait_queueD(4) [OF assms(1) nd])
  show "t \<notin> L" using thread_okD(8) [OF assms(1), of t] nd by auto
  show "\<not> thread_is_idle (threads s t)"
    using thread_okD(3) [OF assms(1) st(1)] idleD(3) [OF assms(1)] st by fastforce
qed

lemma kinv_wq_take:
  assumes "kinv L C s" and "t \<in> set (wq_list (wait_queues s w))"
  shows "kinv (insert t L) C (wq_take w t err s)"
proof -
  note I = kinvD [OF assms(1)] and W = waitingD [OF assms]
  let ?f = "\<lambda>th. th\<lparr>t_queue_node := None, t_state := THREAD_READY,
       t_wait_queue_block_ret := err, t_blocking_wait_queue := None\<rparr>"
  let ?s = "wq_take w t err s"
  have lv: "live ?s = live s" by (simp add: wq_take_def)
  have "queues_ok ?s"
    using I(1) W(4) by (auto simp: queues_ok_def wq_take_def set_remove1_distinct)
  moreover have "wqs_ok ?s" using I(2) assms(2) W(5)
    by (auto simp: wqs_ok_def wq_take_def length_remove1 of_nat_diff Suc_le_eq dest: length_pos_if_in_set)
  moreover have "threads_ok (insert t L) ?s"
    by (rule threads_okI [OF assms(1), where t = t])
      (use thread_ok_self [OF assms(1), of t] W in \<open>auto simp: thread_ok_def Let_def wq_take_def\<close>)
  moreover have "cpus_ok C ?s"
    using cpus_ok_other [OF assms(1), of t ?f] W(2)
    by (subst cpus_ok_cong [where s = "upd_thread t ?f s"]) (simp_all add: wq_take_def)
  moreover have "idle_ok ?s" using I(5) unfolding idle_ok_def lv by (auto simp: wq_take_def)
  moreover have "preempt_ok ?s" using I(6) by (auto simp: preempt_ok_def wq_take_def)
  moreover have "stack_timers_ok ?s" using I(7) W(2) unfolding stack_timers_ok_def lv by (auto simp: wq_take_def)
  moreover have "timer_inv ?s" using I(8) by (simp add: wq_take_def)
  ultimately show ?thesis by (simp add: kinv_def)
qed

text \<open>Signals to other cpus change no part of the invariant.\<close>

lemma mp_reschedule_cases: "\<exists>xs. mp_reschedule m f cpu s = s\<lparr>ipis := xs\<rparr>"
  by (auto simp: mp_reschedule_def Let_def intro: exI [of _ "ipis s"])

lemma wakeup_cpu_cases: "\<exists>xs. wakeup_cpu_for_thread t cpu s = s\<lparr>ipis := xs\<rparr>"
  unfolding wakeup_cpu_for_thread_def Let_def by (auto intro: mp_reschedule_cases)

lemma kinv_ipis [simp]: "kinv L C (s\<lparr>ipis := xs\<rparr>) = kinv L C s"
  by (rule kinv_cong) simp_all

lemma kernel_more:
  fixes s s' :: "'x kernel_scheme"
  assumes "timer_sys.more s' = timer_sys.more s"
  shows "threads s' = threads s" "thread_list s' = thread_list s" "run_queue s' = run_queue s"
    "run_queue_bitmap s' = run_queue_bitmap s" "current_thread s' = current_thread s"
    "wait_queues s' = wait_queues s" "active_cpus s' = active_cpus s" "idle_cpus s' = idle_cpus s"
    "realtime_cpus s' = realtime_cpus s" "ipis s' = ipis s" "cpu_aspace s' = cpu_aspace s"
    "heap_freed s' = heap_freed s" "kernel.more s' = kernel.more s"
  using assms by (cases s; cases s'; simp)+

text \<open>A timer other than one of the scheduler's invariant in its present state is set or cancelled.\<close>

lemma kinv_timers:
  assumes "kinv L C s" and "timer_sys.more s' = timer_sys.more s"
    and "timer_inv s'" and "preempt_ok s'" and "stack_timers_ok s'"
  shows "kinv L C s'"
  using kinvD [OF assms(1)] assms(3-5) kernel_more [OF assms(2)]
  by (simp add: kinv_def queues_ok_cong [of s' s] wqs_ok_cong [of s' s] threads_ok_cong [of s' s]
      cpus_ok_cong [of s' s] idle_ok_cong [of s' s])

section \<open>Choosing the next thread\<close>

definition may_run :: "nat \<Rightarrow> 'x kernel_scheme \<Rightarrow> tid \<Rightarrow> bool" where
  "may_run cpu s t \<longleftrightarrow> t_pinned_cpu (threads s t) < 0 \<or> t_pinned_cpu (threads s t) = int cpu"

lemma find_split:
  "find P xs = Some x \<Longrightarrow> \<exists>as bs. xs = as @ x # bs \<and> P x \<and> (\<forall>a \<in> set as. \<not> P a)"
proof (induction xs)
  case (Cons y ys)
  show ?case
  proof (cases "P y")
    case True
    then show ?thesis using Cons.prems by (intro exI [of _ "[]"] exI [of _ ys]) auto
  next
    case False
    then obtain as bs where "ys = as @ x # bs \<and> P x \<and> (\<forall>a \<in> set as. \<not> P a)" using Cons by auto
    then show ?thesis using False by (intro exI [of _ "y # as"] exI [of _ bs]) auto
  qed
qed simp

text \<open>The loop tries the queues from the highest set bit down.\<close>

lemma get_top_loop_spec:
  "case get_top_loop P q bm of
     None \<Rightarrow> \<forall>p. bit bm p \<longrightarrow> find P (q p) = None
   | Some (p, t) \<Rightarrow> bit bm p \<and> find P (q p) = Some t \<and> (\<forall>p'>p. bit bm p' \<longrightarrow> find P (q p') = None)"
proof (induction P q bm rule: get_top_loop.induct)
  case (1 P q bm)
  let ?k = "31 - builtin_clz bm" and ?bm = "bm AND NOT (push_bit (31 - builtin_clz bm) 1)"
  show ?case
  proof (cases "bm = 0")
    case True
    then show ?thesis by (simp add: get_top_loop.simps)
  next
    case False
    then have k: "?k = log2_uint bm" by (simp add: log2_uint_def)
    note top = log2_uint_spec [OF False, folded k]
    show ?thesis
    proof (cases "find P (q ?k)")
      case None
      have eq: "get_top_loop P q bm = get_top_loop P q ?bm"
        using False None by (subst get_top_loop.simps) (simp add: Let_def)
      have b: "bit ?bm p \<longleftrightarrow> bit bm p \<and> p \<noteq> ?k" for p
        using top(2) by (auto simp: bit_simps dest: bit_u32_less)
      show ?thesis using 1 [OF False refl None] None top
        unfolding eq b by (fastforce split: option.splits)
    next
      case (Some t)
      then have eq: "get_top_loop P q bm = Some (?k, t)"
        using False by (subst get_top_loop.simps) (simp add: Let_def)
      have "bit bm p \<Longrightarrow> p \<le> ?k" for p by (rule top(3))
      then show ?thesis using Some top(1) unfolding eq by (auto simp: not_le [symmetric])
    qed
  qed
qed

lemma get_top_thread_cases:
  assumes "kinv L C s"
  obtains (idle) "get_top_thread cpu s = (IdleThread cpu, s)"
      "\<And>p t. t \<in> set (run_queue s p) \<Longrightarrow> \<not> may_run cpu s t"
  | (queued) p t as bs where "run_queue s p = as @ t # bs" "may_run cpu s t"
      "\<And>a. a \<in> set as \<Longrightarrow> \<not> may_run cpu s a"
      "\<And>p' a. p < p' \<Longrightarrow> a \<in> set (run_queue s p') \<Longrightarrow> \<not> may_run cpu s a"
      "get_top_thread cpu s = (t, (upd_thread t (\<lambda>th. th\<lparr>t_queue_node := None\<rparr>) s)
         \<lparr>run_queue := (run_queue s)(p := as @ bs),
          run_queue_bitmap := (if as @ bs = [] then run_queue_bitmap s AND NOT (push_bit p 1)
                               else run_queue_bitmap s)\<rparr>)"
proof -
  define r where "r = get_top_loop (may_run cpu s) (run_queue s) (run_queue_bitmap s)"
  have P: "(\<lambda>t. t_pinned_cpu (threads s t) < 0 \<or> t_pinned_cpu (threads s t) = int cpu) = may_run cpu s"
    by (simp add: may_run_def fun_eq_iff)
  note B = run_queueD(3) [OF assms]
  note spec = get_top_loop_spec [where P = "may_run cpu s" and q = "run_queue s" and bm = "run_queue_bitmap s",
    folded r_def]
  show thesis
  proof (cases r)
    case None
    have "\<not> may_run cpu s t" if "t \<in> set (run_queue s p)" for p t
    proof -
      have "run_queue s p \<noteq> []" using that by auto
      then show ?thesis using spec None B [of p] that by (simp add: find_None_iff)
    qed
    moreover have "get_top_thread cpu s = (IdleThread cpu, s)"
      using None by (simp add: get_top_thread_def P r_def)
    ultimately show thesis by (rule idle [rotated])
  next
    case (Some pt)
    obtain p t where r: "r = Some (p, t)" using Some by (cases pt) simp
    have f: "find (may_run cpu s) (run_queue s p) = Some t" using spec r by simp
    from find_split [OF this] obtain as bs where
      q: "run_queue s p = as @ t # bs" "may_run cpu s t" "\<forall>a \<in> set as. \<not> may_run cpu s a" by blast
    have hi: "\<not> may_run cpu s a" if "p < p'" "a \<in> set (run_queue s p')" for p' a
    proof -
      have "run_queue s p' \<noteq> []" using that by auto
      then show ?thesis using spec r B [of p'] that by (simp add: find_None_iff)
    qed
    have "t \<notin> set as" using run_queueD(2) [OF assms, of p] q(1) by auto
    then have rem: "remove1 t (run_queue s p) = as @ bs" by (simp add: q(1) remove1_append)
    have gt: "get_top_thread cpu s = (t, (upd_thread t (\<lambda>th. th\<lparr>t_queue_node := None\<rparr>) s)
         \<lparr>run_queue := (run_queue s)(p := as @ bs),
          run_queue_bitmap := (if as @ bs = [] then run_queue_bitmap s AND NOT (push_bit p 1)
                               else run_queue_bitmap s)\<rparr>)"
      using r rem by (simp add: get_top_thread_def P r_def [symmetric] Let_def)
    show thesis by (rule queued [OF q(1,2) _ _ gt]) (use q(3) hi in blast)+
  qed
qed

section \<open>Switching threads\<close>

text \<open>A thread that was just taken for cpu \<open>c\<close>: loose if it came from a run queue.\<close>

definition chosen :: "tid set \<Rightarrow> nat \<Rightarrow> tid \<Rightarrow> 'x kernel_scheme \<Rightarrow> bool" where
  "chosen L c new s \<longleftrightarrow> L \<subseteq> {new} \<and> live s new \<and> t_state (threads s new) = THREAD_READY
     \<and> t_queue_node (threads s new) = None \<and> may_run c s new
     \<and> (thread_is_idle (threads s new) \<longleftrightarrow> new = IdleThread c)"

lemma idle_ready:
  assumes "kinv L C s" and "current_thread s c \<noteq> None" and "C = {c}"
  shows "live s (IdleThread c)" "t_state (threads s (IdleThread c)) = THREAD_READY"
proof -
  show lv: "live s (IdleThread c)" using idleD(1) [OF assms(1)] assms(2) by simp
  have "t_state (threads s (IdleThread c)) \<noteq> THREAD_RUNNING"
  proof
    assume r: "t_state (threads s (IdleThread c)) = THREAD_RUNNING"
    then obtain d where d: "current_thread s d = Some (IdleThread c)"
      using runningD [OF assms(1) lv] by blast
    have "d \<notin> C" using currentD(4) [OF assms(1) d] r by blast
    with current_idle [OF assms(1) d] assms(3) show False by simp
  qed
  then show "t_state (threads s (IdleThread c)) = THREAD_READY" using idleD(3) [OF assms(1) lv] by simp
qed

text \<open>Taking a thread out of its run queue makes it loose.\<close>

lemma kinv_rq_take:
  assumes "kinv {} C s" and "run_queue s p = as @ t # bs"
  defines "s' \<equiv> (upd_thread t (\<lambda>th. th\<lparr>t_queue_node := None\<rparr>) s)
         \<lparr>run_queue := (run_queue s)(p := as @ bs),
          run_queue_bitmap := (if as @ bs = [] then run_queue_bitmap s AND NOT (push_bit p 1)
                               else run_queue_bitmap s)\<rparr>"
  shows "kinv {t} C s'"
proof -
  note I = kinvD [OF assms(1)]
  let ?f = "\<lambda>th. th\<lparr>t_queue_node := None\<rparr>"
  have inq: "t \<in> set (run_queue s p)" by (simp add: assms(2))
  then have nd: "t_queue_node (threads s t) = Some (RunQ p)" using run_queueD(1) [OF assms(1)] by simp
  have p: "p < 32" by (rule run_queue_bound [OF assms(1) inq])
  have dq: "t \<notin> set as" "t \<notin> set bs" "distinct (as @ bs)"
    using run_queueD(2) [OF assms(1), of p] by (auto simp: assms(2))
  note T = thread_okD(4) [OF assms(1) nd]
  have lv: "live s' = live s" by (simp add: s'_def live_def fun_eq_iff)
  have "queues_ok s'" unfolding queues_ok_def
  proof (intro conjI allI)
    fix q x
    have "x \<in> set (run_queue s q) \<longleftrightarrow> t_queue_node (threads s x) = Some (RunQ q)"
      by (rule run_queueD(1) [OF assms(1)])
    then show "x \<in> set (run_queue s' q) \<longleftrightarrow> t_queue_node (threads s' x) = Some (RunQ q)"
      using dq nd assms(2) by (auto simp: s'_def)
  next
    fix w x
    show "x \<in> set (wq_list (wait_queues s' w)) \<longleftrightarrow> t_queue_node (threads s' x) = Some (WaitQ w)"
      using wait_queueD(1) [OF assms(1), of x w] nd by (auto simp: s'_def)
  next
    fix q show "distinct (run_queue s' q)"
      using run_queueD(2) [OF assms(1), of q] dq(3) by (auto simp: s'_def)
  next
    fix w show "distinct (wq_list (wait_queues s' w))"
      using wait_queueD(2) [OF assms(1), of w] by (simp add: s'_def)
  next
    fix q show "bit (run_queue_bitmap s') q \<longleftrightarrow> run_queue s' q \<noteq> []"
      using run_queueD(3) [OF assms(1), of q] p assms(2)
      by (auto simp: s'_def bit_simps dest: bit_u32_less)
  qed
  moreover have "wqs_ok s'" using I(2) by (simp add: wqs_ok_def s'_def)
  moreover have "threads_ok {t} s'"
    by (rule threads_okI [OF assms(1), where t = t])
      (use thread_ok_self [OF assms(1), of t] T nd in \<open>auto simp: thread_ok_def Let_def lv, auto simp: s'_def\<close>)
  moreover have "cpus_ok C s'"
    using cpus_ok_other [OF assms(1), of t ?f] T
    by (subst cpus_ok_cong [where s = "upd_thread t ?f s"]) (simp_all add: s'_def)
  moreover have "idle_ok s'" using I(5) unfolding idle_ok_def lv by (auto simp: s'_def)
  moreover have "preempt_ok s'" using I(6) by (auto simp: preempt_ok_def s'_def)
  moreover have "stack_timers_ok s'" using I(7) unfolding stack_timers_ok_def lv by (auto simp: s'_def)
  moreover have "timer_inv s'" using I(8) by (simp add: timer_inv_def s'_def)
  ultimately show ?thesis by (simp add: kinv_def)
qed

lemma kinv_get_top:
  assumes "kinv {} {c} s" and "current_thread s c \<noteq> None" and "get_top_thread c s = (new, s')"
  shows "\<exists>L. kinv L {c} s' \<and> chosen L c new s'"
  using assms(1)
proof (cases rule: get_top_thread_cases [where cpu = c])
  case idle
  then have "new = IdleThread c" "s' = s" using assms(3) by simp_all
  moreover have "chosen {} c (IdleThread c) s"
    using idle_ready [OF assms(1,2) refl] idle_queue_node [OF assms(1)] idleD(2) [OF assms(1)]
      thread_okD(3) [OF assms(1), of "IdleThread c"]
    by (auto simp: chosen_def may_run_def)
  ultimately show ?thesis using assms(1) by blast
next
  case (queued p t as bs)
  have "t_queue_node (threads s t) = Some (RunQ p)"
    using run_queueD(1) [OF assms(1), of t p] queued(1) by simp
  note T = thread_okD(4) [OF assms(1) this]
  have "chosen {t} c t s'" "new = t"
    using T queued(2,5) assms(3) thread_okD(3) [OF assms(1), of t]
    by (auto simp: chosen_def may_run_def live_def)
  moreover have "kinv {t} {c} s'"
    using kinv_rq_take [OF assms(1) queued(1)] queued(5) assms(3) by simp
  ultimately show ?thesis by blast
qed

text \<open>
  The state after the switch from \<open>old\<close> to \<open>new\<close> on cpu \<open>c\<close>, as far as the invariant reads it.
\<close>

definition switched :: "nat \<Rightarrow> tid \<Rightarrow> tid \<Rightarrow> 'x kernel_scheme \<Rightarrow> 'x kernel_scheme \<Rightarrow> bool" where
  "switched c old new s s' \<longleftrightarrow>
     (\<exists>q. threads s' = (\<lambda>t. if t = new then (threads s new)\<lparr>t_state := THREAD_RUNNING,
              t_remaining_quantum := q, t_curr_cpu := int c\<rparr>
            else if t = old then (threads s old)\<lparr>t_curr_cpu := - 1\<rparr> else threads s t)) \<and>
     current_thread s' = (current_thread s)(c \<mapsto> new) \<and>
     thread_list s' = thread_list s \<and> run_queue s' = run_queue s \<and>
     run_queue_bitmap s' = run_queue_bitmap s \<and> wait_queues s' = wait_queues s \<and>
     active_cpus s' = active_cpus s \<and> heap_freed s' = heap_freed s \<and> ipis s' = ipis s \<and>
     kernel.more s' = kernel.more s \<and>
     (\<forall>d. d \<noteq> c \<longrightarrow> (bit (idle_cpus s') d \<longleftrightarrow> bit (idle_cpus s) d)) \<and>
     (bit (active_cpus s) c \<longrightarrow> (bit (idle_cpus s') c \<longleftrightarrow> thread_is_idle (threads s new))) \<and>
     (\<forall>m. m \<noteq> PreemptTimer c \<longrightarrow> timers s' m = timers s m) \<and> timer_inv s' \<and>
     tm_magic (timers s' (PreemptTimer c)) = TIMER_MAGIC \<and>
     (if thread_is_real_time_or_idle (threads s new) then tm_node (timers s' (PreemptTimer c)) = None
      else tm_node (timers s' (PreemptTimer c)) = Some c
        \<and> tm_callback (timers s' (PreemptTimer c)) = Some CB_thread_timer_tick
        \<and> tm_periodic_time (timers s' (PreemptTimer c)) > 0)"

lemma chosen_not_current:
  assumes "kinv L {c} s" and "chosen L c new s" and "current_thread s d = Some new"
  shows "d = c"
  using currentD(3) [OF assms(1,3)] assms(2) by (auto simp: chosen_def)

lemma kinv_switched:
  assumes inv: "kinv L {c} s" and cur: "current_thread s c = Some old" and ch: "chosen L c new s"
    and sw: "switched c old new s s'"
  shows "sched_inv s'"
proof -
  note I = kinvD [OF inv] and C = ch [unfolded chosen_def]
  obtain q where th: "\<And>t. threads s' t = (if t = new then (threads s new)\<lparr>t_state := THREAD_RUNNING,
              t_remaining_quantum := q, t_curr_cpu := int c\<rparr>
            else if t = old then (threads s old)\<lparr>t_curr_cpu := - 1\<rparr> else threads s t)"
    using sw unfolding switched_def by metis
  have cu: "current_thread s' = (current_thread s)(c \<mapsto> new)"
    and eqs: "thread_list s' = thread_list s" "run_queue s' = run_queue s"
      "run_queue_bitmap s' = run_queue_bitmap s" "wait_queues s' = wait_queues s"
    and ac: "active_cpus s' = active_cpus s"
    and mk: "\<And>d. d \<noteq> c \<Longrightarrow> bit (idle_cpus s') d \<longleftrightarrow> bit (idle_cpus s) d"
      "bit (active_cpus s) c \<Longrightarrow> bit (idle_cpus s') c \<longleftrightarrow> thread_is_idle (threads s new)"
    and tm: "\<And>m. m \<noteq> PreemptTimer c \<Longrightarrow> timers s' m = timers s m" "timer_inv s'"
    using sw unfolding switched_def by blast+
  have lv: "live s' = live s" by (rule live_cong [OF eqs(1)])
  have node: "t_queue_node (threads s' t) = t_queue_node (threads s t)"
    and flag: "thread_is_idle (threads s' t) = thread_is_idle (threads s t)"
      "thread_is_real_time_or_idle (threads s' t) = thread_is_real_time_or_idle (threads s t)"
    and pin: "t_pinned_cpu (threads s' t) = t_pinned_cpu (threads s t)"
    and st: "t_state (threads s' t) = (if t = new then THREAD_RUNNING else t_state (threads s t))" for t
    by (simp_all add: th)
  have "queues_ok s'" using I(1) by (simp add: queues_ok_def eqs node)
  moreover have "wqs_ok s'" using I(2) by (simp add: wqs_ok_def eqs)
  moreover have "threads_ok {} s'" unfolding threads_ok_def
  proof (intro conjI allI)
    show "distinct (thread_list s')" using I(3) by (simp add: eqs threads_ok_def)
    fix t
    have "thread_ok L s t" using I(3) by (simp add: threads_ok_def)
    then show "thread_ok {} s' t" using C by (auto simp: thread_ok_def Let_def lv th)
  qed
  moreover have "cpus_ok {} s'"
  proof (rule cpus_okI)
    fix d t assume "current_thread s' d = Some t"
    then have d: "if d = c then t = new else current_thread s d = Some t" by (auto simp: cu split: if_splits)
    have ne: "d \<noteq> c \<Longrightarrow> t \<noteq> new \<and> t \<noteq> old"
      using d chosen_not_current [OF inv ch] current_unique [OF inv cur] by auto
    show "t_curr_cpu (threads s' t) = int d"
      using d ne currentD(1) [OF inv, of d t] by (auto simp: th split: if_splits)
    show "t_pinned_cpu (threads s' t) < 0 \<or> t_pinned_cpu (threads s' t) = int d"
      using d currentD(2) [OF inv, of d t] C by (auto simp: pin may_run_def split: if_splits)
    show "live s' t \<and> t_state (threads s' t) = THREAD_RUNNING"
      using d ne currentD(3) [OF inv, of d t] C by (auto simp: st lv split: if_splits)
  next
    fix t assume t: "live s' t" "t_state (threads s' t) = THREAD_RUNNING"
    show "\<exists>d. current_thread s' d = Some t"
    proof (cases "t = new")
      case True
      then show ?thesis by (auto simp: cu)
    next
      case False
      then have r: "live s t" "t_state (threads s t) = THREAD_RUNNING" using t by (simp_all add: st lv)
      then obtain d where d: "current_thread s d = Some t" using runningD [OF inv] by blast
      then have "d \<noteq> c" using currentD(4) [OF inv d] r by auto
      then show ?thesis using d by (auto simp: cu)
    qed
  qed simp
  moreover have "idle_ok s'"
    unfolding idle_ok_def
  proof (intro conjI allI impI)
    fix d show "live s' (IdleThread d) \<longleftrightarrow> current_thread s' d \<noteq> None"
      using idleD(1) [OF inv, of d] cur by (auto simp: lv cu)
    assume "live s' (IdleThread d)"
    then show "t_pinned_cpu (threads s' (IdleThread d)) = int d"
      "t_state (threads s' (IdleThread d)) \<in> {THREAD_READY, THREAD_RUNNING}"
      using idleD(2,3) [OF inv, of d] by (auto simp: lv pin st)
  next
    fix d t assume "current_thread s' d = Some t \<and> bit (active_cpus s') d"
    then show "bit (idle_cpus s') d \<longleftrightarrow> thread_is_idle (threads s' t)"
      using idleD(4) [OF inv, of d] mk by (auto simp: cu ac flag split: if_splits)
  qed
  moreover have "preempt_ok s'"
  proof -
    have mg: "tm_magic (timers s' (PreemptTimer c)) = TIMER_MAGIC"
      and pt: "if thread_is_real_time_or_idle (threads s new) then tm_node (timers s' (PreemptTimer c)) = None
        else tm_node (timers s' (PreemptTimer c)) = Some c
          \<and> tm_callback (timers s' (PreemptTimer c)) = Some CB_thread_timer_tick
          \<and> tm_periodic_time (timers s' (PreemptTimer c)) > 0"
      using sw unfolding switched_def by blast+
    have P: "(current_thread s' d \<noteq> None \<longrightarrow> tm_magic (timers s' (PreemptTimer d)) = TIMER_MAGIC) \<and>
        (\<forall>e. tm_node (timers s' (PreemptTimer d)) = Some e \<longrightarrow>
          e = d \<and> tm_callback (timers s' (PreemptTimer d)) = Some CB_thread_timer_tick
          \<and> tm_periodic_time (timers s' (PreemptTimer d)) > 0) \<and>
        (\<forall>t. current_thread s' d = Some t \<longrightarrow>
          (tm_node (timers s' (PreemptTimer d)) = None \<longleftrightarrow> thread_is_real_time_or_idle (threads s' t)))" for d
    proof (cases "d = c")
      case True
      then show ?thesis using mg pt by (auto simp: cu flag split: if_splits)
    next
      case False
      then show ?thesis using I(6) tm(1) [of "PreemptTimer d"] by (auto simp: preempt_ok_def cu flag)
    qed
    then show ?thesis unfolding preempt_ok_def by blast
  qed
  moreover have "stack_timers_ok s'"
    using I(7) C unfolding stack_timers_ok_def by (auto simp: lv st tm(1))
  ultimately show ?thesis using tm(2) by (simp add: kinv_def)
qed

lemma switch_preempt_timer_ok:
  assumes inv: "kinv L {c} s0" and cur: "current_thread s0 c = Some old"
    and tm: "timers s = timers s0" "timer_queue s = timer_queue s0"
    and old: "thread_is_real_time_or_idle (threads s old) = thread_is_real_time_or_idle (threads s0 old)"
  shows "\<exists>s'. switch_preempt_timer old new c s = Some s' \<and> timer_sys.more s' = timer_sys.more s
           \<and> timer_inv s' \<and> (\<forall>m. m \<noteq> PreemptTimer c \<longrightarrow> timers s' m = timers s m)
           \<and> tm_magic (timers s' (PreemptTimer c)) = TIMER_MAGIC
           \<and> (if thread_is_real_time_or_idle (threads s new) then tm_node (timers s' (PreemptTimer c)) = None
              else tm_node (timers s' (PreemptTimer c)) = Some c
                \<and> tm_callback (timers s' (PreemptTimer c)) = Some CB_thread_timer_tick
                \<and> tm_periodic_time (timers s' (PreemptTimer c)) > 0)"
proof -
  have ti: "timer_inv s" using kinvD(8) [OF inv] timer_inv_cong [OF tm] by simp
  note P = kinvD(6) [OF inv, unfolded preempt_ok_def]
  have mg: "tm_magic (timers s (PreemptTimer c)) = TIMER_MAGIC" using P cur by (simp add: tm)
  have nd: "tm_node (timers s (PreemptTimer c)) = None \<longleftrightarrow> thread_is_real_time_or_idle (threads s old)"
    using P cur by (simp add: tm old)
  have q: "tm_node (timers s (PreemptTimer c)) \<noteq> None \<Longrightarrow> tm_node (timers s (PreemptTimer c)) = Some c
        \<and> tm_callback (timers s (PreemptTimer c)) = Some CB_thread_timer_tick
        \<and> tm_periodic_time (timers s (PreemptTimer c)) > 0"
    using P by (auto simp: tm)
  note cancel = timer_cancel_ok [OF ti mg, of c]
  note set = timer_set_ok [OF ti mg, of 10 10 CB_thread_timer_tick c]
  show ?thesis
  proof (cases "thread_is_real_time_or_idle (threads s new)")
    case True
    then show ?thesis using cancel ti mg nd
      by (cases "thread_is_real_time_or_idle (threads s old)")
        (fastforce simp: switch_preempt_timer_def)+
  next
    case False
    show ?thesis
    proof (cases "thread_is_real_time_or_idle (threads s old)")
      case True
      then have "tm_node (timers s (PreemptTimer c)) = None" using nd by simp
      from set [OF this] obtain s' where "timer_set (PreemptTimer c) 10 10 CB_thread_timer_tick c s = Some s'" "timer_inv s'"
          "tm_node (timers s' (PreemptTimer c)) = Some c"
          "tm_callback (timers s' (PreemptTimer c)) = Some CB_thread_timer_tick"
          "tm_periodic_time (timers s' (PreemptTimer c)) = 10"
          "\<forall>x. x \<noteq> PreemptTimer c \<longrightarrow> timers s' x = timers s x" "timer_sys.more s' = timer_sys.more s"
        by blast
      moreover have "tm_magic (timers s' (PreemptTimer c)) = TIMER_MAGIC"
        using timer_invD(3) [OF \<open>timer_inv s'\<close>] \<open>tm_node (timers s' (PreemptTimer c)) = Some c\<close> by blast
      ultimately show ?thesis using False True
        by (auto simp: switch_preempt_timer_def timer_set_periodic_def)
    next
      case notrt: False
      then show ?thesis using False q nd ti mg by (simp add: switch_preempt_timer_def)
    qed
  qed
qed

text \<open>
  The reschedule routine: in a critical section in which the current thread of cpu \<open>c\<close> has left the
  running state, it succeeds, restores the invariant, and only switches to the thread
  \<^verbatim>\<open>get_top_thread\<close> finds.
\<close>

lemma thread_resched_switched:
  assumes inv: "kinv {} {c} s" and cur: "current_thread s c = Some old"
    and gt: "get_top_thread c s = (new, s1)"
  shows "\<exists>s'. thread_resched c s = Some s' \<and> switched c old new s1 s'"
proof -
  obtain L where inv1: "kinv L {c} s1" and ch: "chosen L c new s1"
    using kinv_get_top [OF inv _ gt] cur by blast
  have ns: "t_state (threads s old) \<noteq> THREAD_RUNNING" using currentD(4) [OF inv cur] by simp
  have cur1: "current_thread s1 c = Some old"
    using gt cur by (auto simp: get_top_thread_def Let_def split: option.splits if_splits)
  show ?thesis
  proof (cases "new = old")
    case True
    let ?s = "upd_thread new (\<lambda>th. th\<lparr>t_state := THREAD_RUNNING\<rparr>) s1"
    have "threads ?s = (\<lambda>t. if t = new then (threads s1 new)\<lparr>t_state := THREAD_RUNNING,
        t_remaining_quantum := t_remaining_quantum (threads s1 new), t_curr_cpu := int c\<rparr>
        else if t = old then (threads s1 old)\<lparr>t_curr_cpu := - 1\<rparr> else threads s1 t)"
      using currentD(1) [OF inv1 cur1] True by (auto simp: fun_eq_iff)
    moreover have "(current_thread s1)(c \<mapsto> new) = current_thread s1" using cur1 True by auto
    ultimately have "switched c old new s1 ?s"
      using kinvD(8) [OF inv1] preemptD [OF inv1 cur1] cur1 idleD(4) [OF inv1 cur1] True
      unfolding switched_def by (intro conjI exI [of _ "t_remaining_quantum (threads s1 new)"]) simp_all
    moreover have "thread_resched c s = Some ?s"
      using cur ns gt True by (simp add: thread_resched_def Let_def)
    ultimately show ?thesis by blast
  next
    case False
    define f :: "thread \<Rightarrow> thread" where "f = (\<lambda>th. th\<lparr>t_state := THREAD_RUNNING,
        t_remaining_quantum := (if t_remaining_quantum th \<le> 0 then 5 else t_remaining_quantum th),
        t_curr_cpu := int c\<rparr>)"
    define s2 where "s2 = s1\<lparr>threads := (threads s1)(old := (threads s1 old)\<lparr>t_curr_cpu := - 1\<rparr>,
        new := f (threads s1 new))\<rparr>"
    define s3 where "s3 = (if thread_is_idle (threads s1 new) then mp_set_cpu_idle c s2 else mp_set_cpu_busy c s2)"
    define s4 where "s4 = (if thread_is_realtime (f (threads s1 new)) then mp_set_cpu_realtime c s3
        else mp_set_cpu_non_realtime c s3)"
    have fl: "thread_is_idle (f th) = thread_is_idle th"
      "thread_is_real_time_or_idle (f th) = thread_is_real_time_or_idle th" for th
      by (simp_all add: f_def)
    have th4: "threads s4 = (threads s1)(old := (threads s1 old)\<lparr>t_curr_cpu := - 1\<rparr>, new := f (threads s1 new))"
      and tm4: "timers s4 = timers s1" "timer_queue s4 = timer_queue s1"
      and eq4: "current_thread s4 = current_thread s1" "thread_list s4 = thread_list s1"
        "run_queue s4 = run_queue s1" "run_queue_bitmap s4 = run_queue_bitmap s1"
        "wait_queues s4 = wait_queues s1" "active_cpus s4 = active_cpus s1"
        "heap_freed s4 = heap_freed s1" "ipis s4 = ipis s1" "kernel.more s4 = kernel.more s1"
      by (simp_all add: s4_def s3_def s2_def mp_set_cpu_idle_def mp_set_cpu_busy_def
          mp_set_cpu_realtime_def mp_set_cpu_non_realtime_def)
    have id4: "idle_cpus s4 = (if thread_is_idle (threads s1 new) then idle_cpus s1 OR push_bit c 1
        else idle_cpus s1 AND NOT (push_bit c 1))"
      by (simp add: s4_def s3_def s2_def mp_set_cpu_idle_def mp_set_cpu_busy_def
          mp_set_cpu_realtime_def mp_set_cpu_non_realtime_def)
    obtain s5 where s5: "switch_preempt_timer old new c s4 = Some s5" "timer_sys.more s5 = timer_sys.more s4"
        "timer_inv s5" "\<forall>m. m \<noteq> PreemptTimer c \<longrightarrow> timers s5 m = timers s4 m"
        "tm_magic (timers s5 (PreemptTimer c)) = TIMER_MAGIC"
        "if thread_is_real_time_or_idle (threads s4 new) then tm_node (timers s5 (PreemptTimer c)) = None
         else tm_node (timers s5 (PreemptTimer c)) = Some c
           \<and> tm_callback (timers s5 (PreemptTimer c)) = Some CB_thread_timer_tick
           \<and> tm_periodic_time (timers s5 (PreemptTimer c)) > 0"
      using switch_preempt_timer_ok [OF inv1 cur1 tm4, of new] False by (auto simp: th4)
    note more = kernel_more [OF s5(2)]
    define s6 where "s6 = s5\<lparr>current_thread := (current_thread s5)(c \<mapsto> new)\<rparr>"
    define s7 where "s7 = (if t_aspace (threads s6 new) \<noteq> t_aspace (threads s6 old)
      then s6\<lparr>cpu_aspace := (cpu_aspace s6)(c := t_aspace (threads s6 new))\<rparr> else s6)"
    let ?run = "upd_thread new (\<lambda>th. th\<lparr>t_state := THREAD_RUNNING\<rparr>) s1"
    let ?mark = "\<lambda>s. upd_thread new (\<lambda>th. th\<lparr>t_curr_cpu := int c\<rparr>) (upd_thread old (\<lambda>th. th\<lparr>t_curr_cpu := - 1\<rparr>) s)"
    have seq: "t_remaining_quantum (threads s1 new) \<le> 0 \<Longrightarrow>
          ?mark (upd_thread new (\<lambda>th. th\<lparr>t_remaining_quantum := 5\<rparr>) ?run) = s2"
        "\<not> t_remaining_quantum (threads s1 new) \<le> 0 \<Longrightarrow> ?mark ?run = s2"
      using False by (simp_all add: s2_def upd_thread_def f_def fun_upd_twist)
    have th2: "threads s2 new = f (threads s1 new)" "threads (mp_set_cpu_idle c s2) new = f (threads s1 new)"
        "threads (mp_set_cpu_busy c s2) new = f (threads s1 new)"
      by (simp_all add: s2_def mp_set_cpu_idle_def mp_set_cpu_busy_def)
    have "thread_resched c s = Some s7"
      using cur ns gt False seq s5(1) [unfolded s4_def s3_def]
      by (cases "t_remaining_quantum (threads s1 new) \<le> 0"; cases "thread_is_idle (threads s1 new)";
          cases "thread_is_realtime (f (threads s1 new))")
        (simp_all add: thread_resched_def Let_def s7_def s6_def fl th2)
    moreover have "switched c old new s1 s7"
      unfolding switched_def
    proof (intro conjI allI impI exI)
      show "threads s7 = (\<lambda>t. if t = new then (threads s1 new)\<lparr>t_state := THREAD_RUNNING,
          t_remaining_quantum := (if t_remaining_quantum (threads s1 new) \<le> 0 then 5
            else t_remaining_quantum (threads s1 new)), t_curr_cpu := int c\<rparr>
          else if t = old then (threads s1 old)\<lparr>t_curr_cpu := - 1\<rparr> else threads s1 t)"
        by (auto simp: s7_def s6_def more(1) th4 f_def fun_eq_iff)
      show "current_thread s7 = (current_thread s1)(c \<mapsto> new)"
        by (simp add: s7_def s6_def more(5) eq4)
      show "bit (idle_cpus s7) d = bit (idle_cpus s1) d" if "d \<noteq> c" for d
        using that by (auto simp: s7_def s6_def more(8) id4 bit_simps dest: bit_u32_less)
      show "bit (idle_cpus s7) c = thread_is_idle (threads s1 new)" if "bit (active_cpus s1) c"
        using bit_u32_less [OF that] by (auto simp: s7_def s6_def more(8) id4 bit_simps)
      show "timers s7 m = timers s1 m" if "m \<noteq> PreemptTimer c" for m
        using s5(4) that by (simp add: s7_def s6_def tm4)
      show "timer_inv s7" using s5(3) by (simp add: s7_def s6_def timer_inv_def)
      show "if thread_is_real_time_or_idle (threads s1 new) then tm_node (timers s7 (PreemptTimer c)) = None
         else tm_node (timers s7 (PreemptTimer c)) = Some c
           \<and> tm_callback (timers s7 (PreemptTimer c)) = Some CB_thread_timer_tick
           \<and> tm_periodic_time (timers s7 (PreemptTimer c)) > 0"
        using s5(6) by (simp add: s7_def s6_def th4 fl)
    qed (simp_all add: s7_def s6_def more eq4 s5(5))
    ultimately show ?thesis by blast
  qed
qed

text \<open>The fields of a thread that scheduling never changes.\<close>

definition same_thread :: "thread \<Rightarrow> thread \<Rightarrow> bool" where
  "same_thread th th' \<longleftrightarrow> t_magic th' = t_magic th \<and> t_priority th' = t_priority th \<and> t_flags th' = t_flags th
     \<and> t_pinned_cpu th' = t_pinned_cpu th \<and> t_aspace th' = t_aspace th
     \<and> t_blocking_wait_queue th' = t_blocking_wait_queue th
     \<and> t_wait_queue_block_ret th' = t_wait_queue_block_ret th
     \<and> t_stack th' = t_stack th \<and> t_stack_size th' = t_stack_size th \<and> t_entry th' = t_entry th
     \<and> t_arg th' = t_arg th \<and> t_retcode th' = t_retcode th \<and> t_tls th' = t_tls th \<and> t_name th' = t_name th"

definition resched_frame :: "nat \<Rightarrow> tid \<Rightarrow> 'x kernel_scheme \<Rightarrow> 'x kernel_scheme \<Rightarrow> bool" where
  "resched_frame c new s s' \<longleftrightarrow>
     current_thread s' = (current_thread s)(c \<mapsto> new) \<and> wait_queues s' = wait_queues s \<and>
     thread_list s' = thread_list s \<and> heap_freed s' = heap_freed s \<and> ipis s' = ipis s \<and>
     active_cpus s' = active_cpus s \<and> kernel.more s' = kernel.more s \<and>
     (\<forall>m. m \<noteq> PreemptTimer c \<longrightarrow> timers s' m = timers s m) \<and>
     (\<forall>t. t_state (threads s' t) = (if t = new then THREAD_RUNNING else t_state (threads s t))) \<and>
     (\<forall>t. same_thread (threads s t) (threads s' t))"

lemma thread_resched_ok:
  assumes inv: "kinv {} {c} s" and cur: "current_thread s c = Some old"
  shows "\<exists>s'. thread_resched c s = Some s' \<and> sched_inv s' \<and> resched_frame c (fst (get_top_thread c s)) s s'"
proof -
  obtain new s1 where gt: "get_top_thread c s = (new, s1)" by (cases "get_top_thread c s")
  obtain L where inv1: "kinv L {c} s1" and ch: "chosen L c new s1"
    using kinv_get_top [OF inv _ gt] cur by blast
  obtain s' where s': "thread_resched c s = Some s'" and sw: "switched c old new s1 s'"
    using thread_resched_switched [OF inv cur gt] by blast
  have s1: "current_thread s1 = current_thread s" "wait_queues s1 = wait_queues s" "thread_list s1 = thread_list s"
      "heap_freed s1 = heap_freed s" "ipis s1 = ipis s" "active_cpus s1 = active_cpus s"
      "kernel.more s1 = kernel.more s" "timers s1 = timers s"
      "\<And>t. threads s1 t = (threads s t)\<lparr>t_queue_node := t_queue_node (threads s1 t)\<rparr>"
    using gt by (auto simp: get_top_thread_def Let_def split: option.splits if_splits)
  have th1: "t_state (threads s1 t) = t_state (threads s t)" "same_thread (threads s t) (threads s1 t)" for t
    by (subst s1(9), simp add: same_thread_def)+
  have "sched_inv s'" using kinv_switched [OF inv1 _ ch sw] cur by (simp add: s1)
  moreover have "resched_frame c new s s'"
    using sw th1 unfolding switched_def resched_frame_def s1(1-8)
    by (elim conjE exE) (simp add: same_thread_def)
  ultimately show ?thesis using s' gt by auto
qed

end
