(* ===== verification/Thread_Ops.thy ===== *)
theory Thread_Ops
  imports Thread_Inv
begin

text \<open>
  Every operation of \<open>Thread\<close> keeps the scheduler's invariant and meets none of its failing assertions,
  with what it changes; the timer interrupt, by the contract of \<open>Timer\<close> for its callbacks.
\<close>

unbundle bit_operations_syntax

section \<open>What scheduling leaves alone\<close>

text \<open>
  \<open>shuffled c s s'\<close>: at most some ready and running threads changed places on cpu \<open>c\<close>.
\<close>

definition sched_same :: "thread \<Rightarrow> thread \<Rightarrow> bool" where
  "sched_same th th' \<longleftrightarrow> t_magic th' = t_magic th \<and> t_flags th' = t_flags th
     \<and> t_pinned_cpu th' = t_pinned_cpu th \<and> t_aspace th' = t_aspace th
     \<and> t_blocking_wait_queue th' = t_blocking_wait_queue th
     \<and> t_wait_queue_block_ret th' = t_wait_queue_block_ret th
     \<and> t_stack th' = t_stack th \<and> t_retcode th' = t_retcode th
     \<and> (t_state th' = t_state th \<or> {t_state th, t_state th'} \<subseteq> {THREAD_READY, THREAD_RUNNING})"

definition shuffled :: "nat \<Rightarrow> 'x kernel_scheme \<Rightarrow> 'x kernel_scheme \<Rightarrow> bool" where
  "shuffled c s s' \<longleftrightarrow> wait_queues s' = wait_queues s \<and> thread_list s' = thread_list s
     \<and> heap_freed s' = heap_freed s \<and> kernel.more s' = kernel.more s
     \<and> (\<forall>t. timers s' (StackTimer t) = timers s (StackTimer t))
     \<and> (\<forall>t. sched_same (threads s t) (threads s' t))
     \<and> (\<forall>d. d \<noteq> c \<longrightarrow> current_thread s' d = current_thread s d)
     \<and> (current_thread s' c = None \<longleftrightarrow> current_thread s c = None)"

lemma sched_same_refl [simp]: "sched_same th th"
  by (simp add: sched_same_def)

lemma sched_same_trans: "sched_same a b \<Longrightarrow> sched_same b c \<Longrightarrow> sched_same a c"
  by (auto simp: sched_same_def)

lemma shuffled_refl [simp]: "shuffled c s s"
  by (simp add: shuffled_def)

lemma shuffled_trans: "shuffled c a b \<Longrightarrow> shuffled c b d \<Longrightarrow> shuffled c a d"
  unfolding shuffled_def by (auto intro: sched_same_trans)

lemma shuffled_upd_thread:
  "sched_same (threads s t) (f (threads s t)) \<Longrightarrow> shuffled c s (upd_thread t f s)"
  by (simp add: shuffled_def)

lemma shuffled_rq_put: "shuffled c s (rq_put t xs s)"
  by (simp add: shuffled_def rq_put_def Let_def sched_same_def)

lemma shuffled_ipis [simp]: "shuffled c s (s\<lparr>ipis := xs\<rparr>)"
  by (simp add: shuffled_def)

lemma shuffledD:
  assumes "shuffled c s s'"
  shows "wait_queues s' = wait_queues s" "thread_list s' = thread_list s" "live s' = live s"
    "kernel.more s' = kernel.more s" "timers s' (StackTimer t) = timers s (StackTimer t)"
    "t_flags (threads s' t) = t_flags (threads s t)"
    "t_wait_queue_block_ret (threads s' t) = t_wait_queue_block_ret (threads s t)"
    "t_state (threads s' t) = THREAD_BLOCKED \<longleftrightarrow> t_state (threads s t) = THREAD_BLOCKED"
    "t_state (threads s' t) = THREAD_DEATH \<longleftrightarrow> t_state (threads s t) = THREAD_DEATH"
    "heap_freed s' = heap_freed s"
proof -
  have "sched_same (threads s t) (threads s' t)" using assms by (simp add: shuffled_def)
  then show "t_flags (threads s' t) = t_flags (threads s t)"
      "t_wait_queue_block_ret (threads s' t) = t_wait_queue_block_ret (threads s t)"
      "t_state (threads s' t) = THREAD_BLOCKED \<longleftrightarrow> t_state (threads s t) = THREAD_BLOCKED"
      "t_state (threads s' t) = THREAD_DEATH \<longleftrightarrow> t_state (threads s t) = THREAD_DEATH"
    by (auto simp: sched_same_def)
qed (use assms in \<open>simp_all add: shuffled_def live_def fun_eq_iff\<close>)

lemma resched_frame_shuffled:
  assumes "resched_frame c new s s'" and "t_state (threads s new) = THREAD_READY"
    and "current_thread s c \<noteq> None"
  shows "shuffled c s s'"
  unfolding shuffled_def
proof (intro conjI allI)
  fix t show "sched_same (threads s t) (threads s' t)"
    using assms(1,2) by (auto simp: resched_frame_def same_thread_def sched_same_def)
qed (use assms in \<open>auto simp: resched_frame_def\<close>)

text \<open>Rescheduling, as a client sees it.\<close>

lemma resched_ok:
  assumes inv: "kinv {} {c} s" and cur: "current_thread s c = Some old"
  shows "\<exists>s'. thread_resched c s = Some s' \<and> sched_inv s' \<and> shuffled c s s'"
proof -
  obtain s' where s': "thread_resched c s = Some s'" "sched_inv s'"
      "resched_frame c (fst (get_top_thread c s)) s s'"
    using thread_resched_ok [OF assms] by blast
  obtain new s1 where gt: "get_top_thread c s = (new, s1)" by (cases "get_top_thread c s")
  obtain L where "chosen L c new s1" using kinv_get_top [OF inv _ gt] cur by blast
  then have "t_state (threads s1 new) = THREAD_READY" by (simp add: chosen_def)
  moreover have "t_state (threads s1 new) = t_state (threads s new)"
    using gt by (auto simp: get_top_thread_def Let_def split: option.splits if_splits)
  ultimately show ?thesis using s' resched_frame_shuffled [OF s'(3)] cur gt by auto
qed

section \<open>Giving up the cpu\<close>

lemma idle_current:
  assumes "sched_inv s" and "current_thread s c = Some ct" and "thread_is_idle (threads s ct)"
  shows "ct = IdleThread c"
  using thread_okD(3) [OF assms(1), of ct] currentD(3) [OF assms(1,2)] current_idle [OF assms(1)] assms(2,3)
  by auto

text \<open>The current thread makes way for another: queued at the head or the tail, unless it is idle.\<close>

lemma requeue_current_ok:
  assumes inv: "sched_inv s" and cur: "current_thread s c = Some ct"
    and f: "same_links (threads s ct) (f (threads s ct))" "t_state (f (threads s ct)) = THREAD_READY"
      "0 \<le> t_priority (f (threads s ct)) \<and> t_priority (f (threads s ct)) < NUM_PRIORITIES"
      "sched_same (threads s ct) (f (threads s ct))"
    and idle: "\<not> thread_is_idle (threads s ct)"
  shows "\<exists>s'. insert_in_run_queue_head ct (upd_thread ct f s) = Some s' \<and> kinv {} {c} s'
           \<and> current_thread s' = current_thread s \<and> shuffled c s s'"
    and "\<exists>s'. insert_in_run_queue_tail ct (upd_thread ct f s) = Some s' \<and> kinv {} {c} s'
           \<and> current_thread s' = current_thread s \<and> shuffled c s s'"
proof -
  have k: "kinv {ct} {c} (upd_thread ct f s)"
    using kinv_make_ready [where f = f, OF inv cur _ f(1-3)] idle by simp
  have sh: "shuffled c s (rq_put t xs (upd_thread ct f s))" for t xs
    by (rule shuffled_trans [OF shuffled_upd_thread [where f = f, OF f(4)] shuffled_rq_put])
  have cu: "current_thread (rq_put t xs (upd_thread ct f s)) = current_thread s" for t xs
    by (simp add: rq_put_def Let_def)
  note eq = insert_in_run_queue_eq [OF k, of ct] and ok = insert_in_run_queue_ok [OF k, of ct]
  show "\<exists>s'. insert_in_run_queue_head ct (upd_thread ct f s) = Some s' \<and> kinv {} {c} s'
           \<and> current_thread s' = current_thread s \<and> shuffled c s s'"
    using eq(1) ok(1) sh cu by (simp del: upd_thread_simps)
  show "\<exists>s'. insert_in_run_queue_tail ct (upd_thread ct f s) = Some s' \<and> kinv {} {c} s'
           \<and> current_thread s' = current_thread s \<and> shuffled c s s'"
    using eq(2) ok(2) sh cu by (simp del: upd_thread_simps)
qed

text \<open>The common shape of \<^verbatim>\<open>thread_yield\<close> and \<^verbatim>\<open>thread_preempt\<close>.\<close>

lemma give_way_ok:
  assumes inv: "sched_inv s" and cur: "current_thread s c = Some ct"
    and f: "same_links (threads s ct) (f (threads s ct))" "t_state (f (threads s ct)) = THREAD_READY"
      "t_priority (f (threads s ct)) = t_priority (threads s ct)"
      "sched_same (threads s ct) (f (threads s ct))"
    and ins: "ins = insert_in_run_queue_head ct \<or> ins = insert_in_run_queue_tail ct"
  shows "\<exists>s1 s'. (if \<not> thread_is_idle (threads s ct) then ins (upd_thread ct f s)
             else Some (upd_thread ct f s)) = Some s1
           \<and> thread_resched c s1 = Some s' \<and> sched_inv s' \<and> shuffled c s s'"
proof -
  have pr: "0 \<le> t_priority (f (threads s ct)) \<and> t_priority (f (threads s ct)) < NUM_PRIORITIES"
    using thread_okD(2) [OF inv, of ct] currentD(3) [OF inv cur] f(3) by simp
  obtain s1 where "(if \<not> thread_is_idle (threads s ct) then ins (upd_thread ct f s)
        else Some (upd_thread ct f s)) = Some s1"
      and k: "kinv {} {c} s1" "current_thread s1 = current_thread s" "shuffled c s s1"
  proof (cases "thread_is_idle (threads s ct)")
    case True
    then show thesis
      using that [of "upd_thread ct f s"] kinv_make_ready [where f = f, OF inv cur _ f(1,2) pr]
        shuffled_upd_thread [where f = f, OF f(4)] by simp
  next
    case False
    then show thesis
      using that requeue_current_ok [where f = f, OF inv cur f(1,2) pr f(4) False] ins by auto
  qed
  moreover obtain s' where "thread_resched c s1 = Some s'" "sched_inv s'" "shuffled c s1 s'"
    using resched_ok [OF k(1), of ct] k(2) cur by auto
  ultimately show ?thesis using shuffled_trans by blast
qed

lemma thread_yield_ok:
  assumes inv: "sched_inv s" and cur: "current_thread s c = Some ct"
  shows "\<exists>s'. thread_yield c s = Some s' \<and> sched_inv s' \<and> shuffled c s s'"
proof -
  note ct = currentD(3) [OF inv cur, simplified]
  let ?f = "\<lambda>th. th\<lparr>t_state := THREAD_READY, t_remaining_quantum := 0\<rparr>"
  have f: "same_links (threads s ct) (?f (threads s ct))" "t_state (?f (threads s ct)) = THREAD_READY"
      "t_priority (?f (threads s ct)) = t_priority (threads s ct)"
      "sched_same (threads s ct) (?f (threads s ct))"
    using ct by (simp_all add: same_links_def sched_same_def)
  obtain s1 s' where "(if \<not> thread_is_idle (threads s ct) then insert_in_run_queue_tail ct (upd_thread ct ?f s)
        else Some (upd_thread ct ?f s)) = Some s1"
      and r: "thread_resched c s1 = Some s'" "sched_inv s'" "shuffled c s s'"
    using give_way_ok [where f = ?f and ins = "insert_in_run_queue_tail ct", OF inv cur f] by blast
  then show ?thesis using cur ct thread_okD(1) [OF inv, of ct]
    by (cases "thread_is_idle (threads s ct)") (simp_all add: thread_yield_def)
qed

lemma thread_preempt_ok:
  assumes inv: "sched_inv s" and cur: "current_thread s c = Some ct"
  shows "\<exists>s'. thread_preempt c s = Some s' \<and> sched_inv s' \<and> shuffled c s s'"
proof -
  note ct = currentD(3) [OF inv cur, simplified]
  let ?f = "\<lambda>th. th\<lparr>t_state := THREAD_READY\<rparr>"
  let ?ins = "if t_remaining_quantum (threads s ct) > 0 then insert_in_run_queue_head ct
    else insert_in_run_queue_tail ct"
  have f: "same_links (threads s ct) (?f (threads s ct))" "t_state (?f (threads s ct)) = THREAD_READY"
      "t_priority (?f (threads s ct)) = t_priority (threads s ct)"
      "sched_same (threads s ct) (?f (threads s ct))"
    using ct by (simp_all add: same_links_def sched_same_def)
  have ins: "?ins = insert_in_run_queue_head ct \<or> ?ins = insert_in_run_queue_tail ct" by simp
  obtain s1 s' where "(if \<not> thread_is_idle (threads s ct) then ?ins (upd_thread ct ?f s)
        else Some (upd_thread ct ?f s)) = Some s1"
      and r: "thread_resched c s1 = Some s'" "sched_inv s'" "shuffled c s s'"
    using give_way_ok [where f = ?f and ins = ?ins, OF inv cur f ins] by blast
  then show ?thesis using cur ct thread_okD(1) [OF inv, of ct]
    by (cases "thread_is_idle (threads s ct)"; cases "t_remaining_quantum (threads s ct) > 0")
      (simp_all add: thread_preempt_def)
qed

lemma thread_set_priority_ok:
  assumes inv: "sched_inv s" and cur: "current_thread s c = Some ct"
    and idle: "\<not> thread_is_idle (threads s ct)"
  shows "\<exists>s'. thread_set_priority p c s = Some s' \<and> sched_inv s' \<and> shuffled c s s'"
proof -
  note ct = currentD(3) [OF inv cur, simplified]
  define q where "q = (let p = (if p \<le> IDLE_PRIORITY then IDLE_PRIORITY + 1 else p)
    in if p > HIGHEST_PRIORITY then HIGHEST_PRIORITY else p)"
  let ?f = "\<lambda>th. th\<lparr>t_priority := q, t_state := THREAD_READY\<rparr>"
  have q: "0 \<le> q \<and> q < NUM_PRIORITIES" by (auto simp: q_def Let_def)
  have f: "same_links (threads s ct) (?f (threads s ct))" "t_state (?f (threads s ct)) = THREAD_READY"
      "0 \<le> t_priority (?f (threads s ct)) \<and> t_priority (?f (threads s ct)) < NUM_PRIORITIES"
      "sched_same (threads s ct) (?f (threads s ct))"
    using ct q by (simp_all add: same_links_def sched_same_def)
  obtain s1 where s1: "insert_in_run_queue_head ct (upd_thread ct ?f s) = Some s1"
      and k: "kinv {} {c} s1" "current_thread s1 = current_thread s" "shuffled c s s1"
    using requeue_current_ok(1) [where f = ?f, OF inv cur f idle] by blast
  obtain s' where "thread_resched c s1 = Some s'" "sched_inv s'" "shuffled c s1 s'"
    using resched_ok [OF k(1), of ct] k(2) cur by auto
  then show ?thesis using cur s1 k(3) by (auto simp: thread_set_priority_def q_def Let_def intro: shuffled_trans)
qed

section \<open>Waking\<close>

lemma wq_take_simps [simp]:
  "current_thread (wq_take w t err s) = current_thread s"
  "thread_list (wq_take w t err s) = thread_list s"
  "kernel.more (wq_take w t err s) = kernel.more s"
  "timers (wq_take w t err s) = timers s"
  "timer_queue (wq_take w t err s) = timer_queue s"
  "live (wq_take w t err s) = live s"
  "heap_freed (wq_take w t err s) = heap_freed s"
  "wq_list (wait_queues (wq_take w t err s) v) =
     (if v = w then remove1 t (wq_list (wait_queues s w)) else wq_list (wait_queues s v))"
  "wq_magic (wait_queues (wq_take w t err s) v) = wq_magic (wait_queues s v)"
  "x \<noteq> t \<Longrightarrow> threads (wq_take w t err s) x = threads s x"
  "t_flags (threads (wq_take w t err s) x) = t_flags (threads s x)"
  "t_retcode (threads (wq_take w t err s) x) = t_retcode (threads s x)"
  "t_pinned_cpu (threads (wq_take w t err s) x) = t_pinned_cpu (threads s x)"
  "t_wait_queue_block_ret (threads (wq_take w t err s) t) = err"
  "t_state (threads (wq_take w t err s) t) = THREAD_READY"
  by (simp_all add: wq_take_def)

lemma wq_take_head:
  assumes "wq_list (wait_queues s w) = t # rest"
  shows "upd_thread t (\<lambda>th. th\<lparr>t_queue_node := None, t_state := THREAD_READY,
             t_wait_queue_block_ret := err, t_blocking_wait_queue := None\<rparr>)
           (upd_wq w (\<lambda>q. q\<lparr>wq_list := rest, wq_count := wq_count q - 1\<rparr>) s) = wq_take w t err s"
  using assms by (simp add: wq_take_def upd_wq_def)

text \<open>Putting the loose thread \<open>t\<close> in its run queue, and signalling other cpus.\<close>

lemma enqueue_loose_ok:
  assumes "kinv L C s" and "t \<in> L"
  shows "\<exists>s'. insert_in_run_queue_head t s = Some s' \<and> kinv (L - {t}) C s' \<and> shuffled c s s'
           \<and> current_thread s' = current_thread s \<and> timers s' = timers s \<and> timer_queue s' = timer_queue s"
  using insert_in_run_queue_eq(1) [OF assms] insert_in_run_queue_ok(1) [OF assms] shuffled_rq_put
  by (auto simp: rq_put_def Let_def)

lemma kinv_wakeup [simp]: "kinv L C (wakeup_cpu_for_thread t cpu s) = kinv L C s"
  using wakeup_cpu_cases [of t cpu s] by (metis kinv_ipis)

lemma shuffled_wakeup [simp]: "shuffled c s (wakeup_cpu_for_thread t cpu s)"
  using wakeup_cpu_cases [of t cpu s] by (metis shuffled_ipis)

lemma current_wakeup [simp]: "current_thread (wakeup_cpu_for_thread t cpu s) = current_thread s"
  using wakeup_cpu_cases [of t cpu s] by auto

lemma timers_wakeup [simp]:
  "timers (wakeup_cpu_for_thread t cpu s) = timers s"
  "timer_queue (wakeup_cpu_for_thread t cpu s) = timer_queue s"
  using wakeup_cpu_cases [of t cpu s] by auto

lemma wait_queue_wake_one_ok:
  assumes inv: "sched_inv s" and cur: "current_thread s c = Some ct"
    and wq: "wq_magic (wait_queues s w) = WAIT_QUEUE_MAGIC"
    and idle: "resched \<Longrightarrow> \<not> thread_is_idle (threads s ct)"
  shows "case wq_list (wait_queues s w) of
           [] \<Rightarrow> wait_queue_wake_one w resched err c s = Some (0, s)
         | t # _ \<Rightarrow> \<exists>s'. wait_queue_wake_one w resched err c s = Some (1, s') \<and> sched_inv s'
                      \<and> shuffled c (wq_take w t err s) s'"
proof (cases "wq_list (wait_queues s w)")
  case Nil
  then show ?thesis using cur wq by (simp add: wait_queue_wake_one_def)
next
  case (Cons t rest)
  then have mem: "t \<in> set (wq_list (wait_queues s w))" by simp
  note W = waitingD [OF inv mem] and ct = currentD(3) [OF inv cur, simplified]
  have ne: "ct \<noteq> t" using W(2) ct by auto
  let ?s1 = "wq_take w t err s"
  have k1: "kinv {t} {} ?s1" by (rule kinv_wq_take [OF inv mem])
  have step: "wait_queue_wake_one w resched err c s = do {
         s \<leftarrow> (if resched
               then insert_in_run_queue_head ct (upd_thread ct (\<lambda>th. th\<lparr>t_state := THREAD_READY\<rparr>) ?s1)
               else Some ?s1);
         s \<leftarrow> insert_in_run_queue_head t s;
         let s = wakeup_cpu_for_thread t c s;
         s \<leftarrow> (if resched then thread_resched c s else Some s);
         Some (1, s) }"
    using Cons cur wq W(2) wq_take_head [OF Cons, of err] by (simp add: wait_queue_wake_one_def Let_def)
  show ?thesis
  proof (cases resched)
    case False
    obtain s2 where "insert_in_run_queue_head t ?s1 = Some s2" "sched_inv s2" "shuffled c ?s1 s2"
      using enqueue_loose_ok [OF k1, of t c] by auto
    then show ?thesis using False Cons step shuffled_trans [OF _ shuffled_wakeup] by simp
  next
    case True
    let ?f = "\<lambda>th. th\<lparr>t_state := THREAD_READY\<rparr>"
    have cur1: "current_thread ?s1 c = Some ct" using cur by simp
    have f: "same_links (threads ?s1 ct) (?f (threads ?s1 ct))" "t_state (?f (threads ?s1 ct)) = THREAD_READY"
        "0 \<le> t_priority (?f (threads ?s1 ct)) \<and> t_priority (?f (threads ?s1 ct)) < NUM_PRIORITIES"
      using thread_okD(2) [OF k1, of ct] ct by (simp_all add: same_links_def)
    have k2: "kinv {ct, t} {c} (upd_thread ct ?f ?s1)"
      using kinv_make_ready [where f = ?f, OF k1 cur1 _ f] idle [OF True] ne by simp
    have sh2: "shuffled c ?s1 (upd_thread ct ?f ?s1)"
      using ct ne by (intro shuffled_upd_thread) (simp add: sched_same_def)
    obtain s3 where s3: "insert_in_run_queue_head ct (upd_thread ct ?f ?s1) = Some s3"
        "kinv {t} {c} s3" "shuffled c (upd_thread ct ?f ?s1) s3" "current_thread s3 c = Some ct"
      using enqueue_loose_ok [OF k2, of ct c] cur ne by auto
    obtain s4 where s4: "insert_in_run_queue_head t s3 = Some s4" "kinv {} {c} s4" "shuffled c s3 s4"
        "current_thread s4 c = Some ct"
      using enqueue_loose_ok [OF s3(2), of t c] s3(4) by auto
    obtain s5 where s5: "thread_resched c (wakeup_cpu_for_thread t c s4) = Some s5" "sched_inv s5"
        "shuffled c (wakeup_cpu_for_thread t c s4) s5"
      using resched_ok [of c "wakeup_cpu_for_thread t c s4" ct] s4(2,4) by auto
    have "shuffled c ?s1 s5"
      by (rule shuffled_trans [OF sh2 shuffled_trans [OF s3(3) shuffled_trans [OF s4(3)
            shuffled_trans [OF shuffled_wakeup s5(3)]]]])
    then show ?thesis using True Cons step s3(1) s4(1) s5(1,2) by simp
  qed
qed

lemma shuffled_wq_take:
  assumes "shuffled c a b"
  shows "shuffled c (wq_take w t err a) (wq_take w t err b)"
proof -
  have "sched_same (threads a x) (threads b x)" for x using assms by (simp add: shuffled_def)
  then have "sched_same (threads (wq_take w t err a) x) (threads (wq_take w t err b) x)" for x
    by (cases "x = t") (simp_all add: wq_take_def sched_same_def)
  then show ?thesis using assms by (simp add: shuffled_def) (simp add: wq_take_def)
qed

definition wq_take_list :: "wqref \<Rightarrow> tid list \<Rightarrow> status_t \<Rightarrow> 'x kernel_scheme \<Rightarrow> 'x kernel_scheme" where
  "wq_take_list w ts err s = fold (\<lambda>t. wq_take w t err) ts s"

lemma wq_take_list_simps [simp]:
  "wq_take_list w [] err s = s"
  "wq_take_list w (t # ts) err s = wq_take_list w ts err (wq_take w t err s)"
  by (simp_all add: wq_take_list_def)

lemma shuffled_wq_take_list:
  "shuffled c a b \<Longrightarrow> shuffled c (wq_take_list w ts err a) (wq_take_list w ts err b)"
  by (induction ts arbitrary: a b) (simp_all add: shuffled_wq_take)

lemma wq_take_list_frame [simp]:
  "current_thread (wq_take_list w ts err s) = current_thread s"
  "thread_list (wq_take_list w ts err s) = thread_list s"
  "kernel.more (wq_take_list w ts err s) = kernel.more s"
  "timers (wq_take_list w ts err s) = timers s"
  "live (wq_take_list w ts err s) = live s"
  "heap_freed (wq_take_list w ts err s) = heap_freed s"
  "v \<noteq> w \<Longrightarrow> wq_list (wait_queues (wq_take_list w ts err s) v) = wq_list (wait_queues s v)"
  "wq_magic (wait_queues (wq_take_list w ts err s) v) = wq_magic (wait_queues s v)"
  "t_flags (threads (wq_take_list w ts err s) t) = t_flags (threads s t)"
  "t_retcode (threads (wq_take_list w ts err s) t) = t_retcode (threads s t)"
  "t \<notin> set ts \<Longrightarrow> threads (wq_take_list w ts err s) t = threads s t"
  by (induction ts arbitrary: s) simp_all

lemma wq_take_list_woken:
  "t \<in> set ts \<Longrightarrow> t_wait_queue_block_ret (threads (wq_take_list w ts err s) t) = err"
  "t \<in> set ts \<Longrightarrow> t_state (threads (wq_take_list w ts err s) t) = THREAD_READY"
proof (induction ts arbitrary: s)
  case (Cons x xs)
  case 1 then show ?case using Cons by (cases "t \<in> set xs") simp_all
  case 2 then show ?case using Cons by (cases "t \<in> set xs") simp_all
qed simp_all

lemma wq_take_list_empties:
  "wq_list (wait_queues s w) = ts \<Longrightarrow> wq_list (wait_queues (wq_take_list w ts err s) w) = []"
  by (induction ts arbitrary: s) simp_all

lemma wake_all_loop_ok:
  assumes "kinv L C s" and "wq_list (wait_queues s w) = ts"
  shows "\<exists>m' s'. wake_all_loop w err ts m0 ret s = Some (m', ret + int (length ts), s')
           \<and> kinv L C s' \<and> shuffled c (wq_take_list w ts err s) s' \<and> current_thread s' = current_thread s"
  using assms
proof (induction ts arbitrary: s m0 ret)
  case Nil
  then show ?case by simp
next
  case (Cons t ts)
  have mem: "t \<in> set (wq_list (wait_queues s w))" using Cons.prems(2) by simp
  note W = waitingD [OF Cons.prems(1) mem]
  let ?s1 = "wq_take w t err s"
  have k1: "kinv (insert t L) C ?s1" by (rule kinv_wq_take [OF Cons.prems(1) mem])
  obtain s2 where s2: "insert_in_run_queue_head t ?s1 = Some s2" "kinv (insert t L - {t}) C s2"
      "shuffled c ?s1 s2" "current_thread s2 = current_thread s"
    using enqueue_loose_ok [OF k1, of t c] by auto
  have k2: "kinv L C s2" using s2(2) W(6) by simp
  have l2: "wq_list (wait_queues s2 w) = ts" using shuffledD(1) [OF s2(3)] Cons.prems(2) by simp
  let ?m = "if t_pinned_cpu (threads s t) < 0 then - 1 else m0 OR push_bit (nat (t_pinned_cpu (threads s t))) 1"
  obtain m' s' where r: "wake_all_loop w err ts ?m (ret + 1) s2 = Some (m', ret + 1 + int (length ts), s')"
      and s': "kinv L C s'" "shuffled c (wq_take_list w ts err s2) s'" "current_thread s' = current_thread s2"
    using Cons.IH [OF k2 l2] by blast
  have "wake_all_loop w err (t # ts) m0 ret s = Some (m', ret + int (length (t # ts)), s')"
    using W(2) s2(1) r wq_take_head [OF Cons.prems(2), of err]
    by (cases "t_pinned_cpu (threads s t) < 0") (simp_all add: Let_def add.assoc)
  moreover have "shuffled c (wq_take_list w (t # ts) err s) s'"
    using shuffled_trans [OF shuffled_wq_take_list [OF s2(3)] s'(2)] by simp
  ultimately show ?case using s' s2(4) by auto
qed

lemma wait_queue_wake_all_ok:
  assumes inv: "sched_inv s" and cur: "current_thread s c = Some ct"
    and wq: "wq_magic (wait_queues s w) = WAIT_QUEUE_MAGIC"
    and idle: "resched \<Longrightarrow> \<not> thread_is_idle (threads s ct)"
  shows "\<exists>s'. wait_queue_wake_all w resched err c s = Some (int (length (wq_list (wait_queues s w))), s')
           \<and> sched_inv s' \<and> shuffled c (wq_take_list w (wq_list (wait_queues s w)) err s) s'"
proof -
  let ?ts = "wq_list (wait_queues s w)"
  let ?f = "\<lambda>th. th\<lparr>t_state := THREAD_READY\<rparr>"
  define rs where "rs \<longleftrightarrow> resched \<and> ?ts \<noteq> []"
  note ct = currentD(3) [OF inv cur, simplified]
  have cnt: "wq_count (wait_queues s w) = int (length ?ts)" by (rule wait_queueD(3) [OF inv wq])
  have f: "same_links (threads s ct) (?f (threads s ct))" "t_state (?f (threads s ct)) = THREAD_READY"
      "0 \<le> t_priority (?f (threads s ct)) \<and> t_priority (?f (threads s ct)) < NUM_PRIORITIES"
      "sched_same (threads s ct) (?f (threads s ct))"
    using thread_okD(2) [OF inv, of ct] ct by (simp_all add: same_links_def sched_same_def)
  obtain s1 where s1: "(if rs then insert_in_run_queue_head ct (upd_thread ct ?f s) else Some s) = Some s1"
      and k1: "kinv {} (if rs then {c} else {}) s1" "current_thread s1 = current_thread s" "shuffled c s s1"
    using requeue_current_ok(1) [where f = ?f, OF inv cur f] idle inv unfolding rs_def
    by (cases "resched \<and> ?ts \<noteq> []") auto
  have l1: "wq_list (wait_queues s1 w) = ?ts" using shuffledD(1) [OF k1(3)] by simp
  obtain m' s2 where r: "wake_all_loop w err ?ts 0 0 s1 = Some (m', 0 + int (length ?ts), s2)"
      and s2: "kinv {} (if rs then {c} else {}) s2" "shuffled c (wq_take_list w ?ts err s1) s2"
        "current_thread s2 = current_thread s1"
    using wake_all_loop_ok [OF k1(1) l1, of err 0 0 c] by blast
  have sh2: "shuffled c (wq_take_list w ?ts err s) s2"
    using shuffled_trans [OF shuffled_wq_take_list [OF k1(3)] s2(2)] .
  have e2: "wq_list (wait_queues s2 w) = []" "wq_magic (wait_queues s2 w) = WAIT_QUEUE_MAGIC"
    using shuffledD(1) [OF sh2] wq_take_list_empties [of s w] wq by simp_all
  have c2: "wq_count (wait_queues s2 w) = 0" using wait_queueD(3) [OF s2(1) e2(2)] e2(1) by simp
  have rc: "(resched \<and> wq_count (wait_queues s w) > 0) = rs" by (simp add: cnt rs_def)
  have step: "wait_queue_wake_all w resched err c s = (if ?ts \<noteq> [] then do {
       let s = mp_reschedule m' 0 c s2;
       s \<leftarrow> (if resched then thread_resched c s else Some s);
       Some (int (length ?ts), s) } else Some (int (length ?ts), s2))"
    by (simp add: wait_queue_wake_all_def cur wq rc s1 l1 r c2 Let_def)
  obtain xs where mp: "mp_reschedule m' 0 c s2 = s2\<lparr>ipis := xs\<rparr>" using mp_reschedule_cases by blast
  show ?thesis
  proof (cases rs)
    case True
    then obtain s3 where "thread_resched c (s2\<lparr>ipis := xs\<rparr>) = Some s3" "sched_inv s3"
        "shuffled c (s2\<lparr>ipis := xs\<rparr>) s3"
      using resched_ok [of c "s2\<lparr>ipis := xs\<rparr>" ct] s2(1,3) k1(2) cur by auto
    then show ?thesis
      using True step mp sh2 shuffled_trans [OF shuffled_trans [OF sh2 shuffled_ipis]] by (simp add: rs_def)
  next
    case False
    then show ?thesis using step mp s2(1) sh2 shuffled_trans [OF sh2 shuffled_ipis]
      by (cases "?ts = []") (simp_all add: rs_def)
  qed
qed

text \<open>An empty wait queue can be initialised or destroyed.\<close>

lemma kinv_upd_wq_empty:
  assumes "kinv L C s" and "wq_list (wait_queues s w) = []" and "wq_list (g (wait_queues s w)) = []"
    and "wq_magic (g (wait_queues s w)) = WAIT_QUEUE_MAGIC \<Longrightarrow> wq_count (g (wait_queues s w)) = 0"
  shows "kinv L C (upd_wq w g s)"
proof -
  note I = kinvD [OF assms(1)]
  let ?s = "upd_wq w g s"
  have "wq_list (wait_queues ?s v) = wq_list (wait_queues s v)" for v using assms(2,3) by simp
  then have "queues_ok ?s" using I(1) by (simp add: queues_ok_def del: upd_wq_simps(6))
  moreover have "wqs_ok ?s" using I(2) assms(2-4) by (auto simp: wqs_ok_def)
  moreover have "threads_ok L ?s" "cpus_ok C ?s" "idle_ok ?s" "preempt_ok ?s" "stack_timers_ok ?s"
    using I(3-7) by (simp_all add: threads_ok_cong [of ?s s] cpus_ok_cong [of ?s s] idle_ok_cong [of ?s s]
        preempt_ok_cong [of ?s s] stack_timers_ok_cong [of ?s s])
  ultimately show ?thesis using I(8) by (simp add: kinv_def)
qed

lemma wait_queue_destroy_ok:
  assumes inv: "sched_inv s" and cur: "current_thread s c = Some ct"
    and wq: "wq_magic (wait_queues s w) = WAIT_QUEUE_MAGIC"
    and idle: "resched \<Longrightarrow> \<not> thread_is_idle (threads s ct)"
  shows "\<exists>s1. wait_queue_destroy w resched c s = Some (upd_wq w (\<lambda>q. q\<lparr>wq_magic := 0\<rparr>) s1)
           \<and> sched_inv (upd_wq w (\<lambda>q. q\<lparr>wq_magic := 0\<rparr>) s1)
           \<and> shuffled c (wq_take_list w (wq_list (wait_queues s w)) ERR_OBJECT_DESTROYED s) s1"
proof -
  obtain s1 where s1: "wait_queue_wake_all w resched ERR_OBJECT_DESTROYED c s
        = Some (int (length (wq_list (wait_queues s w))), s1)" "sched_inv s1"
      "shuffled c (wq_take_list w (wq_list (wait_queues s w)) ERR_OBJECT_DESTROYED s) s1"
    using wait_queue_wake_all_ok [OF inv cur wq idle, where err = "ERR_OBJECT_DESTROYED"] by blast
  have "wq_list (wait_queues s1 w) = []"
    using shuffledD(1) [OF s1(3)] wq_take_list_empties [of s w] by simp
  then have "sched_inv (upd_wq w (\<lambda>q. q\<lparr>wq_magic := 0\<rparr>) s1)"
    by (intro kinv_upd_wq_empty [OF s1(2)]) simp_all
  then show ?thesis using s1 wq by (auto simp: wait_queue_destroy_def)
qed

text \<open>One thread is taken out of the queue it waits in, wherever it stands there.\<close>

lemma thread_unblock_from_wait_queue_ok:
  assumes inv: "kinv {} C s" and lv: "live s t"
  shows "if t_state (threads s t) = THREAD_BLOCKED
         then \<exists>w s'. t \<in> set (wq_list (wait_queues s w))
                \<and> thread_unblock_from_wait_queue t err c s = Some (NO_ERROR, s')
                \<and> kinv {} C s' \<and> shuffled c (wq_take w t err s) s'
                \<and> current_thread s' = current_thread s \<and> timers s' = timers s \<and> timer_queue s' = timer_queue s
         else thread_unblock_from_wait_queue t err c s = Some (ERR_NOT_BLOCKED, s)"
proof (cases "t_state (threads s t) = THREAD_BLOCKED")
  case False
  then show ?thesis using thread_okD(1) [OF inv lv] by (simp add: thread_unblock_from_wait_queue_def)
next
  case True
  obtain w where w: "t_blocking_wait_queue (threads s t) = Some w" using thread_okD(6) [OF inv lv True] by blast
  then have nd: "t_queue_node (threads s t) = Some (WaitQ w)" using thread_okD(5) [OF inv] lv True by simp
  then have mem: "t \<in> set (wq_list (wait_queues s w))" using wait_queueD(1) [OF inv] by simp
  have k1: "kinv {t} C (wq_take w t err s)" by (rule kinv_wq_take [OF inv mem])
  have perm: "(th :: thread)\<lparr>t_queue_node := None, t_blocking_wait_queue := None,
        t_state := THREAD_READY, t_wait_queue_block_ret := err\<rparr> =
      th\<lparr>t_queue_node := None, t_state := THREAD_READY,
        t_wait_queue_block_ret := err, t_blocking_wait_queue := None\<rparr>" for th
    by (rule thread.equality) simp_all
  have eq: "upd_thread t (\<lambda>th. th\<lparr>t_queue_node := None, t_blocking_wait_queue := None,
        t_state := THREAD_READY, t_wait_queue_block_ret := err\<rparr>)
      (upd_wq w (\<lambda>q. q\<lparr>wq_count := wq_count q - 1\<rparr>)
        (upd_wq w (\<lambda>q. q\<lparr>wq_list := remove1 t (wq_list q)\<rparr>) s)) = wq_take w t err s"
    by (simp add: wq_take_def upd_thread_def upd_wq_def perm)
  obtain s' where s': "insert_in_run_queue_head t (wq_take w t err s) = Some s'" "kinv {} C s'"
      "shuffled c (wq_take w t err s) s'" "current_thread s' = current_thread s"
      "timers s' = timers s" "timer_queue s' = timer_queue s"
    using enqueue_loose_ok [OF k1, of t c] by auto
  have "thread_unblock_from_wait_queue t err c s = Some (NO_ERROR, wakeup_cpu_for_thread t c s')"
    using thread_okD(1) [OF inv lv] True w nd wait_queueD(4) [OF inv nd] s'(1) eq
    by (simp add: thread_unblock_from_wait_queue_def Let_def)
  then show ?thesis using True mem s'(2-6) shuffled_trans [OF s'(3) shuffled_wakeup] by auto
qed

section \<open>Blocking and sleeping\<close>

lemma stackD:
  assumes "kinv L C s"
  shows "tm_node (timers s (StackTimer t)) \<noteq> None \<Longrightarrow> live s t \<and>
        tm_periodic_time (timers s (StackTimer t)) = 0 \<and>
        (if t_state (threads s t) = THREAD_SLEEPING
         then tm_callback (timers s (StackTimer t)) = Some (CB_thread_sleep_handler t)
         else tm_callback (timers s (StackTimer t)) = Some (CB_wait_queue_timeout_handler t))"
    and "live s t \<Longrightarrow> t_state (threads s t) = THREAD_SLEEPING \<Longrightarrow> tm_node (timers s (StackTimer t)) \<noteq> None"
  using kinvD(7) [OF assms] unfolding stack_timers_ok_def by blast+

text \<open>Arming the timer on the stack of a thread that has just blocked.\<close>

lemma arm_stack_timer_ok:
  assumes inv: "kinv L C s" and lv: "live s t" and st: "t_state (threads s t) = THREAD_BLOCKED"
    and nd: "tm_node (timers s (StackTimer t)) = None"
  shows "\<exists>s'. timer_set_oneshot (StackTimer t) delay (CB_wait_queue_timeout_handler t) c
             (timer_initialize (StackTimer t) s) = Some s'
           \<and> kinv L C s' \<and> timer_sys.more s' = timer_sys.more s
           \<and> (\<forall>m. m \<noteq> StackTimer t \<longrightarrow> timers s' m = timers s m)
           \<and> tm_magic (timers s' (StackTimer t)) = TIMER_MAGIC"
proof -
  note I = kinvD [OF inv]
  let ?s0 = "timer_initialize (StackTimer t) s"
  have s0: "timer_inv ?s0" "tm_magic (timers ?s0 (StackTimer t)) = TIMER_MAGIC"
      "tm_node (timers ?s0 (StackTimer t)) = None" "timer_sys.more ?s0 = timer_sys.more s"
      "\<And>m. m \<noteq> StackTimer t \<Longrightarrow> timers ?s0 m = timers s m"
    using timer_initialize_inv [OF I(8) nd] by (simp_all add: timer_initialize_def TIMER_INITIAL_VALUE_def)
  obtain s' where s': "timer_set_oneshot (StackTimer t) delay (CB_wait_queue_timeout_handler t) c ?s0 = Some s'"
      "timer_inv s'" "tm_node (timers s' (StackTimer t)) = Some c"
      "tm_callback (timers s' (StackTimer t)) = Some (CB_wait_queue_timeout_handler t)"
      "tm_periodic_time (timers s' (StackTimer t)) = 0"
      "\<forall>x. x \<noteq> StackTimer t \<longrightarrow> timers s' x = timers ?s0 x" "timer_sys.more s' = timer_sys.more ?s0"
    using timer_set_ok [OF s0(1-3), of "if delay = 0 then 1 else delay" 0 "CB_wait_queue_timeout_handler t" c]
    unfolding timer_set_oneshot_def by blast
  have m: "timer_sys.more s' = timer_sys.more s" using s'(7) s0(4) by simp
  have t: "\<And>m. m \<noteq> StackTimer t \<Longrightarrow> timers s' m = timers s m" using s'(6) s0(5) by simp
  note eqs = kernel_more [OF m]
  have "preempt_ok s'" using I(6) t by (simp add: preempt_ok_def eqs)
  moreover have "stack_timers_ok s'"
    unfolding stack_timers_ok_def live_cong [OF eqs(2)] eqs(1)
  proof (intro conjI allI)
    fix x
    show "tm_node (timers s' (StackTimer x)) \<noteq> None \<longrightarrow> live s x \<and> tm_periodic_time (timers s' (StackTimer x)) = 0 \<and>
        (if t_state (threads s x) = THREAD_SLEEPING
         then tm_callback (timers s' (StackTimer x)) = Some (CB_thread_sleep_handler x)
         else tm_callback (timers s' (StackTimer x)) = Some (CB_wait_queue_timeout_handler x))"
      using stackD(1) [OF inv, of x] s'(4,5) t [of "StackTimer x"] lv st by (cases "x = t") simp_all
    show "live s x \<and> t_state (threads s x) = THREAD_SLEEPING \<longrightarrow> tm_node (timers s' (StackTimer x)) \<noteq> None"
      using stackD(2) [OF inv, of x] t [of "StackTimer x"] st by (cases "x = t") simp_all
  qed
  ultimately have "kinv L C s'" using kinv_timers [OF inv m s'(2)] by blast
  moreover have "tm_magic (timers s' (StackTimer t)) = TIMER_MAGIC"
    using timer_invD(3) [OF s'(2)] s'(3) by blast
  ultimately show ?thesis using s'(1) m t by blast
qed

text \<open>
  What blocking on \<open>w\<close> leaves, before the switch: the current thread is last in the queue.
\<close>

definition blocked_on :: "wqref \<Rightarrow> tid \<Rightarrow> lk_time_t \<Rightarrow> 'x kernel_scheme \<Rightarrow> 'x kernel_scheme \<Rightarrow> bool" where
  "blocked_on w t timeout s s' \<longleftrightarrow> timer_sys.more s' = timer_sys.more (wq_put w t s)
     \<and> (\<forall>m. m \<noteq> StackTimer t \<longrightarrow> timers s' m = timers s m)
     \<and> (timeout = INFINITE_TIME \<longrightarrow> timers s' (StackTimer t) = timers s (StackTimer t))
     \<and> (timeout \<noteq> INFINITE_TIME \<longrightarrow> tm_magic (timers s' (StackTimer t)) = TIMER_MAGIC)"

lemma wait_queue_block_ok:
  assumes inv: "sched_inv s" and cur: "current_thread s c = Some ct"
    and idle: "\<not> thread_is_idle (threads s ct)"
    and wq: "wq_magic (wait_queues s w) = WAIT_QUEUE_MAGIC"
    and nd: "tm_node (timers s (StackTimer ct)) = None"
  shows "if timeout = 0 then wait_queue_block w timeout c s = Some (Returns ERR_TIMED_OUT, s)
         else \<exists>s1 s'. wait_queue_block w timeout c s = Some (Switches, s') \<and> sched_inv s'
                \<and> blocked_on w ct timeout s s1 \<and> shuffled c s1 s'"
proof (cases "timeout = 0")
  case True
  then show ?thesis using cur wq currentD(3) [OF inv cur] by (simp add: wait_queue_block_def)
next
  case False
  let ?s1 = "wq_put w ct s"
  note ct = currentD(3) [OF inv cur, simplified]
  have k1: "kinv {} {c} ?s1" using kinv_wq_put [OF inv cur _ idle wq] by simp
  have s1: "live ?s1 ct" "t_state (threads ?s1 ct) = THREAD_BLOCKED" "timers ?s1 = timers s"
      "current_thread ?s1 = current_thread s"
    using ct by (simp_all add: wq_put_def)
  obtain s2 where s2: "(if timeout \<noteq> INFINITE_TIME
        then timer_set_oneshot (StackTimer ct) timeout (CB_wait_queue_timeout_handler ct) c
               (timer_initialize (StackTimer ct) ?s1)
        else Some ?s1) = Some s2" "kinv {} {c} s2" "blocked_on w ct timeout s s2"
  proof (cases "timeout = INFINITE_TIME")
    case True
    then show thesis using that [of ?s1] k1 s1(3) by (simp add: blocked_on_def)
  next
    case False
    then show thesis
      using that arm_stack_timer_ok [OF k1 s1(1,2), of timeout c] nd s1(3) by (auto simp: blocked_on_def)
  qed
  have c2: "current_thread s2 c = Some ct"
    using s2(3) cur s1(4) kernel_more(5) [of s2 ?s1] by (simp add: blocked_on_def)
  obtain s' where s': "thread_resched c s2 = Some s'" "sched_inv s'" "shuffled c s2 s'"
    using resched_ok [OF s2(2) c2] by blast
  have "wait_queue_block w timeout c s = Some (Switches, s')"
    using False cur wq ct s2(1) s'(1)
    by (cases "timeout = INFINITE_TIME") (simp_all add: wait_queue_block_def Let_def wq_put_def [symmetric])
  then show ?thesis using False s'(2,3) s2(3) by auto
qed

text \<open>Cancelling the timer of a thread that does not sleep.\<close>

lemma stack_timer_off:
  assumes inv: "kinv L C s" and m: "timer_sys.more s' = timer_sys.more s" and ti: "timer_inv s'"
    and tm: "\<And>m. m \<noteq> StackTimer t \<Longrightarrow> timers s' m = timers s m"
    and nd: "tm_node (timers s' (StackTimer t)) = None"
    and st: "live s t \<Longrightarrow> t_state (threads s t) \<noteq> THREAD_SLEEPING"
  shows "kinv L C s'"
proof (rule kinv_timers [OF inv m ti])
  note eqs = kernel_more [OF m] and I = kinvD [OF inv]
  show "preempt_ok s'" using I(6) tm by (simp add: preempt_ok_def eqs)
  show "stack_timers_ok s'"
    unfolding stack_timers_ok_def live_cong [OF eqs(2)] eqs(1)
  proof (intro conjI allI)
    fix x
    show "tm_node (timers s' (StackTimer x)) \<noteq> None \<longrightarrow> live s x \<and> tm_periodic_time (timers s' (StackTimer x)) = 0 \<and>
        (if t_state (threads s x) = THREAD_SLEEPING
         then tm_callback (timers s' (StackTimer x)) = Some (CB_thread_sleep_handler x)
         else tm_callback (timers s' (StackTimer x)) = Some (CB_wait_queue_timeout_handler x))"
      using stackD(1) [OF inv, of x] tm [of "StackTimer x"] nd by (cases "x = t") simp_all
    show "live s x \<and> t_state (threads s x) = THREAD_SLEEPING \<longrightarrow> tm_node (timers s' (StackTimer x)) \<noteq> None"
      using stackD(2) [OF inv, of x] tm [of "StackTimer x"] st by (cases "x = t") (simp, blast, simp)
  qed
qed

text \<open>When the thread is current again, its wait returns the status it was woken with.\<close>

lemma wait_queue_block_resume_ok:
  assumes inv: "sched_inv s" and cur: "current_thread s c = Some ct"
    and mg: "timeout \<noteq> INFINITE_TIME \<Longrightarrow> tm_magic (timers s (StackTimer ct)) = TIMER_MAGIC"
    and nd: "timeout = INFINITE_TIME \<Longrightarrow> tm_node (timers s (StackTimer ct)) = None"
  shows "\<exists>s'. wait_queue_block_resume timeout c s = Some (t_wait_queue_block_ret (threads s ct), s')
           \<and> sched_inv s' \<and> timer_sys.more s' = timer_sys.more s
           \<and> (\<forall>m. m \<noteq> StackTimer ct \<longrightarrow> timers s' m = timers s m)
           \<and> tm_node (timers s' (StackTimer ct)) = None"
proof (cases "timeout = INFINITE_TIME")
  case True
  then show ?thesis using cur inv nd by (simp add: wait_queue_block_resume_def)
next
  case False
  obtain s' where s': "timer_cancel (StackTimer ct) c s = Some s'" "timer_inv s'"
      "tm_node (timers s' (StackTimer ct)) = None" "\<forall>x. x \<noteq> StackTimer ct \<longrightarrow> timers s' x = timers s x"
      "timer_sys.more s' = timer_sys.more s"
    using timer_cancel_ok [OF kinvD(8) [OF inv] mg [OF False], of c] by blast
  have "sched_inv s'"
    using stack_timer_off [OF inv s'(5,2) _ s'(3)] s'(4) currentD(3) [OF inv cur] by simp
  then show ?thesis using s' cur False kernel_more(1) [OF s'(5)] by (simp add: wait_queue_block_resume_def)
qed

lemma kinv_sleep:
  assumes inv: "sched_inv s" and cur: "current_thread s c = Some ct"
    and idle: "\<not> thread_is_idle (threads s ct)"
    and m: "timer_sys.more s1 = timer_sys.more s" and ti: "timer_inv s1"
    and tm: "\<And>m. m \<noteq> StackTimer ct \<Longrightarrow> timers s1 m = timers s m"
    and arm: "tm_node (timers s1 (StackTimer ct)) \<noteq> None" "tm_periodic_time (timers s1 (StackTimer ct)) = 0"
      "tm_callback (timers s1 (StackTimer ct)) = Some (CB_thread_sleep_handler ct)"
  defines "s2 \<equiv> upd_thread ct (\<lambda>th. th\<lparr>t_state := THREAD_SLEEPING\<rparr>) s1"
  shows "kinv {} {c} s2"
proof -
  note I = kinvD [OF inv] and eqs = kernel_more [OF m] and ct = currentD(3) [OF inv cur, simplified]
  have lv: "live s2 = live s" by (simp add: s2_def live_cong [OF eqs(2)])
  have nd: "t_queue_node (threads s ct) = None" using queue_node_None [OF inv] ct by simp
  let ?f = "\<lambda>th. th\<lparr>t_state := THREAD_SLEEPING\<rparr>"
  have "queues_ok s2" using I(1) by (auto simp: queues_ok_def s2_def eqs)
  moreover have "wqs_ok s2" using I(2) by (simp add: wqs_ok_def s2_def eqs)
  moreover have "threads_ok {} s2"
    by (rule threads_okI [OF inv, where t = ct])
      (use thread_ok_self [OF inv, of ct] nd ct in \<open>auto simp: thread_ok_def Let_def lv, auto simp: s2_def eqs\<close>)
  moreover have "cpus_ok {c} s2"
    using cpus_ok_leave [OF inv cur, of ?f]
    by (subst cpus_ok_cong [where s = "upd_thread ct ?f s"]) (simp_all add: s2_def eqs)
  moreover have "idle_ok s2"
    using I(5) idle thread_okD(3) [OF inv, of ct] ct unfolding idle_ok_def lv by (auto simp: s2_def eqs)
  moreover have "preempt_ok s2" using I(6) tm by (auto simp: preempt_ok_def s2_def eqs)
  moreover have "stack_timers_ok s2"
    unfolding stack_timers_ok_def lv
  proof (intro conjI allI)
    fix x
    show "tm_node (timers s2 (StackTimer x)) \<noteq> None \<longrightarrow> live s x \<and> tm_periodic_time (timers s2 (StackTimer x)) = 0 \<and>
        (if t_state (threads s2 x) = THREAD_SLEEPING
         then tm_callback (timers s2 (StackTimer x)) = Some (CB_thread_sleep_handler x)
         else tm_callback (timers s2 (StackTimer x)) = Some (CB_wait_queue_timeout_handler x))"
      using stackD(1) [OF inv, of x] tm [of "StackTimer x"] arm ct by (cases "x = ct") (simp_all add: s2_def eqs)
    show "live s x \<and> t_state (threads s2 x) = THREAD_SLEEPING \<longrightarrow> tm_node (timers s2 (StackTimer x)) \<noteq> None"
      using stackD(2) [OF inv, of x] tm [of "StackTimer x"] arm(1) by (cases "x = ct") (simp_all add: s2_def eqs)
  qed
  ultimately show ?thesis using ti by (simp add: kinv_def s2_def)
qed

text \<open>
  \<open>asleep t s s'\<close>: before the switch, thread \<open>t\<close> of \<open>s\<close> sleeps with its timer armed.
\<close>

definition asleep :: "tid \<Rightarrow> 'x kernel_scheme \<Rightarrow> 'x kernel_scheme \<Rightarrow> bool" where
  "asleep t s s' \<longleftrightarrow>
     timer_sys.more s' = timer_sys.more (upd_thread t (\<lambda>th. th\<lparr>t_state := THREAD_SLEEPING\<rparr>) s)
     \<and> (\<forall>m. m \<noteq> StackTimer t \<longrightarrow> timers s' m = timers s m)"

lemma thread_sleep_ok:
  assumes inv: "sched_inv s" and cur: "current_thread s c = Some ct"
    and idle: "\<not> thread_is_idle (threads s ct)"
    and nd: "tm_node (timers s (StackTimer ct)) = None"
  shows "\<exists>s1 s'. thread_sleep delay c s = Some s' \<and> sched_inv s' \<and> asleep ct s s1 \<and> shuffled c s1 s'"
proof -
  note I = kinvD [OF inv] and ct = currentD(3) [OF inv cur, simplified]
  let ?s0 = "timer_initialize (StackTimer ct) s"
  have s0: "timer_inv ?s0" "tm_magic (timers ?s0 (StackTimer ct)) = TIMER_MAGIC"
      "tm_node (timers ?s0 (StackTimer ct)) = None" "timer_sys.more ?s0 = timer_sys.more s"
      "\<And>m. m \<noteq> StackTimer ct \<Longrightarrow> timers ?s0 m = timers s m"
    using timer_initialize_inv [OF I(8) nd] by (simp_all add: timer_initialize_def TIMER_INITIAL_VALUE_def)
  obtain s1 where s1: "timer_set_oneshot (StackTimer ct) delay (CB_thread_sleep_handler ct) c ?s0 = Some s1"
      "timer_inv s1" "tm_node (timers s1 (StackTimer ct)) = Some c"
      "tm_callback (timers s1 (StackTimer ct)) = Some (CB_thread_sleep_handler ct)"
      "tm_periodic_time (timers s1 (StackTimer ct)) = 0"
      "\<forall>x. x \<noteq> StackTimer ct \<longrightarrow> timers s1 x = timers ?s0 x" "timer_sys.more s1 = timer_sys.more ?s0"
    using timer_set_ok [OF s0(1-3), of "if delay = 0 then 1 else delay" 0 "CB_thread_sleep_handler ct" c]
    unfolding timer_set_oneshot_def by blast
  let ?s2 = "upd_thread ct (\<lambda>th. th\<lparr>t_state := THREAD_SLEEPING\<rparr>) s1"
  have m: "timer_sys.more s1 = timer_sys.more s" using s1(7) s0(4) by simp
  have k2: "kinv {} {c} ?s2"
    using kinv_sleep [OF inv cur idle m s1(2)] s1(3-6) s0(5) by simp
  have c2: "current_thread ?s2 c = Some ct" using cur kernel_more(5) [OF m] by simp
  obtain s' where s': "thread_resched c ?s2 = Some s'" "sched_inv s'" "shuffled c ?s2 s'"
    using resched_ok [OF k2 c2] by blast
  have c0: "current_thread ?s0 = current_thread s" "threads ?s0 = threads s"
    by (rule kernel_more [OF s0(4)])+
  have "thread_sleep delay c s = Some s'"
    using cur idle ct thread_okD(1) [OF inv, of ct] s1(1) s'(1) by (simp add: thread_sleep_def Let_def)
  moreover have "asleep ct s ?s2"
    using m s1(6) s0(5) by (cases s; cases s1) (simp add: asleep_def upd_thread_def)
  ultimately show ?thesis using s'(2,3) by blast
qed

section \<open>The timer interrupt\<close>

text \<open>
  What the expiry of timers does to waiting threads: some leave their queues with
  \<^verbatim>\<open>ERR_TIMED_OUT\<close>, and nothing else happens to the wait queues.
\<close>

definition same_waits :: "'x kernel_scheme \<Rightarrow> 'x kernel_scheme \<Rightarrow> bool" where
  "same_waits s s' \<longleftrightarrow>
     (\<forall>w. wq_list (wait_queues s' w) = wq_list (wait_queues s w)
        \<and> wq_magic (wait_queues s' w) = wq_magic (wait_queues s w)) \<and>
     thread_list s' = thread_list s \<and> kernel.more s' = kernel.more s \<and>
     (\<forall>t. t_wait_queue_block_ret (threads s' t) = t_wait_queue_block_ret (threads s t)
        \<and> t_flags (threads s' t) AND THREAD_FLAG_DETACHED = t_flags (threads s t) AND THREAD_FLAG_DETACHED
        \<and> (t_state (threads s' t) = THREAD_DEATH \<longleftrightarrow> t_state (threads s t) = THREAD_DEATH)
        \<and> (tm_node (timers s (StackTimer t)) = None \<longrightarrow> tm_node (timers s' (StackTimer t)) = None)
        \<and> tm_magic (timers s' (StackTimer t)) = tm_magic (timers s (StackTimer t))
        \<and> (tm_node (timers s' (StackTimer t)) \<noteq> None \<longrightarrow>
             tm_callback (timers s' (StackTimer t)) = tm_callback (timers s (StackTimer t))))"

inductive timeouts :: "'x kernel_scheme \<Rightarrow> 'x kernel_scheme \<Rightarrow> bool" for s0 where
  none: "timeouts s0 s0"
| same: "timeouts s0 s \<Longrightarrow> same_waits s s' \<Longrightarrow> timeouts s0 s'"
| expire: "timeouts s0 s \<Longrightarrow> sched_inv s \<Longrightarrow> t \<in> set (wq_list (wait_queues s w)) \<Longrightarrow>
    tm_node (timers s (StackTimer t)) \<noteq> None \<Longrightarrow> same_waits (wq_take w t ERR_TIMED_OUT s) s' \<Longrightarrow> timeouts s0 s'"

lemma same_waits_refl [simp]: "same_waits s s"
  by (simp add: same_waits_def)

lemma same_waits_trans: "same_waits a b \<Longrightarrow> same_waits b c \<Longrightarrow> same_waits a c"
  unfolding same_waits_def by auto

lemma shuffled_same_waits: "shuffled c s s' \<Longrightarrow> same_waits s s'"
  unfolding same_waits_def using shuffledD [of c s s'] by simp

lemma same_waits_wq_take:
  assumes "same_waits a b"
  shows "same_waits (wq_take w t err a) (wq_take w t err b)"
proof -
  have "t_wait_queue_block_ret (threads (wq_take w t err b) x) = t_wait_queue_block_ret (threads (wq_take w t err a) x)"
      "t_state (threads (wq_take w t err b) x) = THREAD_DEATH \<longleftrightarrow> t_state (threads (wq_take w t err a) x) = THREAD_DEATH" for x
    using assms by (cases "x = t"; simp add: same_waits_def)+
  then show ?thesis using assms by (simp add: same_waits_def)
qed

lemma same_waits_timers:
  assumes "timer_sys.more s' = timer_sys.more s"
    and "\<And>t. tm_node (timers s (StackTimer t)) = None \<Longrightarrow> tm_node (timers s' (StackTimer t)) = None"
    and "\<And>t. tm_magic (timers s' (StackTimer t)) = tm_magic (timers s (StackTimer t))"
    and "\<And>t. tm_callback (timers s' (StackTimer t)) = tm_callback (timers s (StackTimer t))"
  shows "same_waits s s'"
  using kernel_more [OF assms(1)] assms(2-4) by (simp add: same_waits_def)

definition tick_inv :: "'x kernel_scheme \<Rightarrow> nat \<Rightarrow> 'x kernel_scheme \<Rightarrow> bool" where
  "tick_inv s0 cpu s \<longleftrightarrow> sched_inv s \<and> current_thread s cpu \<noteq> None \<and> timeouts s0 s"

lemma kinv_upd_other:
  assumes "kinv L C s" and "same_links (threads s t) (f (threads s t))"
    and "t_state (f (threads s t)) = t_state (threads s t)"
    and "t_priority (f (threads s t)) = t_priority (threads s t)"
  shows "kinv L C (upd_thread t f s)" (is "kinv L C ?s")
proof -
  note I = kinvD [OF assms(1)]
  have sl: "same_links (threads s x) (threads ?s x)" for x
    using assms(2) by (cases "x = t") (simp_all add: same_links_def)
  note sld = sl [unfolded same_links_def]
  have proj: "t_magic (threads ?s x) = t_magic (threads s x)" "t_queue_node (threads ?s x) = t_queue_node (threads s x)"
      "t_curr_cpu (threads ?s x) = t_curr_cpu (threads s x)" "t_pinned_cpu (threads ?s x) = t_pinned_cpu (threads s x)"
      "t_blocking_wait_queue (threads ?s x) = t_blocking_wait_queue (threads s x)"
      "t_state (threads ?s x) = t_state (threads s x)" "t_priority (threads ?s x) = t_priority (threads s x)"
      "thread_is_idle (threads ?s x) = thread_is_idle (threads s x)"
      "thread_is_real_time_or_idle (threads ?s x) = thread_is_real_time_or_idle (threads s x)" for x
    using sld [of x] assms(3,4) same_links_idle [OF sl [of x]] by (cases "x = t"; simp)+
  note eqs = proj live_simps(1) upd_thread_simps(2-)
  show ?thesis
    using assms(1)
    unfolding kinv_def queues_ok_def wqs_ok_def threads_ok_def thread_ok_def cpus_ok_def idle_ok_def
      preempt_ok_def stack_timers_ok_def timer_inv_def Let_def eqs by blast
qed

lemma timer_node_delete_more [simp]:
  "timer_sys.more (timer_node_delete m s) = timer_sys.more s"
  by (simp add: timer_node_delete_def split: option.splits)

lemma timer_node_delete_kernel [simp]:
  "threads (timer_node_delete m s) = threads s"
  "current_thread (timer_node_delete m s) = current_thread s"
  "wait_queues (timer_node_delete m s) = wait_queues s"
  "live (timer_node_delete m s) = live s"
  using kernel_more [OF timer_node_delete_more [of m s]] by (simp_all add: live_def fun_eq_iff)

text \<open>A thread's timer has fired, and the thread does not sleep.\<close>

lemma fired_stack_timer:
  assumes inv: "sched_inv s" and st: "t_state (threads s t) \<noteq> THREAD_SLEEPING"
  shows "sched_inv (timer_node_delete (StackTimer t) s)" "same_waits s (timer_node_delete (StackTimer t) s)"
proof -
  show "sched_inv (timer_node_delete (StackTimer t) s)"
    by (rule stack_timer_off [OF inv timer_node_delete_more timer_node_delete_inv [OF kinvD(8) [OF inv]]])
      (use st in simp_all)
  show "same_waits s (timer_node_delete (StackTimer t) s)"
    by (rule same_waits_timers) (auto simp: timer_node_delete_node)
qed

lemma kinv_wake_sleeper:
  assumes inv: "sched_inv s" and lv: "live s t" and st: "t_state (threads s t) = THREAD_SLEEPING"
  defines "s' \<equiv> upd_thread t (\<lambda>th. th\<lparr>t_state := THREAD_READY\<rparr>) (timer_node_delete (StackTimer t) s)"
  shows "kinv {t} {} s'"
proof -
  let ?s1 = "timer_node_delete (StackTimer t) s" and ?f = "\<lambda>th. th\<lparr>t_state := THREAD_READY\<rparr>"
  note I = kinvD [OF inv] and eqs = kernel_more [OF timer_node_delete_more [of "StackTimer t" s]]
  have lvs: "live s' = live s" by (simp add: s'_def)
  have nd: "t_queue_node (threads s t) = None" using queue_node_None [OF inv] st by simp
  have ni: "\<not> thread_is_idle (threads s t)"
    using thread_okD(3) [OF inv lv] idleD(3) [OF inv] lv st by fastforce
  have tm: "x \<noteq> StackTimer t \<Longrightarrow> timers s' x = timers s x" for x by (simp add: s'_def)
  have "queues_ok s'" using I(1) by (auto simp: queues_ok_def s'_def eqs)
  moreover have "wqs_ok s'" using I(2) by (simp add: wqs_ok_def s'_def)
  moreover have "threads_ok {t} s'"
    by (rule threads_okI [OF inv, where t = t])
      (use thread_ok_self [OF inv, of t] nd lv ni st in \<open>auto simp: thread_ok_def Let_def lvs, auto simp: s'_def eqs\<close>)
  moreover have "cpus_ok {} s'"
    using cpus_ok_other [OF inv, of t ?f] st
    by (subst cpus_ok_cong [where s = "upd_thread t ?f s"]) (simp_all add: s'_def eqs)
  moreover have "idle_ok s'" using I(5) unfolding idle_ok_def lvs by (auto simp: s'_def eqs)
  moreover have "preempt_ok s'"
    using I(6) unfolding preempt_ok_def tm [OF timer_ref.distinct(1)] by (auto simp: s'_def)
  moreover have "stack_timers_ok s'"
    unfolding stack_timers_ok_def lvs
  proof (intro conjI allI)
    fix x
    show "tm_node (timers s' (StackTimer x)) \<noteq> None \<longrightarrow> live s x \<and> tm_periodic_time (timers s' (StackTimer x)) = 0 \<and>
        (if t_state (threads s' x) = THREAD_SLEEPING
         then tm_callback (timers s' (StackTimer x)) = Some (CB_thread_sleep_handler x)
         else tm_callback (timers s' (StackTimer x)) = Some (CB_wait_queue_timeout_handler x))"
      using stackD(1) [OF inv, of x] tm [of "StackTimer x"] by (cases "x = t") (simp_all add: s'_def)
    show "live s x \<and> t_state (threads s' x) = THREAD_SLEEPING \<longrightarrow> tm_node (timers s' (StackTimer x)) \<noteq> None"
      using stackD(2) [OF inv, of x] tm [of "StackTimer x"] by (cases "x = t") (simp_all add: s'_def)
  qed
  moreover have "timer_inv s'" using timer_node_delete_inv [OF I(8)] by (simp add: s'_def)
  ultimately show ?thesis by (simp add: kinv_def)
qed

lemma fire_sleep_ok:
  assumes inv: "sched_inv s" and nd: "tm_node (timers s (StackTimer t)) \<noteq> None"
    and st: "t_state (threads s t) = THREAD_SLEEPING"
  shows "\<exists>s'. thread_sleep_handler t (timer_node_delete (StackTimer t) s) = Some (INT_RESCHEDULE, s')
           \<and> timers s' = timers (timer_node_delete (StackTimer t) s)
           \<and> timer_queue s' = timer_queue (timer_node_delete (StackTimer t) s)
           \<and> sched_inv s' \<and> current_thread s' = current_thread s \<and> same_waits s s'"
proof -
  have lv: "live s t" using stackD(1) [OF inv nd] by simp
  let ?s1 = "timer_node_delete (StackTimer t) s"
  let ?s2 = "upd_thread t (\<lambda>th. th\<lparr>t_state := THREAD_READY\<rparr>) ?s1"
  have k2: "kinv {t} {} ?s2" by (rule kinv_wake_sleeper [OF inv lv st])
  obtain s' where s': "insert_in_run_queue_head t ?s2 = Some s'" "sched_inv s'" "shuffled 0 ?s2 s'"
      "current_thread s' = current_thread s" "timers s' = timers ?s2" "timer_queue s' = timer_queue ?s2"
    using enqueue_loose_ok [OF k2, of t 0] by auto
  have "same_waits s ?s1" by (rule same_waits_timers) (auto simp: timer_node_delete_node)
  moreover have "same_waits ?s1 ?s2" using st by (simp add: same_waits_def)
  ultimately have "same_waits s s'"
    using shuffled_same_waits [OF s'(3)] same_waits_trans by blast
  then show ?thesis using s' st thread_okD(1) [OF inv lv] by (simp add: thread_sleep_handler_def)
qed

lemma fire_timeout_ok:
  assumes inv: "sched_inv s" and nd: "tm_node (timers s (StackTimer t)) \<noteq> None"
    and st: "t_state (threads s t) \<noteq> THREAD_SLEEPING"
  shows "\<exists>r s'. wait_queue_timeout_handler t c (timer_node_delete (StackTimer t) s) = Some (r, s')
           \<and> timers s' = timers (timer_node_delete (StackTimer t) s)
           \<and> timer_queue s' = timer_queue (timer_node_delete (StackTimer t) s)
           \<and> sched_inv s' \<and> current_thread s' = current_thread s
           \<and> (same_waits s s' \<or> (\<exists>w. t \<in> set (wq_list (wait_queues s w))
                \<and> same_waits (wq_take w t ERR_TIMED_OUT s) s'))"
proof -
  let ?s1 = "timer_node_delete (StackTimer t) s"
  have lv: "live ?s1 t" using stackD(1) [OF inv nd] by simp
  have k1: "sched_inv ?s1" and w1: "same_waits s ?s1" by (rule fired_stack_timer [OF inv st])+
  note u = thread_unblock_from_wait_queue_ok [OF k1 lv, of "ERR_TIMED_OUT" c]
  have mg: "t_magic (threads s t) = THREAD_MAGIC" using thread_okD(1) [OF k1 lv] by simp
  show ?thesis
  proof (cases "t_state (threads s t) = THREAD_BLOCKED")
    case False
    then show ?thesis using u mg k1 w1 by (simp add: wait_queue_timeout_handler_def)
  next
    case True
    then obtain w s' where s': "t \<in> set (wq_list (wait_queues s w))"
        "thread_unblock_from_wait_queue t ERR_TIMED_OUT c ?s1 = Some (NO_ERROR, s')" "sched_inv s'"
        "shuffled c (wq_take w t ERR_TIMED_OUT ?s1) s'" "current_thread s' = current_thread s"
        "timers s' = timers ?s1" "timer_queue s' = timer_queue ?s1"
      using u by auto
    have "same_waits (wq_take w t ERR_TIMED_OUT s) s'"
      using same_waits_trans [OF same_waits_wq_take [OF w1] shuffled_same_waits [OF s'(4)]] .
    then show ?thesis using s' mg by (auto simp: wait_queue_timeout_handler_def)
  qed
qed

text \<open>The preemption tick: the timer goes back in its queue, one period later.\<close>

lemma requeue_periodic:
  assumes "timer_inv s" and "tm_node (timers s m) = None" and "tm_magic (timers s m) = TIMER_MAGIC"
    and "tm_callback (timers s m) \<noteq> None" and "tm_periodic_time (timers s m) > 0"
  shows "timer_inv (timer_requeue c now True m s)"
    "timer_sys.more (timer_requeue c now True m s) = timer_sys.more s"
    "x \<noteq> m \<Longrightarrow> timers (timer_requeue c now True m s) x = timers s x"
    "\<exists>sched. timers (timer_requeue c now True m s) m
       = (timers s m)\<lparr>tm_scheduled_time := sched, tm_node := Some c\<rparr>"
proof -
  obtain sched where eq: "timer_requeue c now True m s =
      insert_timer_in_queue c m (s\<lparr>timers := (timers s)(m := (timers s m)\<lparr>tm_scheduled_time := sched\<rparr>)\<rparr>)"
    using assms(2,5) by (simp add: timer_requeue_def Let_def)
  let ?s1 = "s\<lparr>timers := (timers s)(m := (timers s m)\<lparr>tm_scheduled_time := sched\<rparr>)\<rparr>"
  have "timer_inv ?s1" using assms(1) by (rule timer_inv_frame) auto
  then show "timer_inv (timer_requeue c now True m s)"
    unfolding eq using assms(2-4) by (intro insert_timer_in_queue_inv) simp_all
  show "timer_sys.more (timer_requeue c now True m s) = timer_sys.more s"
    "x \<noteq> m \<Longrightarrow> timers (timer_requeue c now True m s) x = timers s x"
    "\<exists>sched. timers (timer_requeue c now True m s) m
       = (timers s m)\<lparr>tm_scheduled_time := sched, tm_node := Some c\<rparr>"
    unfolding eq by (auto simp: insert_timer_in_queue_def)
qed

lemma fire_preempt_ok:
  assumes inv: "sched_inv s" and cur: "current_thread s c = Some ct"
    and nd: "tm_node (timers s (PreemptTimer c)) = Some c"
  shows "\<exists>r s'. thread_timer_tick c (timer_node_delete (PreemptTimer c) s) = Some (r, s')
           \<and> timers s' = timers (timer_node_delete (PreemptTimer c) s)
           \<and> timer_queue s' = timer_queue (timer_node_delete (PreemptTimer c) s)
           \<and> sched_inv (timer_requeue c now True (PreemptTimer c) s')
           \<and> current_thread (timer_requeue c now True (PreemptTimer c) s') = current_thread s
           \<and> same_waits s (timer_requeue c now True (PreemptTimer c) s')"
proof -
  let ?m = "PreemptTimer c" and ?f = "\<lambda>th. th\<lparr>t_remaining_quantum := t_remaining_quantum th - 1\<rparr>"
  let ?s1 = "timer_node_delete ?m s"
  let ?s2 = "upd_thread ct ?f ?s1"
  let ?s3 = "timer_requeue c now True ?m ?s2"
  have pre: "\<not> thread_is_real_time_or_idle (threads s ct)" "tm_callback (timers s ?m) = Some CB_thread_timer_tick"
      "tm_periodic_time (timers s ?m) > 0" "tm_magic (timers s ?m) = TIMER_MAGIC"
    using preemptD [OF inv cur] nd by (auto split: if_splits)
  have ti: "timer_inv ?s2" using timer_node_delete_inv [OF kinvD(8) [OF inv]] by simp
  have rq: "timer_inv ?s3" "timer_sys.more ?s3 = timer_sys.more ?s2"
      "\<And>x. x \<noteq> ?m \<Longrightarrow> timers ?s3 x = timers s x"
      "tm_node (timers ?s3 ?m) = Some c" "tm_callback (timers ?s3 ?m) = Some CB_thread_timer_tick"
      "tm_periodic_time (timers ?s3 ?m) > 0" "tm_magic (timers ?s3 ?m) = TIMER_MAGIC"
    using requeue_periodic [OF ti, where m = ?m and c = c and now = now] pre by auto
  have k: "sched_inv (upd_thread ct ?f s)"
    by (rule kinv_upd_other [OF inv]) (simp_all add: same_links_def)
  have m: "timer_sys.more ?s3 = timer_sys.more (upd_thread ct ?f s)"
  proof -
    have "timer_sys.more ?s2 = timer_sys.more (upd_thread ct ?f s)"
      by (cases s) (simp add: upd_thread_def timer_node_delete_def split: option.splits)
    then show ?thesis using rq(2) by simp
  qed
  note eqs = kernel_more [OF m]
  have "sched_inv ?s3"
  proof (rule kinv_timers [OF k m rq(1)])
    show "preempt_ok ?s3" unfolding preempt_ok_def eqs
    proof (intro conjI allI impI)
      fix d show "current_thread (upd_thread ct ?f s) d \<noteq> None \<Longrightarrow> tm_magic (timers ?s3 (PreemptTimer d)) = TIMER_MAGIC"
        using kinvD(6) [OF inv] rq(3) [of "PreemptTimer d"] rq(7) by (cases "d = c") (auto simp: preempt_ok_def)
      fix e assume "tm_node (timers ?s3 (PreemptTimer d)) = Some e"
      then show "e = d" "tm_callback (timers ?s3 (PreemptTimer d)) = Some CB_thread_timer_tick"
        "tm_periodic_time (timers ?s3 (PreemptTimer d)) > 0"
        using kinvD(6) [OF inv] rq(3) [of "PreemptTimer d"] rq(4-6)
        by (cases "d = c"; auto simp: preempt_ok_def)+
    next
      fix d t assume "current_thread (upd_thread ct ?f s) d = Some t"
      then show "tm_node (timers ?s3 (PreemptTimer d)) = None \<longleftrightarrow>
          thread_is_real_time_or_idle (threads (upd_thread ct ?f s) t)"
        using kinvD(6) [OF k] rq(3) [of "PreemptTimer d"] rq(4) pre(1) cur
        by (cases "d = c") (auto simp: preempt_ok_def)
    qed
    have ts: "timers ?s3 (StackTimer t) = timers (upd_thread ct ?f s) (StackTimer t)" for t
      using rq(3) by simp
    show "stack_timers_ok ?s3"
      using kinvD(7) [OF k] unfolding stack_timers_ok_def live_cong [OF eqs(2)] eqs ts .
  qed
  moreover have "same_waits s ?s3"
    unfolding same_waits_def eqs using rq(3) by simp
  moreover have "\<exists>r. thread_timer_tick c ?s1 = Some (r, ?s2)"
    using cur pre(1) by (simp add: thread_timer_tick_def Let_def)
  ultimately show ?thesis using eqs by auto
qed

text \<open>
  The kernel's callbacks meet the contract of the timer interrupt, on every cpu: the scheduler's
  invariant survives them, and the wait queues change by expired waits only.
\<close>

interpretation ktimer: timer_client "fire_callback cpu" "\<lambda>c s. c = cpu \<and> tick_inv s0 cpu s"
  for cpu :: nat and s0 :: "'x kernel_scheme"
proof
  fix c :: nat and s :: "'x kernel_scheme" and m cb now
  assume I: "c = cpu \<and> tick_inv s0 cpu s" and mq: "m \<in> set (timer_queue s c)"
    and cb: "tm_callback (timers s m) = Some cb"
  have inv: "sched_inv s" and to: "timeouts s0 s" and on: "current_thread s cpu \<noteq> None"
    using I by (simp_all add: tick_inv_def)
  have nd: "tm_node (timers s m) = Some cpu" using timer_invD(1) [OF kinvD(8) [OF inv]] mq I by simp
  show "\<exists>r s'. fire_callback cpu m cb now (timer_node_delete m s) = Some (r, s')
          \<and> timers s' = timers (timer_node_delete m s)
          \<and> timer_queue s' = timer_queue (timer_node_delete m s)
          \<and> (c = cpu \<and> tick_inv s0 cpu (timer_requeue c now (0 < tm_periodic_time (timers s m)) m s'))"
  proof (cases m)
    case (PreemptTimer d)
    have "d = cpu" "cb = CB_thread_timer_tick" "tm_periodic_time (timers s m) > 0"
      using kinvD(6) [OF inv] nd cb PreemptTimer by (auto simp: preempt_ok_def)
    moreover obtain ct where "current_thread s cpu = Some ct" using on by blast
    ultimately show ?thesis
      using fire_preempt_ok [OF inv, of cpu ct now] nd PreemptTimer I on timeouts.same [OF to]
      unfolding tick_inv_def by auto
  next
    case (StackTimer t)
    have st: "tm_node (timers s (StackTimer t)) \<noteq> None" using nd StackTimer by simp
    have np: "timer_requeue c now (0 < tm_periodic_time (timers s m)) m s' = s'" for s' :: "'x kernel_scheme"
      using stackD(1) [OF inv st] StackTimer by (simp add: timer_requeue_def)
    show ?thesis
    proof (cases "t_state (threads s t) = THREAD_SLEEPING")
      case True
      then have "cb = CB_thread_sleep_handler t" using stackD(1) [OF inv st] cb StackTimer by simp
      then show ?thesis using fire_sleep_ok [OF inv st True] I on StackTimer timeouts.same [OF to]
        unfolding np tick_inv_def by auto
    next
      case False
      then have "cb = CB_wait_queue_timeout_handler t" using stackD(1) [OF inv st] cb StackTimer by simp
      then show ?thesis
        using fire_timeout_ok [OF inv st False, of cpu] I on StackTimer timeouts.same [OF to]
          timeouts.expire [OF to inv _ st] unfolding np tick_inv_def by auto
    qed
  qed
next
  fix c s h assume "c = cpu \<and> tick_inv s0 cpu s"
  moreover have "sched_inv (s\<lparr>hw_timer := h\<rparr>) = sched_inv s" by (rule kinv_cong) simp_all
  moreover have "same_waits s (s\<lparr>hw_timer := h\<rparr>)" by (simp add: same_waits_def)
  ultimately show "c = cpu \<and> tick_inv s0 cpu (s\<lparr>hw_timer := h\<rparr>)"
    using timeouts.same unfolding tick_inv_def by auto
qed

end
