(* ===== verification/Thread_Life.thy ===== *)
theory Thread_Life
  imports Thread_Ops
begin

text \<open>
  The life of a thread: creation, start, exit, join and detach keep the scheduler's invariant and the
  discipline of the wait queue a thread is joined through; bringing up a cpu establishes it.
\<close>

unbundle bit_operations_syntax

section \<open>Starting a thread\<close>

lemma kinv_make_loose:
  assumes inv: "sched_inv s" and lv: "live s t" and st: "t_state (threads s t) = THREAD_SUSPENDED"
  shows "kinv {t} {} (upd_thread t (\<lambda>th. th\<lparr>t_state := THREAD_READY\<rparr>) s)" (is "kinv {t} {} ?s")
proof -
  let ?f = "\<lambda>th. th\<lparr>t_state := THREAD_READY\<rparr>"
  note I = kinvD [OF inv]
  have lvs: "live ?s = live s" by simp
  have nd: "t_queue_node (threads s t) = None" using queue_node_None [OF inv] st by simp
  have ni: "\<not> thread_is_idle (threads s t)"
    using thread_okD(3) [OF inv lv] idleD(3) [OF inv] lv st by fastforce
  have "queues_ok ?s" using I(1) by (auto simp: queues_ok_def)
  moreover have "wqs_ok ?s" using I(2) by (simp add: wqs_ok_def)
  moreover have "threads_ok {t} ?s"
    by (rule threads_okI [OF inv, where t = t])
      (use thread_ok_self [OF inv, of t] nd lv ni st in \<open>auto simp: thread_ok_def Let_def\<close>)
  moreover have "cpus_ok {} ?s" using cpus_ok_other [OF inv, of t ?f] st by simp
  moreover have "idle_ok ?s" using I(5) unfolding idle_ok_def lvs by auto
  moreover have "preempt_ok ?s" using I(6) unfolding preempt_ok_def by auto
  moreover have "stack_timers_ok ?s" using I(7) st unfolding stack_timers_ok_def lvs by auto
  ultimately show ?thesis using I(8) by (simp add: kinv_def)
qed

text \<open>
  A suspended thread becomes ready, at the head of its run queue; any other is left as it is.
\<close>

lemma thread_resume_ok:
  assumes inv: "sched_inv s" and cur: "current_thread s c = Some ct"
    and lv: "live s t" and dead: "t_state (threads s t) \<noteq> THREAD_DEATH"
  defines "s1 \<equiv> (if t_state (threads s t) = THREAD_SUSPENDED
                 then upd_thread t (\<lambda>th. th\<lparr>t_state := THREAD_READY\<rparr>) s else s)"
  shows "\<exists>s'. thread_resume t ints_disabled c s = Some (NO_ERROR, s') \<and> sched_inv s' \<and> shuffled c s1 s'"
proof (cases "t_state (threads s t) = THREAD_SUSPENDED")
  case False
  let ?w = "wakeup_cpu_for_thread t c s"
  have "thread_resume t ints_disabled c s = Some (NO_ERROR, ?w)"
    using False dead thread_okD(1) [OF inv lv] by (simp add: thread_resume_def)
  then show ?thesis using False inv by (simp add: s1_def)
next
  case True
  have k1: "kinv {t} {} s1" using kinv_make_loose [OF inv lv True] True by (simp add: s1_def)
  obtain s2 where s2: "insert_in_run_queue_head t s1 = Some s2" "sched_inv s2" "shuffled c s1 s2"
      "current_thread s2 = current_thread s1"
    using enqueue_loose_ok [OF k1, of t c] by auto
  let ?w = "wakeup_cpu_for_thread t c s2"
  have kw: "sched_inv ?w" "shuffled c s1 ?w" "current_thread ?w c = Some ct"
    using s2 shuffled_trans [OF s2(3) shuffled_wakeup] cur by (simp_all add: s1_def)
  obtain s' where s': "thread_yield c ?w = Some s'" "sched_inv s'" "shuffled c ?w s'"
    using thread_yield_ok [OF kw(1,3)] by blast
  have "thread_resume t ints_disabled c s =
      (if ints_disabled then Some (NO_ERROR, ?w) else Some (NO_ERROR, s'))"
    using True thread_okD(1) [OF inv lv] s2(1) s'(1) by (simp add: thread_resume_def s1_def)
  then show ?thesis using kw s' shuffled_trans [OF kw(2) s'(3)] by (cases ints_disabled) auto
qed

section \<open>Creating a thread\<close>

lemma not_live_queue_node:
  assumes "kinv L C s" and "\<not> live s t"
  shows "t_queue_node (threads s t) = None"
proof (cases "t_queue_node (threads s t)")
  case (Some q)
  then show ?thesis using thread_okD(4,5) [OF assms(1), of t] assms(2) by (cases q) auto
qed simp

text \<open>A structure that holds no live thread is overwritten, and put in the thread list or not.\<close>

lemma kinv_new_thread:
  assumes inv: "sched_inv s" and fresh: "\<not> live s t" "t = Thread n" "wq_list (wait_queues s (RetcodeWQ t)) = []"
    and nt: "t_magic nt = THREAD_MAGIC" "t_queue_node nt = None" "0 \<le> t_priority nt" "t_priority nt < NUM_PRIORITIES"
      "t_state nt = THREAD_SUSPENDED" "\<not> thread_is_idle nt" "t_blocking_wait_queue nt = None"
    and s': "threads s' = (threads s)(t := nt)"
      "wait_queues s' = (wait_queues s)(RetcodeWQ t := WAIT_QUEUE_INITIAL_VALUE)"
      "thread_list s' = (if add then t # thread_list s else thread_list s)"
      "run_queue s' = run_queue s" "run_queue_bitmap s' = run_queue_bitmap s"
      "current_thread s' = current_thread s" "active_cpus s' = active_cpus s" "idle_cpus s' = idle_cpus s"
      "timers s' = timers s" "timer_queue s' = timer_queue s"
  shows "sched_inv s'"
proof -
  note I = kinvD [OF inv]
  have lv: "live s' x \<longleftrightarrow> live s x \<or> add \<and> x = t" for x by (auto simp: live_def s')
  have old: "t_queue_node (threads s t) = None"
    by (rule not_live_queue_node [OF inv fresh(1)])
  have wl: "wq_list (wait_queues s' w) = wq_list (wait_queues s w)" for w
    using fresh(3) by (simp add: s' WAIT_QUEUE_INITIAL_VALUE_def)
  have node: "t_queue_node (threads s' x) = t_queue_node (threads s x)" for x
    using old nt(2) by (simp add: s')
  have cur: "current_thread s d = Some x \<Longrightarrow> x \<noteq> t" for d x
    using currentD(3) [OF inv, of d x] fresh(1) by auto
  have "queues_ok s'" using I(1) by (simp add: queues_ok_def s'(4,5) wl node)
  moreover have "wqs_ok s'" using I(2) by (auto simp: wqs_ok_def s'(2) WAIT_QUEUE_INITIAL_VALUE_def)
  moreover have "threads_ok {} s'" unfolding threads_ok_def
  proof (intro conjI allI)
    show "distinct (thread_list s')" using I(3) fresh(1) by (simp add: threads_ok_def s'(3) live_def)
    fix x have ok: "thread_ok {} s x" using I(3) by (simp add: threads_ok_def)
    show "thread_ok {} s' x"
    proof (cases "x = t")
      case True
      then show ?thesis using nt fresh(2) by (simp add: thread_ok_def Let_def s'(1))
    next
      case False
      then have "threads s' x = threads s x" "live s' x = live s x" by (simp_all add: s'(1) lv)
      then show ?thesis using ok by (simp only: thread_ok_def)
    qed
  qed
  moreover have "cpus_ok {} s'"
    by (rule cpus_okI; use cur currentD [OF inv] runningD [OF inv] nt(5) in \<open>auto simp: s'(1,6) lv split: if_splits\<close>)
  moreover have "idle_ok s'"
    using I(5) fresh(2) cur unfolding idle_ok_def lv s'(6,7,8) by (auto simp: s'(1))
  moreover have "preempt_ok s'"
    using I(6) cur unfolding preempt_ok_def s'(6,9) by (auto simp: s'(1))
  moreover have "stack_timers_ok s'"
    using I(7) fresh(1) nt(5) unfolding stack_timers_ok_def lv s'(9) by (auto simp: s'(1))
  moreover have "timer_inv s'" using I(8) timer_inv_cong [OF s'(9,10)] by simp
  ultimately show ?thesis by (simp add: kinv_def)
qed

definition fresh_thread :: "'x kernel_scheme \<Rightarrow> tid \<Rightarrow> bool" where
  "fresh_thread s t \<longleftrightarrow> \<not> live s t \<and> (\<exists>n. t = Thread n) \<and> wq_list (wait_queues s (RetcodeWQ t)) = []"

text \<open>
  Creating a thread succeeds when both allocations do, and then the thread is suspended, first in the
  thread list, unpinned and not detached; otherwise the scheduler's state is as before.
\<close>

lemma thread_create_etc_ok:
  assumes inv: "sched_inv s" and cur: "current_thread s c = Some ct"
    and prio: "0 \<le> priority" "priority < NUM_PRIORITIES"
    and t: "(case t0 of None \<Rightarrow> malloc_struct | Some x \<Rightarrow> Some x) = Some t" and fresh: "fresh_thread s t"
    and st: "(case stack of None \<Rightarrow> malloc_stack | Some x \<Rightarrow> Some x) = Some st"
  shows "\<exists>s'. thread_create_etc t0 name entry arg priority stack stack_size malloc_struct malloc_stack c s
             = Some (Some t, s')
           \<and> sched_inv s' \<and> current_thread s' = current_thread s \<and> thread_list s' = t # thread_list s
           \<and> t_state (threads s' t) = THREAD_SUSPENDED \<and> t_priority (threads s' t) = priority
           \<and> t_entry (threads s' t) = entry \<and> t_arg (threads s' t) = arg
           \<and> t_pinned_cpu (threads s' t) = - 1 \<and> t_stack (threads s' t) = Some st
           \<and> t_flags (threads s' t) AND THREAD_FLAG_DETACHED = 0
           \<and> t_tls (threads s' t) = t_tls (threads s ct) \<and> (\<forall>x. x \<noteq> t \<longrightarrow> threads s' x = threads s x)
           \<and> wait_queues s' = (wait_queues s)(RetcodeWQ t := WAIT_QUEUE_INITIAL_VALUE)
           \<and> timers s' = timers s \<and> kernel.more s' = kernel.more s"
proof -
  have ne: "ct \<noteq> t" using currentD(3) [OF inv cur] fresh by (auto simp: fresh_thread_def)
  obtain s' where s': "thread_create_etc t0 name entry arg priority stack stack_size malloc_struct malloc_stack c s
      = Some (Some t, s')"
    using t st cur by (auto simp: thread_create_etc_def Let_def wait_queue_init_def init_thread_struct_def)
  note eqs = s' [unfolded thread_create_etc_def Let_def wait_queue_init_def init_thread_struct_def t option.case st]
  define nt where "nt = threads s' t"
  have nt: "t_state nt = THREAD_SUSPENDED" "t_priority nt = priority" "t_entry nt = entry" "t_arg nt = arg"
      "t_pinned_cpu nt = - 1" "t_stack nt = Some st" "t_tls nt = t_tls (threads s ct)"
      "t_magic nt = THREAD_MAGIC" "t_queue_node nt = None"
      "t_flags nt AND THREAD_FLAG_DETACHED = 0" "\<not> thread_is_idle nt" "t_blocking_wait_queue nt = None"
    unfolding nt_def thread_is_idle_def using eqs cur ne
    by (auto simp: zero_thread_def split: if_splits)
  have fr: "threads s' = (threads s)(t := nt)"
      "wait_queues s' = (wait_queues s)(RetcodeWQ t := WAIT_QUEUE_INITIAL_VALUE)"
      "thread_list s' = (if True then t # thread_list s else thread_list s)"
      "run_queue s' = run_queue s" "run_queue_bitmap s' = run_queue_bitmap s"
      "current_thread s' = current_thread s" "active_cpus s' = active_cpus s" "idle_cpus s' = idle_cpus s"
      "timers s' = timers s" "timer_queue s' = timer_queue s"
    and mo: "kernel.more s' = kernel.more s"
    using eqs cur unfolding nt_def by (auto split: if_splits)
  obtain n where n: "t = Thread n" using fresh by (auto simp: fresh_thread_def)
  have "sched_inv s'"
    using kinv_new_thread [OF inv _ n _ nt(8,9) _ _ nt(1,11,12) fr] fresh nt(2) prio by (simp add: fresh_thread_def)
  then show ?thesis using s' mo by (simp add: nt fr)
qed

lemma thread_create_etc_fails:
  assumes inv: "sched_inv s" and prio: "0 \<le> priority" "priority < NUM_PRIORITIES"
    and fresh: "\<And>t. (case t0 of None \<Rightarrow> malloc_struct | Some x \<Rightarrow> Some x) = Some t \<Longrightarrow> fresh_thread s t"
    and none: "(case t0 of None \<Rightarrow> malloc_struct | Some x \<Rightarrow> Some x) = None
      \<or> (case stack of None \<Rightarrow> malloc_stack | Some x \<Rightarrow> Some x) = None"
  shows "\<exists>s'. thread_create_etc t0 name entry arg priority stack stack_size malloc_struct malloc_stack c s
             = Some (None, s')
           \<and> sched_inv s' \<and> current_thread s' = current_thread s \<and> thread_list s' = thread_list s
           \<and> timers s' = timers s \<and> kernel.more s' = kernel.more s
           \<and> (s' = s \<or> (\<exists>t. fresh_thread s t \<and> (\<forall>x. x \<noteq> t \<longrightarrow> threads s' x = threads s x)
                \<and> wait_queues s' = (wait_queues s)(RetcodeWQ t := WAIT_QUEUE_INITIAL_VALUE)))"
proof (cases "case t0 of None \<Rightarrow> malloc_struct | Some x \<Rightarrow> Some x")
  case None
  then show ?thesis using inv by (simp add: thread_create_etc_def)
next
  case (Some t)
  have st: "(case stack of None \<Rightarrow> malloc_stack | Some x \<Rightarrow> Some x) = None" using none Some by simp
  have f: "fresh_thread s t" by (rule fresh [OF Some])
  obtain s' where s': "thread_create_etc t0 name entry arg priority stack stack_size malloc_struct malloc_stack c s
      = Some (None, s')"
    using Some st by (auto simp: thread_create_etc_def Let_def wait_queue_init_def init_thread_struct_def)
  note eqs = s' [unfolded thread_create_etc_def Let_def wait_queue_init_def init_thread_struct_def Some option.case st]
  define nt where "nt = threads s' t"
  have nt: "t_state nt = THREAD_SUSPENDED" "t_priority nt = priority"
      "t_magic nt = THREAD_MAGIC" "t_queue_node nt = None" "\<not> thread_is_idle nt"
      "t_blocking_wait_queue nt = None"
    unfolding nt_def thread_is_idle_def using eqs by (auto simp: zero_thread_def split: if_splits)
  have fr: "threads s' = (threads s)(t := nt)"
      "wait_queues s' = (wait_queues s)(RetcodeWQ t := WAIT_QUEUE_INITIAL_VALUE)"
      "thread_list s' = (if False then t # thread_list s else thread_list s)"
      "run_queue s' = run_queue s" "run_queue_bitmap s' = run_queue_bitmap s"
      "current_thread s' = current_thread s" "active_cpus s' = active_cpus s" "idle_cpus s' = idle_cpus s"
      "timers s' = timers s" "timer_queue s' = timer_queue s"
    and mo: "kernel.more s' = kernel.more s"
    using eqs unfolding nt_def by (auto split: if_splits)
  obtain n where n: "t = Thread n" using f by (auto simp: fresh_thread_def)
  have "sched_inv s'"
    using kinv_new_thread [OF inv _ n _ nt(3,4) _ _ nt(1,5,6) fr] f nt(2) prio by (simp add: fresh_thread_def)
  moreover have "\<forall>x. x \<noteq> t \<longrightarrow> threads s' x = threads s x" using fr(1) by simp
  ultimately show ?thesis using s' fr(2,3,6,9) f mo by auto
qed

section \<open>Ending a thread\<close>

lemma wake_all_quiet_ok:
  assumes inv: "kinv {} C s" and cur: "current_thread s c = Some ct"
    and wq: "wq_magic (wait_queues s w) = WAIT_QUEUE_MAGIC"
  shows "\<exists>n s'. wait_queue_wake_all w False err c s = Some (n, s')
           \<and> kinv {} C s' \<and> shuffled c (wq_take_list w (wq_list (wait_queues s w)) err s) s'
           \<and> current_thread s' = current_thread s"
proof -
  let ?ts = "wq_list (wait_queues s w)"
  obtain m' s2 where r: "wake_all_loop w err ?ts 0 0 s = Some (m', 0 + int (length ?ts), s2)"
      and s2: "kinv {} C s2" "shuffled c (wq_take_list w ?ts err s) s2" "current_thread s2 = current_thread s"
    using wake_all_loop_ok [OF inv refl, of w err 0 0 c] by blast
  have e2: "wq_list (wait_queues s2 w) = []" "wq_magic (wait_queues s2 w) = WAIT_QUEUE_MAGIC"
    using shuffledD(1) [OF s2(2)] wq_take_list_empties [of s w] wq by simp_all
  have c2: "wq_count (wait_queues s2 w) = 0" using wait_queueD(3) [OF s2(1) e2(2)] e2(1) by simp
  obtain xs where mp: "mp_reschedule m' 0 c s2 = s2\<lparr>ipis := xs\<rparr>" using mp_reschedule_cases by blast
  have "wait_queue_wake_all w False err c s =
      Some (int (length ?ts), if ?ts = [] then s2 else s2\<lparr>ipis := xs\<rparr>)"
    using cur wq r c2 mp by (simp add: wait_queue_wake_all_def Let_def)
  then show ?thesis using s2 shuffled_trans [OF s2(2) shuffled_ipis] by auto
qed

lemma kinv_die:
  assumes inv: "sched_inv s" and cur: "current_thread s c = Some ct"
    and idle: "\<not> thread_is_idle (threads s ct)" and nd: "tm_node (timers s (StackTimer ct)) = None"
  shows "kinv {} {c} (upd_thread ct (\<lambda>th. th\<lparr>t_state := THREAD_DEATH, t_retcode := r\<rparr>) s)" (is "kinv {} {c} ?s")
proof -
  let ?f = "\<lambda>th. th\<lparr>t_state := THREAD_DEATH, t_retcode := r\<rparr>"
  note I = kinvD [OF inv] and ct = currentD(3) [OF inv cur, simplified]
  have lvs: "live ?s = live s" by simp
  have qn: "t_queue_node (threads s ct) = None" using queue_node_None [OF inv] ct by simp
  have ni: "ct \<noteq> IdleThread d" for d using thread_okD(3) [OF inv, of ct] ct idle by auto
  have "queues_ok ?s" using I(1) by (auto simp: queues_ok_def)
  moreover have "wqs_ok ?s" using I(2) by (simp add: wqs_ok_def)
  moreover have "threads_ok {} ?s"
    by (rule threads_okI [OF inv, where t = ct])
      (use thread_ok_self [OF inv, of ct] qn ct idle in \<open>auto simp: thread_ok_def Let_def\<close>)
  moreover have "cpus_ok {c} ?s" using cpus_ok_leave [OF inv cur, of ?f] by simp
  moreover have "idle_ok ?s" using I(5) ni unfolding idle_ok_def lvs by auto
  moreover have "preempt_ok ?s" using I(6) unfolding preempt_ok_def by auto
  moreover have "stack_timers_ok ?s" using I(7) nd unfolding stack_timers_ok_def lvs by auto
  ultimately show ?thesis using I(8) by (simp add: kinv_def)
qed

text \<open>A dead thread leaves the thread list; its structure keeps the fields the scheduler reads.\<close>

lemma kinv_unlist:
  assumes inv: "kinv {} C s" and st: "t_state (threads s t) = THREAD_DEATH" and t: "t = Thread n"
    and nd: "tm_node (timers s (StackTimer t)) = None"
    and s': "threads s' = (threads s)(t := th')" "thread_list s' = remove1 t (thread_list s)"
      "t_state th' = THREAD_DEATH" "t_queue_node th' = t_queue_node (threads s t)"
      "t_curr_cpu th' = t_curr_cpu (threads s t)" "t_pinned_cpu th' = t_pinned_cpu (threads s t)"
      "thread_is_idle th' = thread_is_idle (threads s t)"
      "thread_is_real_time_or_idle th' = thread_is_real_time_or_idle (threads s t)"
      "run_queue s' = run_queue s" "run_queue_bitmap s' = run_queue_bitmap s" "wait_queues s' = wait_queues s"
      "current_thread s' = current_thread s" "active_cpus s' = active_cpus s" "idle_cpus s' = idle_cpus s"
      "timers s' = timers s" "timer_queue s' = timer_queue s"
  shows "kinv {} C s'"
proof -
  note I = kinvD [OF inv]
  have dis: "distinct (thread_list s)" using I(3) by (simp add: threads_ok_def)
  have lv: "live s' x \<longleftrightarrow> live s x \<and> x \<noteq> t" for x by (auto simp: live_def s'(2) set_remove1_distinct dis)
  have qn: "t_queue_node (threads s t) = None" using queue_node_None [OF inv] st by simp
  have node: "t_queue_node (threads s' x) = t_queue_node (threads s x)" for x by (simp add: s')
  have cur: "current_thread s d = Some t \<Longrightarrow> d \<in> C" for d using currentD(3) [OF inv, of d t] st by auto
  have "queues_ok s'" using I(1) by (simp add: queues_ok_def s'(9-11) node)
  moreover have "wqs_ok s'" using I(2) by (simp add: wqs_ok_def s'(11))
  moreover have "threads_ok {} s'" unfolding threads_ok_def
  proof (intro conjI allI)
    show "distinct (thread_list s')" using dis by (simp add: s'(2))
    fix x show "thread_ok {} s' x"
    proof (cases "x = t")
      case True
      then show ?thesis using qn s'(4) by (simp add: thread_ok_def Let_def lv s'(1))
    next
      case False
      then have "threads s' x = threads s x" "live s' x = live s x" by (simp_all add: s'(1) lv)
      then show ?thesis using thread_ok_self [OF inv, of x] by (simp only: thread_ok_def)
    qed
  qed
  moreover have "cpus_ok C s'"
    by (rule cpus_okI; use cur currentD [OF inv] runningD [OF inv] st s'(3,5,6) in
        \<open>auto simp: s'(1,12) lv split: if_splits\<close>)
  moreover have "idle_ok s'"
    using I(5) t s'(7) unfolding idle_ok_def lv s'(12-14) by (auto simp: s'(1))
  moreover have "preempt_ok s'"
    using I(6) s'(8) unfolding preempt_ok_def s'(12,15) by (auto simp: s'(1))
  moreover have "stack_timers_ok s'"
    using I(7) nd unfolding stack_timers_ok_def lv s'(15) by (auto simp: s'(1))
  moreover have "timer_inv s'" using I(8) timer_inv_cong [OF s'(15,16)] by simp
  ultimately show ?thesis by (simp add: kinv_def)
qed

lemma flag_stack_check [simp]:
  "thread_is_idle (th\<lparr>t_flags := f AND NOT THREAD_FLAG_DEBUG_STACK_BOUNDS_CHECK\<rparr>) \<longleftrightarrow> f AND 16 \<noteq> 0"
  "thread_is_real_time_or_idle (th\<lparr>t_flags := f AND NOT THREAD_FLAG_DEBUG_STACK_BOUNDS_CHECK\<rparr>) \<longleftrightarrow> f AND 24 \<noteq> 0"
  by (simp_all add: thread_is_idle_def thread_is_real_time_or_idle_def and.assoc)

text \<open>The state of an exiting thread before the switch.\<close>

definition exited :: "nat \<Rightarrow> tid \<Rightarrow> int \<Rightarrow> 'x kernel_scheme \<Rightarrow> 'x kernel_scheme \<Rightarrow> bool" where
  "exited c t r s s1 \<longleftrightarrow> kernel.more s1 = kernel.more s
     \<and> (\<forall>x. timers s1 (StackTimer x) = timers s (StackTimer x)) \<and> t_state (threads s1 t) = THREAD_DEATH \<and> t_retcode (threads s1 t) = r
     \<and> (if t_flags (threads s t) AND THREAD_FLAG_DETACHED \<noteq> 0
        then thread_list s1 = remove1 t (thread_list s) \<and> wait_queues s1 = wait_queues s
          \<and> (\<forall>x. x \<noteq> t \<longrightarrow> threads s1 x = threads s x)
        else shuffled c (wq_take_list (RetcodeWQ t) (wq_list (wait_queues s (RetcodeWQ t))) 0
               (upd_thread t (\<lambda>th. th\<lparr>t_state := THREAD_DEATH, t_retcode := r\<rparr>) s)) s1)"

lemma exit_detached_ok:
  assumes inv: "kinv {} {c} s" and st: "t_state (threads s ct) = THREAD_DEATH" and t: "ct = Thread n"
    and nd: "tm_node (timers s (StackTimer ct)) = None"
  defines "s1 \<equiv> (let s = s\<lparr>thread_list := remove1 ct (thread_list s)\<rparr>;
             s = upd_thread ct (\<lambda>th. th\<lparr>t_magic := 0\<rparr>) s;
             s = (case t_stack (threads s ct) of
                    Some st \<Rightarrow>
                      if t_flags (threads s ct) AND THREAD_FLAG_FREE_STACK \<noteq> 0
                      then upd_thread ct (\<lambda>th. th\<lparr>t_flags :=
                               t_flags th AND NOT THREAD_FLAG_DEBUG_STACK_BOUNDS_CHECK\<rparr>)
                             (s\<lparr>heap_freed := ThreadStack st # heap_freed s\<rparr>)
                      else s
                  | None \<Rightarrow> s)
           in if t_flags (threads s ct) AND THREAD_FLAG_FREE_STRUCT \<noteq> 0
              then s\<lparr>heap_freed := ThreadStruct ct # heap_freed s\<rparr> else s)"
  shows "kinv {} {c} s1" "thread_list s1 = remove1 ct (thread_list s)" "wait_queues s1 = wait_queues s"
    "kernel.more s1 = kernel.more s" "timers s1 = timers s" "current_thread s1 = current_thread s"
    "\<And>x. x \<noteq> ct \<Longrightarrow> threads s1 x = threads s x" "t_state (threads s1 ct) = THREAD_DEATH"
    "t_retcode (threads s1 ct) = t_retcode (threads s ct)"
proof -
  show eqs: "thread_list s1 = remove1 ct (thread_list s)" "wait_queues s1 = wait_queues s"
    "kernel.more s1 = kernel.more s" "timers s1 = timers s" "current_thread s1 = current_thread s"
    "\<And>x. x \<noteq> ct \<Longrightarrow> threads s1 x = threads s x" "t_state (threads s1 ct) = THREAD_DEATH"
    "t_retcode (threads s1 ct) = t_retcode (threads s ct)"
    using st by (simp_all add: s1_def Let_def split: option.splits)
  have "threads s1 = (threads s)(ct := threads s1 ct)" using eqs(6) by auto
  then show "kinv {} {c} s1"
    by (rule kinv_unlist [OF inv st t nd])
      (use st in \<open>simp_all add: s1_def Let_def split: option.splits\<close>,
       simp_all add: thread_is_idle_def thread_is_real_time_or_idle_def and.assoc)
qed

lemma thread_exit_ok:
  assumes inv: "sched_inv s" and cur: "current_thread s c = Some ct"
    and idle: "\<not> thread_is_idle (threads s ct)" and nd: "tm_node (timers s (StackTimer ct)) = None"
    and wq: "wq_magic (wait_queues s (RetcodeWQ ct)) = WAIT_QUEUE_MAGIC"
  shows "\<exists>s1 s'. thread_exit r c s = Some s' \<and> sched_inv s' \<and> exited c ct r s s1 \<and> shuffled c s1 s'"
proof -
  note ct = currentD(3) [OF inv cur, simplified]
  let ?f = "\<lambda>th. th\<lparr>t_state := THREAD_DEATH, t_retcode := r\<rparr>"
  let ?d = "upd_thread ct ?f s"
  let ?w = "RetcodeWQ ct"
  have kd: "kinv {} {c} ?d" by (rule kinv_die [OF inv cur idle nd])
  have mg: "t_magic (threads s ct) = THREAD_MAGIC" using thread_okD(1) [OF inv, of ct] ct by simp
  obtain n where n: "ct = Thread n" using thread_okD(3) [OF inv, of ct] ct idle by (cases ct) auto
  have resched: "\<exists>s'. thread_resched c s1 = Some s' \<and> sched_inv s' \<and> shuffled c s1 s'"
    if "kinv {} {c} s1" "current_thread s1 = current_thread s" for s1 :: "'a kernel_scheme"
    using resched_ok [OF that(1), of ct] that(2) cur by simp
  show ?thesis
  proof (cases "t_flags (threads s ct) AND THREAD_FLAG_DETACHED \<noteq> 0")
    case True
    obtain s1 where s1: "s1 = (let s = ?d\<lparr>thread_list := remove1 ct (thread_list ?d)\<rparr>;
             s = upd_thread ct (\<lambda>th. th\<lparr>t_magic := 0\<rparr>) s;
             s = (case t_stack (threads s ct) of
                    Some st \<Rightarrow>
                      if t_flags (threads s ct) AND THREAD_FLAG_FREE_STACK \<noteq> 0
                      then upd_thread ct (\<lambda>th. th\<lparr>t_flags :=
                               t_flags th AND NOT THREAD_FLAG_DEBUG_STACK_BOUNDS_CHECK\<rparr>)
                             (s\<lparr>heap_freed := ThreadStack st # heap_freed s\<rparr>)
                      else s
                  | None \<Rightarrow> s)
           in if t_flags (threads s ct) AND THREAD_FLAG_FREE_STRUCT \<noteq> 0
              then s\<lparr>heap_freed := ThreadStruct ct # heap_freed s\<rparr> else s)" by blast
    have nd1: "tm_node (timers ?d (StackTimer ct)) = None" "t_state (threads ?d ct) = THREAD_DEATH"
      using nd by simp_all
    note E = exit_detached_ok [OF kd nd1(2) n nd1(1), folded s1]
    have "exited c ct r s s1"
      using E True by (simp add: exited_def)
    moreover obtain s' where "thread_resched c s1 = Some s'" "sched_inv s'" "shuffled c s1 s'"
      using resched [of s1] E(1,6) by auto
    moreover have "thread_exit r c s = thread_resched c s1"
      using cur mg ct idle True unfolding s1 by (simp add: thread_exit_def Let_def)
    ultimately show ?thesis by auto
  next
    case False
    obtain m s1 where s1: "wait_queue_wake_all ?w False 0 c ?d = Some (m, s1)" "kinv {} {c} s1"
        "shuffled c (wq_take_list ?w (wq_list (wait_queues ?d ?w)) 0 ?d) s1" "current_thread s1 = current_thread s"
      using wake_all_quiet_ok [OF kd, of c ct ?w 0] cur wq by auto
    have nw: "ct \<notin> set (wq_list (wait_queues s ?w))"
      using waitingD(2) [OF inv, of ct ?w] ct by auto
    have "sched_same (threads (wq_take_list ?w (wq_list (wait_queues ?d ?w)) 0 ?d) ct) (threads s1 ct)"
      using s1(3) by (simp add: shuffled_def)
    then have "t_state (threads s1 ct) = THREAD_DEATH" "t_retcode (threads s1 ct) = r"
      using nw by (simp_all add: sched_same_def)
    then have "exited c ct r s s1"
      using s1(3) False shuffledD(4,5) [OF s1(3)] by (simp add: exited_def)
    moreover obtain s' where "thread_resched c s1 = Some s'" "sched_inv s'" "shuffled c s1 s'"
      using resched [of s1] s1(2,4) by auto
    moreover have "thread_exit r c s = thread_resched c s1"
      using cur mg ct idle False s1(1) by (simp add: thread_exit_def Let_def)
    ultimately show ?thesis by auto
  qed
qed

section \<open>Joining and detaching\<close>

text \<open>Flags other than those of idle and real-time threads are free to change.\<close>

lemma kinv_upd_flags:
  assumes inv: "kinv L C s"
    and f: "thread_is_idle ((threads s t)\<lparr>t_flags := g (threads s t)\<rparr>) = thread_is_idle (threads s t)"
      "\<And>c. current_thread s c = Some t \<Longrightarrow>
         thread_is_real_time_or_idle ((threads s t)\<lparr>t_flags := g (threads s t)\<rparr>)
           = thread_is_real_time_or_idle (threads s t)"
  shows "kinv L C (upd_thread t (\<lambda>th. th\<lparr>t_flags := g th\<rparr>) s)" (is "kinv L C ?s")
proof -
  note I = kinvD [OF inv]
  have proj: "t_magic (threads ?s x) = t_magic (threads s x)" "t_queue_node (threads ?s x) = t_queue_node (threads s x)"
      "t_curr_cpu (threads ?s x) = t_curr_cpu (threads s x)" "t_pinned_cpu (threads ?s x) = t_pinned_cpu (threads s x)"
      "t_blocking_wait_queue (threads ?s x) = t_blocking_wait_queue (threads s x)"
      "t_state (threads ?s x) = t_state (threads s x)" "t_priority (threads ?s x) = t_priority (threads s x)"
      "thread_is_idle (threads ?s x) = thread_is_idle (threads s x)" for x
    using f(1) by (cases "x = t"; simp)+
  note eqs = proj live_simps(1) upd_thread_simps(2-)
  have rt: "current_thread s c = Some x \<Longrightarrow>
      thread_is_real_time_or_idle (threads ?s x) = thread_is_real_time_or_idle (threads s x)" for c x
    using f(2) [of c] by simp
  have "preempt_ok ?s" using I(6) rt unfolding preempt_ok_def upd_thread_simps(2-) by blast
  moreover have "queues_ok ?s \<and> wqs_ok ?s \<and> threads_ok L ?s \<and> cpus_ok C ?s \<and> idle_ok ?s \<and> stack_timers_ok ?s"
    using I unfolding queues_ok_def wqs_ok_def threads_ok_def thread_ok_def cpus_ok_def idle_ok_def
      stack_timers_ok_def timer_inv_def Let_def eqs by blast
  ultimately show ?thesis using I(8) by (simp add: kinv_def)
qed

text \<open>A dead thread is reaped: its return code is handed over and it leaves the thread list.\<close>

lemma thread_join_finish_ok:
  assumes inv: "sched_inv s" and lv: "live s t" and st: "t_state (threads s t) = THREAD_DEATH"
    and nd: "tm_node (timers s (StackTimer t)) = None"
  shows "\<exists>s'. thread_join_finish t s = Some (t_retcode (threads s t), s') \<and> sched_inv s'
           \<and> thread_list s' = remove1 t (thread_list s) \<and> wait_queues s' = wait_queues s
           \<and> current_thread s' = current_thread s \<and> kernel.more s' = kernel.more s \<and> timers s' = timers s
           \<and> (\<forall>x. x \<noteq> t \<longrightarrow> threads s' x = threads s x) \<and> t_magic (threads s' t) = 0"
proof -
  have ni: "\<not> thread_is_idle (threads s t)" using thread_okD(3) [OF inv lv] idleD(3) [OF inv] lv st by fastforce
  then obtain n where n: "t = Thread n" using thread_okD(3) [OF inv lv] by (cases t) auto
  have "t_magic (threads s t) = THREAD_MAGIC" "t_blocking_wait_queue (threads s t) = None"
      "t_queue_node (threads s t) = None"
    using thread_okD(1,9) [OF inv lv] queue_node_None [OF inv] st by simp_all
  then obtain s' where s': "thread_join_finish t s = Some (t_retcode (threads s t), s')"
    using st by (simp add: thread_join_finish_def Let_def)
  have eqs: "thread_list s' = remove1 t (thread_list s)" "wait_queues s' = wait_queues s"
      "current_thread s' = current_thread s" "kernel.more s' = kernel.more s" "timers s' = timers s"
      "run_queue s' = run_queue s" "run_queue_bitmap s' = run_queue_bitmap s"
      "active_cpus s' = active_cpus s" "idle_cpus s' = idle_cpus s" "timer_queue s' = timer_queue s"
      "threads s' = (threads s)(t := (threads s t)\<lparr>t_magic := 0\<rparr>)"
    using s' unfolding thread_join_finish_def Let_def by (auto split: option.splits if_splits)
  have "sched_inv s'"
    by (rule kinv_unlist [OF inv st n nd eqs(11,1)]) (use st in \<open>simp_all add: eqs\<close>)
  then show ?thesis using s' eqs by simp
qed

text \<open>
  What relates a thread to those that join it: while it lives its wait queue is valid, and nobody waits
  there for a thread that is dead, detached or gone.
\<close>

definition join_ok :: "'x kernel_scheme \<Rightarrow> bool" where
  "join_ok s \<longleftrightarrow> (\<forall>t.
     (live s t \<longrightarrow> wq_magic (wait_queues s (RetcodeWQ t)) = WAIT_QUEUE_MAGIC) \<and>
     (\<not> live s t \<or> t_state (threads s t) = THREAD_DEATH \<or> t_flags (threads s t) AND THREAD_FLAG_DETACHED \<noteq> 0
        \<longrightarrow> wq_list (wait_queues s (RetcodeWQ t)) = []))"

lemma join_okD:
  assumes "join_ok s"
  shows "live s t \<Longrightarrow> wq_magic (wait_queues s (RetcodeWQ t)) = WAIT_QUEUE_MAGIC"
    and "\<not> live s t \<or> t_state (threads s t) = THREAD_DEATH \<or> t_flags (threads s t) AND THREAD_FLAG_DETACHED \<noteq> 0
      \<Longrightarrow> wq_list (wait_queues s (RetcodeWQ t)) = []"
  using assms by (auto simp: join_ok_def)

lemma join_ok_same_waits: "join_ok s \<Longrightarrow> same_waits s s' \<Longrightarrow> join_ok s'"
  unfolding join_ok_def same_waits_def live_def by simp

lemma join_ok_shuffled: "join_ok s \<Longrightarrow> shuffled c s s' \<Longrightarrow> join_ok s'"
  by (rule join_ok_same_waits [OF _ shuffled_same_waits])

text \<open>Waking cannot break it.\<close>

lemma join_ok_wq_take:
  assumes "sched_inv s" and "join_ok s" and "t \<in> set (wq_list (wait_queues s w))"
  shows "join_ok (wq_take w t err s)"
proof -
  have "t_state (threads s t) = THREAD_BLOCKED" by (rule waitingD(2) [OF assms(1,3)])
  then have "t_state (threads (wq_take w t err s) x) = THREAD_DEATH \<longleftrightarrow> t_state (threads s x) = THREAD_DEATH" for x
    by (cases "x = t") simp_all
  then show ?thesis using assms(2) by (auto simp: join_ok_def)
qed

lemma join_ok_timeouts: "timeouts s0 s \<Longrightarrow> join_ok s0 \<Longrightarrow> join_ok s"
proof (induction rule: timeouts.induct)
  case (same s s')
  then show ?case using join_ok_same_waits by blast
next
  case (expire s t w s')
  then show ?case using join_ok_same_waits join_ok_wq_take by blast
qed simp

lemma thread_detach_ok:
  assumes inv: "sched_inv s" and cur: "current_thread s c = Some ct" and lv: "live s t"
    and wq: "wq_magic (wait_queues s (RetcodeWQ t)) = WAIT_QUEUE_MAGIC"
    and nd: "t_state (threads s t) = THREAD_DEATH \<Longrightarrow> tm_node (timers s (StackTimer t)) = None"
  shows "\<exists>s1 s'. thread_detach t c s = Some (NO_ERROR, s') \<and> sched_inv s'
           \<and> shuffled c (wq_take_list (RetcodeWQ t) (wq_list (wait_queues s (RetcodeWQ t))) ERR_THREAD_DETACHED s) s1
           \<and> wait_queues s' = wait_queues s1 \<and> kernel.more s' = kernel.more s1 \<and> timers s' = timers s1
           \<and> (\<forall>x. x \<noteq> t \<longrightarrow> threads s' x = threads s1 x) \<and> current_thread s' = current_thread s
           \<and> (if t_state (threads s t) = THREAD_DEATH then thread_list s' = remove1 t (thread_list s)
              else thread_list s' = thread_list s
                \<and> threads s' t = (threads s1 t)\<lparr>t_flags := t_flags (threads s1 t) OR THREAD_FLAG_DETACHED\<rparr>)"
proof -
  let ?w = "RetcodeWQ t" and ?ts = "wq_list (wait_queues s (RetcodeWQ t))"
  obtain m s1 where s1: "wait_queue_wake_all ?w False ERR_THREAD_DETACHED c s = Some (m, s1)" "sched_inv s1"
      "shuffled c (wq_take_list ?w ?ts ERR_THREAD_DETACHED s) s1" "current_thread s1 = current_thread s"
    using wake_all_quiet_ok [OF inv cur wq, of "ERR_THREAD_DETACHED"] by blast
  have mg: "t_magic (threads s t) = THREAD_MAGIC" by (rule thread_okD(1) [OF inv lv])
  have dead: "t_state (threads s1 t) = THREAD_DEATH \<longleftrightarrow> t_state (threads s t) = THREAD_DEATH"
    using shuffledD(9) [OF s1(3), of t] wq_take_list_woken(2) [of t ?ts ?w "ERR_THREAD_DETACHED" s] waitingD(2) [OF inv, of t ?w]
    by (cases "t \<in> set ?ts") auto
  have lv1: "live s1 t" and tl1: "thread_list s1 = thread_list s"
    and tm1: "timers s1 (StackTimer t) = timers s (StackTimer t)"
    using shuffledD(2,3,5) [OF s1(3)] lv by (simp_all add: live_def)
  show ?thesis
  proof (cases "t_state (threads s t) = THREAD_DEATH")
    case False
    let ?s = "upd_thread t (\<lambda>th. th\<lparr>t_flags := t_flags th OR THREAD_FLAG_DETACHED\<rparr>) s1"
    have "thread_is_idle (th\<lparr>t_flags := t_flags th OR 1\<rparr>) = thread_is_idle th"
        "thread_is_real_time_or_idle (th\<lparr>t_flags := t_flags th OR 1\<rparr>) = thread_is_real_time_or_idle th" for th
      by (simp_all add: thread_is_idle_def thread_is_real_time_or_idle_def bit.conj_disj_distrib2)
    then have "sched_inv ?s" by (intro kinv_upd_flags [OF s1(2)]) simp_all
    then show ?thesis using False s1 mg dead tl1 by (auto simp: thread_detach_def)
  next
    case True
    let ?s = "upd_thread t (\<lambda>th. th\<lparr>t_flags := t_flags th AND NOT THREAD_FLAG_DETACHED\<rparr>) s1"
    have "thread_is_idle (th\<lparr>t_flags := t_flags th AND NOT 1\<rparr>) = thread_is_idle th"
        "thread_is_real_time_or_idle (th\<lparr>t_flags := t_flags th AND NOT 1\<rparr>) = thread_is_real_time_or_idle th" for th
      by (simp_all add: thread_is_idle_def thread_is_real_time_or_idle_def and.assoc)
    then have k: "sched_inv ?s" by (intro kinv_upd_flags [OF s1(2)]) simp_all
    have "tm_node (timers ?s (StackTimer t)) = None" using nd [OF True] tm1 by simp
    then obtain r s' where s': "thread_join_finish t ?s = Some (r, s')" "sched_inv s'"
        "thread_list s' = remove1 t (thread_list ?s)" "wait_queues s' = wait_queues ?s"
        "current_thread s' = current_thread ?s" "kernel.more s' = kernel.more ?s" "timers s' = timers ?s"
        "\<forall>x. x \<noteq> t \<longrightarrow> threads s' x = threads ?s x"
      using thread_join_finish_ok [OF k, of t] lv1 dead True by auto
    have "t_magic (threads ?s t) = THREAD_MAGIC" using thread_okD(1) [OF k, of t] lv1 by simp
    then have "thread_join t 0 c ?s = Some (Returns (NO_ERROR, Some r), s')"
      using dead True s'(1) by (simp add: thread_join_def and.assoc)
    then have "thread_detach t c s = Some (NO_ERROR, s')"
      using s1(1) mg dead True by (simp add: thread_detach_def)
    then show ?thesis using s1(3,4) s'(2-8) True tl1 by (intro exI [of _ s1] exI [of _ s']) simp
  qed
qed

text \<open>
  Joining: a detached thread cannot be joined, a dead one is reaped, and otherwise the caller blocks in
  the wait queue of the thread (with timeout 0, it gives up at once).
\<close>

lemma thread_join_ok:
  assumes inv: "sched_inv s" and cur: "current_thread s c = Some ct" and lv: "live s t"
    and idle: "\<not> thread_is_idle (threads s ct)" and nd: "tm_node (timers s (StackTimer ct)) = None"
    and wq: "wq_magic (wait_queues s (RetcodeWQ t)) = WAIT_QUEUE_MAGIC"
    and dd: "t_state (threads s t) = THREAD_DEATH \<Longrightarrow> tm_node (timers s (StackTimer t)) = None"
  shows "if t_flags (threads s t) AND THREAD_FLAG_DETACHED \<noteq> 0
         then thread_join t timeout c s = Some (Returns (ERR_THREAD_DETACHED, None), s)
         else if t_state (threads s t) = THREAD_DEATH
         then \<exists>s'. thread_join t timeout c s = Some (Returns (NO_ERROR, Some (t_retcode (threads s t))), s')
                \<and> thread_join_finish t s = Some (t_retcode (threads s t), s') \<and> sched_inv s'
         else if timeout = 0 then thread_join t timeout c s = Some (Returns (ERR_TIMED_OUT, None), s)
         else \<exists>s1 s'. thread_join t timeout c s = Some (Switches, s') \<and> sched_inv s'
                \<and> blocked_on (RetcodeWQ t) ct timeout s s1 \<and> shuffled c s1 s'"
proof -
  have mg: "t_magic (threads s t) = THREAD_MAGIC" by (rule thread_okD(1) [OF inv lv])
  note b = wait_queue_block_ok [OF inv cur idle wq nd, of timeout]
  note f = thread_join_finish_ok [OF inv lv _ dd]
  consider "t_flags (threads s t) AND THREAD_FLAG_DETACHED \<noteq> 0"
    | "t_flags (threads s t) AND THREAD_FLAG_DETACHED = 0" "t_state (threads s t) = THREAD_DEATH"
    | "t_flags (threads s t) AND THREAD_FLAG_DETACHED = 0" "t_state (threads s t) \<noteq> THREAD_DEATH" "timeout = 0"
    | "t_flags (threads s t) AND THREAD_FLAG_DETACHED = 0" "t_state (threads s t) \<noteq> THREAD_DEATH" "timeout \<noteq> 0"
    by blast
  then show ?thesis
  proof cases
    case 1
    then show ?thesis using mg by (simp add: thread_join_def)
  next
    case 2
    then show ?thesis using mg f by (auto simp: thread_join_def)
  next
    case 3
    then show ?thesis using mg b by (simp add: thread_join_def)
  next
    case 4
    then show ?thesis using mg b by (auto simp: thread_join_def)
  qed
qed

lemma or_real_time [simp]:
  "thread_is_idle (th\<lparr>t_flags := t_flags th OR THREAD_FLAG_REAL_TIME\<rparr>) = thread_is_idle th"
  "thread_is_real_time_or_idle (th\<lparr>t_flags := t_flags th OR THREAD_FLAG_REAL_TIME\<rparr>)"
proof -
  show "thread_is_idle (th\<lparr>t_flags := t_flags th OR THREAD_FLAG_REAL_TIME\<rparr>) = thread_is_idle th"
    by (simp add: thread_is_idle_def bit.conj_disj_distrib2)
  have "bit ((t_flags th OR 8) AND 24) 3" by (simp add: bit_simps)
  then have "(t_flags th OR 8) AND 24 \<noteq> 0" by (metis bit_0_eq bot_apply bot_bool_def)
  then show "thread_is_real_time_or_idle (th\<lparr>t_flags := t_flags th OR THREAD_FLAG_REAL_TIME\<rparr>)"
    by (simp add: thread_is_real_time_or_idle_def)
qed

text \<open>A thread may make itself real-time, or one that runs on no cpu.\<close>

lemma thread_set_real_time_ok:
  assumes inv: "sched_inv s" and lv: "live s t"
    and here: "\<And>d. current_thread s d = Some t \<Longrightarrow> d = c"
  shows "\<exists>s'. thread_set_real_time (Some t) c s = Some (NO_ERROR, s') \<and> sched_inv s' \<and> same_waits s s'
           \<and> current_thread s' = current_thread s"
proof -
  let ?g = "\<lambda>th. th\<lparr>t_flags := t_flags th OR THREAD_FLAG_REAL_TIME\<rparr>"
  have mg: "t_magic (threads s t) = THREAD_MAGIC" by (rule thread_okD(1) [OF inv lv])
  show ?thesis
  proof (cases "current_thread s c = Some t")
    case False
    then have "sched_inv (upd_thread t ?g s)"
      using kinv_upd_flags [OF inv, where t = t and g = "\<lambda>th. t_flags th OR THREAD_FLAG_REAL_TIME"] here by auto
    moreover have "same_waits s (upd_thread t ?g s)"
      by (simp add: same_waits_def bit.conj_disj_distrib2)
    ultimately show ?thesis using False mg by (simp add: thread_set_real_time_def)
  next
    case True
    note ct = currentD(3) [OF inv True, simplified]
    obtain s1 where s1: "timer_cancel (PreemptTimer c) c s = Some s1" "timer_inv s1"
        "tm_node (timers s1 (PreemptTimer c)) = None" "tm_magic (timers s1 (PreemptTimer c)) = TIMER_MAGIC"
        "\<forall>x. x \<noteq> PreemptTimer c \<longrightarrow> timers s1 x = timers s x" "timer_sys.more s1 = timer_sys.more s"
      using timer_cancel_ok [OF kinvD(8) [OF inv] preemptD(1) [OF inv True], of c] by blast
    note eqs = kernel_more [OF s1(6)] and I = kinvD [OF inv]
    let ?s = "upd_thread t ?g s1"
    have proj: "t_magic (threads ?s x) = t_magic (threads s x)" "t_queue_node (threads ?s x) = t_queue_node (threads s x)"
      "t_curr_cpu (threads ?s x) = t_curr_cpu (threads s x)" "t_pinned_cpu (threads ?s x) = t_pinned_cpu (threads s x)"
      "t_blocking_wait_queue (threads ?s x) = t_blocking_wait_queue (threads s x)"
      "t_state (threads ?s x) = t_state (threads s x)" "t_priority (threads ?s x) = t_priority (threads s x)"
      "thread_is_idle (threads ?s x) = thread_is_idle (threads s x)" for x
      by (cases "x = t"; simp add: eqs)+
    have lvs: "live ?s = live s" by (simp add: live_cong [OF eqs(2)])
    have tms: "timers ?s (StackTimer x) = timers s (StackTimer x)" for x using s1(5) by simp
    have pt: "(current_thread s d \<noteq> None \<longrightarrow> tm_magic (timers ?s (PreemptTimer d)) = TIMER_MAGIC) \<and>
        (\<forall>e. tm_node (timers ?s (PreemptTimer d)) = Some e \<longrightarrow>
          e = d \<and> tm_callback (timers ?s (PreemptTimer d)) = Some CB_thread_timer_tick
          \<and> tm_periodic_time (timers ?s (PreemptTimer d)) > 0) \<and>
        (\<forall>x. current_thread s d = Some x \<longrightarrow>
          (tm_node (timers ?s (PreemptTimer d)) = None \<longleftrightarrow> thread_is_real_time_or_idle (threads ?s x)))" for d
    proof (cases "d = c")
      case True
      then show ?thesis using s1(3,4) \<open>current_thread s c = Some t\<close> by simp
    next
      case False
      then have "current_thread s d \<noteq> Some t" using here by blast
      then show ?thesis using I(6) s1(5) False unfolding preempt_ok_def by (auto simp: eqs)
    qed
    have "preempt_ok ?s" unfolding preempt_ok_def upd_thread_simps(2-) eqs using pt by simp
    moreover have "queues_ok ?s \<and> wqs_ok ?s \<and> threads_ok {} ?s \<and> cpus_ok {} ?s \<and> idle_ok ?s \<and> stack_timers_ok ?s"
      using I unfolding queues_ok_def wqs_ok_def threads_ok_def thread_ok_def cpus_ok_def idle_ok_def
        stack_timers_ok_def Let_def proj lvs tms upd_thread_simps(2-13) eqs by blast
    ultimately have "sched_inv ?s" using s1(2) by (simp add: kinv_def)
    moreover have "same_waits s ?s"
      unfolding same_waits_def proj tms by (simp add: eqs bit.conj_disj_distrib2)
    ultimately show ?thesis using True mg s1(1) eqs by (simp add: thread_set_real_time_def)
  qed
qed

end
