(* ===== verification/Sync.thy ===== *)
theory Sync
  imports Thread_Life
begin

text \<open>
  The blocking primitives of \<^verbatim>\<open>kernel/mutex.c\<close>, \<^verbatim>\<open>kernel/semaphore.c\<close> and \<^verbatim>\<open>kernel/event.c\<close> on top of
  the wait queues. The objects are numbered; the wait queue inside object \<open>i\<close> is \<open>MutexWQ i\<close>, \<open>SemWQ i\<close> or
  \<open>EventWQ i\<close>. A call that blocks is split at the context switch, as in \<open>Thread\<close>.

  The lemmas say, for every branch of every operation, what it returns and which scheduler state it
  leaves, and that no assertion fails.
\<close>

section \<open>Objects\<close>

abbreviation (input) MUTEX_MAGIC :: int where "MUTEX_MAGIC \<equiv> 0x6D757478"
abbreviation (input) SEMAPHORE_MAGIC :: int where "SEMAPHORE_MAGIC \<equiv> 0x73656D61"
abbreviation (input) EVENT_MAGIC :: int where "EVENT_MAGIC \<equiv> 0x65766E74"
abbreviation (input) EVENT_FLAG_AUTOUNSIGNAL :: u32 where "EVENT_FLAG_AUTOUNSIGNAL \<equiv> 1"

record mutex =
  mx_magic :: int
  mx_holder :: "tid option"
  mx_count :: int

record semaphore =
  sem_magic :: int
  sem_count :: int

record event =
  ev_magic :: int
  ev_signaled :: bool
  ev_flags :: u32

record sync = kernel +
  mutexes :: "nat \<Rightarrow> mutex"
  semaphores :: "nat \<Rightarrow> semaphore"
  events :: "nat \<Rightarrow> event"

definition upd_mutex :: "nat \<Rightarrow> (mutex \<Rightarrow> mutex) \<Rightarrow> 'x sync_scheme \<Rightarrow> 'x sync_scheme" where
  "upd_mutex m f s = s\<lparr>mutexes := (mutexes s)(m := f (mutexes s m))\<rparr>"

definition upd_sem :: "nat \<Rightarrow> (semaphore \<Rightarrow> semaphore) \<Rightarrow> 'x sync_scheme \<Rightarrow> 'x sync_scheme" where
  "upd_sem i f s = s\<lparr>semaphores := (semaphores s)(i := f (semaphores s i))\<rparr>"

definition upd_event :: "nat \<Rightarrow> (event \<Rightarrow> event) \<Rightarrow> 'x sync_scheme \<Rightarrow> 'x sync_scheme" where
  "upd_event e f s = s\<lparr>events := (events s)(e := f (events s e))\<rparr>"

section \<open>Mutexes\<close>

definition MUTEX_INITIAL_VALUE :: mutex where
  "MUTEX_INITIAL_VALUE = \<lparr>mx_magic = MUTEX_MAGIC, mx_holder = None, mx_count = 0\<rparr>"

definition mutex_init :: "nat \<Rightarrow> 'x sync_scheme \<Rightarrow> 'x sync_scheme" where
  "mutex_init m s = wait_queue_init (MutexWQ m) (upd_mutex m (\<lambda>_. MUTEX_INITIAL_VALUE) s)"

definition mutex_destroy :: "nat \<Rightarrow> nat \<Rightarrow> 'x sync_scheme \<Rightarrow> 'x sync_scheme option" where
  "mutex_destroy m cpu s = do {
     ct \<leftarrow> current_thread s cpu;
     chk (mx_magic (mutexes s m) = MUTEX_MAGIC);
     chk (mx_holder (mutexes s m) = None \<or> mx_holder (mutexes s m) = Some ct);
     let s = upd_mutex m (\<lambda>x. x\<lparr>mx_magic := 0, mx_count := 0\<rparr>) s;
     wait_queue_destroy (MutexWQ m) True cpu s }"

text \<open>
  The end of \<^verbatim>\<open>mutex_acquire_timeout\<close>, from the result of \<^verbatim>\<open>wait_queue_block\<close> on: a timed out
  acquisition is backed out.
\<close>

definition mutex_acquire_finish :: "nat \<Rightarrow> status_t \<Rightarrow> nat \<Rightarrow> 'x sync_scheme \<Rightarrow>
    (status_t \<times> 'x sync_scheme) option" where
  "mutex_acquire_finish m ret cpu s =
     (if ret < NO_ERROR then
        Some (ret, if ret = ERR_TIMED_OUT then upd_mutex m (\<lambda>x. x\<lparr>mx_count := mx_count x - 1\<rparr>) s else s)
      else do {
        ct \<leftarrow> current_thread s cpu;
        Some (ret, upd_mutex m (\<lambda>x. x\<lparr>mx_holder := Some ct\<rparr>) s) })"

definition mutex_acquire_timeout :: "nat \<Rightarrow> lk_time_t \<Rightarrow> nat \<Rightarrow> 'x sync_scheme \<Rightarrow>
    (status_t outcome \<times> 'x sync_scheme) option" where
  "mutex_acquire_timeout m timeout cpu s = do {
     ct \<leftarrow> current_thread s cpu;
     chk (mx_magic (mutexes s m) = MUTEX_MAGIC);
     chk (mx_holder (mutexes s m) \<noteq> Some ct);
     let s = upd_mutex m (\<lambda>x. x\<lparr>mx_count := mx_count x + 1\<rparr>) s;
     if mx_count (mutexes s m) > 1 then do {
       (r, s) \<leftarrow> wait_queue_block (MutexWQ m) timeout cpu s;
       case r of
         Switches \<Rightarrow> Some (Switches, s)
       | Returns ret \<Rightarrow> do { (ret, s) \<leftarrow> mutex_acquire_finish m ret cpu s; Some (Returns ret, s) } }
     else do { (ret, s) \<leftarrow> mutex_acquire_finish m NO_ERROR cpu s; Some (Returns ret, s) } }"

definition mutex_acquire_timeout_resume :: "nat \<Rightarrow> lk_time_t \<Rightarrow> nat \<Rightarrow> 'x sync_scheme \<Rightarrow>
    (status_t \<times> 'x sync_scheme) option" where
  "mutex_acquire_timeout_resume m timeout cpu s = do {
     (ret, s) \<leftarrow> wait_queue_block_resume timeout cpu s;
     mutex_acquire_finish m ret cpu s }"

definition mutex_acquire :: "nat \<Rightarrow> nat \<Rightarrow> 'x sync_scheme \<Rightarrow> (status_t outcome \<times> 'x sync_scheme) option" where
  "mutex_acquire m cpu s = mutex_acquire_timeout m INFINITE_TIME cpu s"

definition mutex_release :: "nat \<Rightarrow> nat \<Rightarrow> 'x sync_scheme \<Rightarrow> (status_t \<times> 'x sync_scheme) option" where
  "mutex_release m cpu s = do {
     ct \<leftarrow> current_thread s cpu;
     chk (mx_magic (mutexes s m) = MUTEX_MAGIC);
     chk (mx_holder (mutexes s m) = Some ct);
     let s = upd_mutex m (\<lambda>x. x\<lparr>mx_holder := None, mx_count := mx_count x - 1\<rparr>) s;
     if mx_count (mutexes s m) \<ge> 1
     then do { (_, s) \<leftarrow> wait_queue_wake_one (MutexWQ m) True NO_ERROR cpu s; Some (NO_ERROR, s) }
     else Some (NO_ERROR, s) }"

definition is_mutex_held :: "nat \<Rightarrow> nat \<Rightarrow> 'x sync_scheme \<Rightarrow> bool" where
  "is_mutex_held m cpu s \<longleftrightarrow> mx_holder (mutexes s m) = current_thread s cpu"

section \<open>Semaphores\<close>

text \<open>The \<^verbatim>\<open>unsigned\<close> argument of \<^verbatim>\<open>sem_init\<close> becomes the \<^verbatim>\<open>int\<close> count.\<close>

definition SEMAPHORE_INITIAL_VALUE :: "u32 \<Rightarrow> semaphore" where
  "SEMAPHORE_INITIAL_VALUE value = \<lparr>sem_magic = SEMAPHORE_MAGIC, sem_count = sint value\<rparr>"

definition sem_init :: "nat \<Rightarrow> u32 \<Rightarrow> 'x sync_scheme \<Rightarrow> 'x sync_scheme" where
  "sem_init i value s = wait_queue_init (SemWQ i) (upd_sem i (\<lambda>_. SEMAPHORE_INITIAL_VALUE value) s)"

definition sem_destroy :: "nat \<Rightarrow> nat \<Rightarrow> 'x sync_scheme \<Rightarrow> 'x sync_scheme option" where
  "sem_destroy i cpu s = wait_queue_destroy (SemWQ i) True cpu (upd_sem i (\<lambda>x. x\<lparr>sem_count := 0\<rparr>) s)"

definition sem_post :: "nat \<Rightarrow> bool \<Rightarrow> nat \<Rightarrow> 'x sync_scheme \<Rightarrow> (int \<times> 'x sync_scheme) option" where
  "sem_post i resched cpu s =
     (let s = upd_sem i (\<lambda>x. x\<lparr>sem_count := sem_count x + 1\<rparr>) s
      in if sem_count (semaphores s i) \<le> 0 then wait_queue_wake_one (SemWQ i) resched NO_ERROR cpu s
         else Some (0, s))"

definition sem_wait :: "nat \<Rightarrow> nat \<Rightarrow> 'x sync_scheme \<Rightarrow> (status_t outcome \<times> 'x sync_scheme) option" where
  "sem_wait i cpu s =
     (let s = upd_sem i (\<lambda>x. x\<lparr>sem_count := sem_count x - 1\<rparr>) s
      in if sem_count (semaphores s i) < 0 then wait_queue_block (SemWQ i) INFINITE_TIME cpu s
         else Some (Returns NO_ERROR, s))"

definition sem_wait_resume :: "nat \<Rightarrow> nat \<Rightarrow> 'x sync_scheme \<Rightarrow> (status_t \<times> 'x sync_scheme) option" where
  "sem_wait_resume i cpu s = wait_queue_block_resume INFINITE_TIME cpu s"

definition sem_trywait :: "nat \<Rightarrow> 'x sync_scheme \<Rightarrow> status_t \<times> 'x sync_scheme" where
  "sem_trywait i s =
     (if sem_count (semaphores s i) \<le> 0 then (ERR_NOT_READY, s)
      else (NO_ERROR, upd_sem i (\<lambda>x. x\<lparr>sem_count := sem_count x - 1\<rparr>) s))"

definition sem_timedwait_finish :: "nat \<Rightarrow> status_t \<Rightarrow> 'x sync_scheme \<Rightarrow> status_t \<times> 'x sync_scheme" where
  "sem_timedwait_finish i ret s =
     (ret, if ret < NO_ERROR \<and> ret = ERR_TIMED_OUT then upd_sem i (\<lambda>x. x\<lparr>sem_count := sem_count x + 1\<rparr>) s else s)"

definition sem_timedwait :: "nat \<Rightarrow> lk_time_t \<Rightarrow> nat \<Rightarrow> 'x sync_scheme \<Rightarrow>
    (status_t outcome \<times> 'x sync_scheme) option" where
  "sem_timedwait i timeout cpu s =
     (let s = upd_sem i (\<lambda>x. x\<lparr>sem_count := sem_count x - 1\<rparr>) s
      in if sem_count (semaphores s i) < 0 then do {
           (r, s) \<leftarrow> wait_queue_block (SemWQ i) timeout cpu s;
           case r of
             Switches \<Rightarrow> Some (Switches, s)
           | Returns ret \<Rightarrow> (case sem_timedwait_finish i ret s of (ret, s) \<Rightarrow> Some (Returns ret, s)) }
         else Some (Returns NO_ERROR, s))"

definition sem_timedwait_resume :: "nat \<Rightarrow> lk_time_t \<Rightarrow> nat \<Rightarrow> 'x sync_scheme \<Rightarrow>
    (status_t \<times> 'x sync_scheme) option" where
  "sem_timedwait_resume i timeout cpu s = do {
     (ret, s) \<leftarrow> wait_queue_block_resume timeout cpu s;
     Some (sem_timedwait_finish i ret s) }"

section \<open>Events\<close>

definition EVENT_INITIAL_VALUE :: "bool \<Rightarrow> u32 \<Rightarrow> event" where
  "EVENT_INITIAL_VALUE initial flags = \<lparr>ev_magic = EVENT_MAGIC, ev_signaled = initial, ev_flags = flags\<rparr>"

definition event_initialized :: "nat \<Rightarrow> 'x sync_scheme \<Rightarrow> bool" where
  "event_initialized e s \<longleftrightarrow> ev_magic (events s e) = EVENT_MAGIC"

definition event_init :: "nat \<Rightarrow> bool \<Rightarrow> u32 \<Rightarrow> 'x sync_scheme \<Rightarrow> 'x sync_scheme" where
  "event_init e initial flags s = wait_queue_init (EventWQ e) (upd_event e (\<lambda>_. EVENT_INITIAL_VALUE initial flags) s)"

definition event_destroy :: "nat \<Rightarrow> nat \<Rightarrow> 'x sync_scheme \<Rightarrow> 'x sync_scheme option" where
  "event_destroy e cpu s = do {
     chk (ev_magic (events s e) = EVENT_MAGIC);
     let s = upd_event e (\<lambda>x. x\<lparr>ev_magic := 0, ev_signaled := False, ev_flags := 0\<rparr>) s;
     wait_queue_destroy (EventWQ e) True cpu s }"

definition event_wait_timeout :: "nat \<Rightarrow> lk_time_t \<Rightarrow> nat \<Rightarrow> 'x sync_scheme \<Rightarrow>
    (status_t outcome \<times> 'x sync_scheme) option" where
  "event_wait_timeout e timeout cpu s = do {
     chk (ev_magic (events s e) = EVENT_MAGIC);
     if ev_signaled (events s e) then
       Some (Returns NO_ERROR,
             if ev_flags (events s e) AND EVENT_FLAG_AUTOUNSIGNAL \<noteq> 0
             then upd_event e (\<lambda>x. x\<lparr>ev_signaled := False\<rparr>) s else s)
     else wait_queue_block (EventWQ e) timeout cpu s }"

definition event_wait_timeout_resume :: "nat \<Rightarrow> lk_time_t \<Rightarrow> nat \<Rightarrow> 'x sync_scheme \<Rightarrow>
    (status_t \<times> 'x sync_scheme) option" where
  "event_wait_timeout_resume e timeout cpu s = wait_queue_block_resume timeout cpu s"

definition event_wait :: "nat \<Rightarrow> nat \<Rightarrow> 'x sync_scheme \<Rightarrow> (status_t outcome \<times> 'x sync_scheme) option" where
  "event_wait e cpu s = event_wait_timeout e INFINITE_TIME cpu s"

definition event_signal :: "nat \<Rightarrow> bool \<Rightarrow> nat \<Rightarrow> 'x sync_scheme \<Rightarrow> (status_t \<times> 'x sync_scheme) option" where
  "event_signal e reschedule cpu s = do {
     chk (ev_magic (events s e) = EVENT_MAGIC);
     if \<not> ev_signaled (events s e) then
       (if ev_flags (events s e) AND EVENT_FLAG_AUTOUNSIGNAL \<noteq> 0 then do {
          (n, s) \<leftarrow> wait_queue_wake_one (EventWQ e) reschedule NO_ERROR cpu s;
          Some (NO_ERROR, if n \<le> 0 then upd_event e (\<lambda>x. x\<lparr>ev_signaled := True\<rparr>) s else s) }
        else do {
          let s = upd_event e (\<lambda>x. x\<lparr>ev_signaled := True\<rparr>) s;
          (_, s) \<leftarrow> wait_queue_wake_all (EventWQ e) reschedule NO_ERROR cpu s;
          Some (NO_ERROR, s) })
     else Some (NO_ERROR, s) }"

definition event_unsignal :: "nat \<Rightarrow> 'x sync_scheme \<Rightarrow> (status_t \<times> 'x sync_scheme) option" where
  "event_unsignal e s = do {
     chk (ev_magic (events s e) = EVENT_MAGIC);
     Some (NO_ERROR, upd_event e (\<lambda>x. x\<lparr>ev_signaled := False\<rparr>) s) }"

section \<open>Frames\<close>

lemma sync_upd_simps [simp]:
  "threads (upd_mutex m f s) = threads s" "thread_list (upd_mutex m f s) = thread_list s"
  "current_thread (upd_mutex m f s) = current_thread s" "wait_queues (upd_mutex m f s) = wait_queues s"
  "timers (upd_mutex m f s) = timers s" "live (upd_mutex m f s) = live s"
  "mutexes (upd_mutex m f s) = (mutexes s)(m := f (mutexes s m))"
  "semaphores (upd_mutex m f s) = semaphores s" "events (upd_mutex m f s) = events s"
  "threads (upd_sem i g s) = threads s" "thread_list (upd_sem i g s) = thread_list s"
  "current_thread (upd_sem i g s) = current_thread s" "wait_queues (upd_sem i g s) = wait_queues s"
  "timers (upd_sem i g s) = timers s" "live (upd_sem i g s) = live s"
  "semaphores (upd_sem i g s) = (semaphores s)(i := g (semaphores s i))"
  "mutexes (upd_sem i g s) = mutexes s" "events (upd_sem i g s) = events s"
  "threads (upd_event e h s) = threads s" "thread_list (upd_event e h s) = thread_list s"
  "current_thread (upd_event e h s) = current_thread s" "wait_queues (upd_event e h s) = wait_queues s"
  "timers (upd_event e h s) = timers s" "live (upd_event e h s) = live s"
  "events (upd_event e h s) = (events s)(e := h (events s e))"
  "mutexes (upd_event e h s) = mutexes s" "semaphores (upd_event e h s) = semaphores s"
  by (simp_all add: upd_mutex_def upd_sem_def upd_event_def live_def fun_eq_iff)

lemma kinv_upd_sync [simp]:
  "kinv L C (upd_mutex m f s) = kinv L C s" "kinv L C (upd_sem i g s) = kinv L C s"
  "kinv L C (upd_event e h s) = kinv L C s"
  by (rule kinv_cong; simp add: upd_mutex_def upd_sem_def upd_event_def)+

lemma upd_sync_id:
  "f (mutexes s m) = mutexes s m \<Longrightarrow> upd_mutex m f s = s"
  "g (semaphores s i) = semaphores s i \<Longrightarrow> upd_sem i g s = s"
  by (simp_all add: upd_mutex_def upd_sem_def)

lemma upd_sync_twice [simp]:
  "upd_mutex m f (upd_mutex m f' s) = upd_mutex m (\<lambda>x. f (f' x)) s"
  "upd_sem i g (upd_sem i g' s) = upd_sem i (\<lambda>x. g (g' x)) s"
  by (simp_all add: upd_mutex_def upd_sem_def)

text \<open>The scheduler never touches the objects.\<close>

lemma sync_more:
  assumes "kernel.more s' = kernel.more (s :: 'x sync_scheme)"
  shows "mutexes s' = mutexes s" "semaphores s' = semaphores s" "events s' = events s"
  using assms by (cases s; cases s'; simp)+

section \<open>What each operation does\<close>

lemma mutex_acquire_timeout_ok:
  assumes inv: "sched_inv s" and cur: "current_thread s c = Some ct"
    and idle: "\<not> thread_is_idle (threads s ct)" and nd: "tm_node (timers s (StackTimer ct)) = None"
    and mg: "mx_magic (mutexes s m) = MUTEX_MAGIC" and ho: "mx_holder (mutexes s m) \<noteq> Some ct"
    and wq: "wq_magic (wait_queues s (MutexWQ m)) = WAIT_QUEUE_MAGIC"
  defines "s0 \<equiv> upd_mutex m (\<lambda>x. x\<lparr>mx_count := mx_count x + 1\<rparr>) s"
  shows "if mx_count (mutexes s m) \<le> 0
         then mutex_acquire_timeout m timeout c s
                = Some (Returns NO_ERROR, upd_mutex m (\<lambda>x. x\<lparr>mx_holder := Some ct\<rparr>) s0)
         else if timeout = 0 then mutex_acquire_timeout m timeout c s = Some (Returns ERR_TIMED_OUT, s)
         else \<exists>s1 s'. mutex_acquire_timeout m timeout c s = Some (Switches, s') \<and> sched_inv s'
                \<and> blocked_on (MutexWQ m) ct timeout s0 s1 \<and> shuffled c s1 s'"
proof -
  note b = wait_queue_block_ok [where s = s0 and c = c and ct = ct and w = "MutexWQ m" and timeout = timeout]
  have b: "if timeout = 0 then wait_queue_block (MutexWQ m) timeout c s0 = Some (Returns ERR_TIMED_OUT, s0)
         else \<exists>s1 s'. wait_queue_block (MutexWQ m) timeout c s0 = Some (Switches, s') \<and> sched_inv s'
                \<and> blocked_on (MutexWQ m) ct timeout s0 s1 \<and> shuffled c s1 s'"
    by (rule b) (use assms in \<open>simp_all add: s0_def\<close>)
  have e: "mutex_acquire_timeout m timeout c s =
      (if mx_count (mutexes s m) \<le> 0 then do { (ret, s) \<leftarrow> mutex_acquire_finish m NO_ERROR c s0; Some (Returns ret, s) }
       else do {
         (r, s) \<leftarrow> wait_queue_block (MutexWQ m) timeout c s0;
         case r of
           Switches \<Rightarrow> Some (Switches, s)
         | Returns ret \<Rightarrow> do { (ret, s) \<leftarrow> mutex_acquire_finish m ret c s; Some (Returns ret, s) } })"
    using cur mg ho by (simp add: mutex_acquire_timeout_def Let_def s0_def)
  have u: "upd_mutex m (\<lambda>x. x\<lparr>mx_count := mx_count x - 1\<rparr>) s0 = s"
    unfolding s0_def upd_sync_twice by (rule upd_sync_id) simp
  show ?thesis
    using b cur u unfolding e by (auto simp: mutex_acquire_finish_def s0_def split: if_splits)
qed

lemma mutex_acquire_timeout_resume_ok:
  assumes inv: "sched_inv s" and cur: "current_thread s c = Some ct"
    and mg: "timeout \<noteq> INFINITE_TIME \<Longrightarrow> tm_magic (timers s (StackTimer ct)) = TIMER_MAGIC"
    and nd: "timeout = INFINITE_TIME \<Longrightarrow> tm_node (timers s (StackTimer ct)) = None"
  defines "ret \<equiv> t_wait_queue_block_ret (threads s ct)"
  shows "\<exists>s1. mutex_acquire_timeout_resume m timeout c s =
             Some (ret, if ret \<ge> NO_ERROR then upd_mutex m (\<lambda>x. x\<lparr>mx_holder := Some ct\<rparr>) s1
                        else if ret = ERR_TIMED_OUT then upd_mutex m (\<lambda>x. x\<lparr>mx_count := mx_count x - 1\<rparr>) s1
                        else s1)
           \<and> sched_inv s1 \<and> timer_sys.more s1 = timer_sys.more s
           \<and> (\<forall>x. x \<noteq> StackTimer ct \<longrightarrow> timers s1 x = timers s x) \<and> tm_node (timers s1 (StackTimer ct)) = None"
proof -
  obtain s1 where s1: "wait_queue_block_resume timeout c s = Some (ret, s1)" "sched_inv s1"
      "timer_sys.more s1 = timer_sys.more s" "\<forall>x. x \<noteq> StackTimer ct \<longrightarrow> timers s1 x = timers s x"
      "tm_node (timers s1 (StackTimer ct)) = None"
    using wait_queue_block_resume_ok [OF inv cur mg nd] unfolding ret_def by auto
  have "current_thread s1 = current_thread s" using kernel_more [OF s1(3)] by simp
  then show ?thesis
    using s1 cur by (intro exI [of _ s1]) (auto simp: mutex_acquire_timeout_resume_def mutex_acquire_finish_def)
qed

lemma mutex_release_ok:
  assumes inv: "sched_inv s" and cur: "current_thread s c = Some ct"
    and idle: "\<not> thread_is_idle (threads s ct)"
    and mg: "mx_magic (mutexes s m) = MUTEX_MAGIC" and ho: "mx_holder (mutexes s m) = Some ct"
    and wq: "wq_magic (wait_queues s (MutexWQ m)) = WAIT_QUEUE_MAGIC"
  defines "s0 \<equiv> upd_mutex m (\<lambda>x. x\<lparr>mx_holder := None, mx_count := mx_count x - 1\<rparr>) s"
  shows "if mx_count (mutexes s m) \<le> 1 \<or> wq_list (wait_queues s (MutexWQ m)) = []
         then mutex_release m c s = Some (NO_ERROR, s0)
         else \<exists>s'. mutex_release m c s = Some (NO_ERROR, s') \<and> sched_inv s'
                \<and> shuffled c (wq_take (MutexWQ m) (hd (wq_list (wait_queues s (MutexWQ m)))) NO_ERROR s0) s'"
proof -
  have w: "case wq_list (wait_queues s0 (MutexWQ m)) of
           [] \<Rightarrow> wait_queue_wake_one (MutexWQ m) True NO_ERROR c s0 = Some (0, s0)
         | t # _ \<Rightarrow> \<exists>s'. wait_queue_wake_one (MutexWQ m) True NO_ERROR c s0 = Some (1, s') \<and> sched_inv s'
                      \<and> shuffled c (wq_take (MutexWQ m) t NO_ERROR s0) s'"
    by (rule wait_queue_wake_one_ok) (use assms in \<open>simp_all add: s0_def\<close>)
  have e: "mutex_release m c s =
      (if mx_count (mutexes s m) \<le> 1 then Some (NO_ERROR, s0)
       else do { (_, s) \<leftarrow> wait_queue_wake_one (MutexWQ m) True NO_ERROR c s0; Some (NO_ERROR, s) })"
    using cur mg ho by (simp add: mutex_release_def Let_def s0_def)
  show ?thesis using w unfolding e by (auto simp: s0_def split: list.splits)
qed

lemma sem_post_ok:
  assumes inv: "sched_inv s" and cur: "current_thread s c = Some ct"
    and idle: "resched \<Longrightarrow> \<not> thread_is_idle (threads s ct)"
    and wq: "wq_magic (wait_queues s (SemWQ i)) = WAIT_QUEUE_MAGIC"
  defines "s0 \<equiv> upd_sem i (\<lambda>x. x\<lparr>sem_count := sem_count x + 1\<rparr>) s"
  shows "if sem_count (semaphores s i) \<ge> 0 \<or> wq_list (wait_queues s (SemWQ i)) = []
         then sem_post i resched c s = Some (0, s0)
         else \<exists>s'. sem_post i resched c s = Some (1, s') \<and> sched_inv s'
                \<and> shuffled c (wq_take (SemWQ i) (hd (wq_list (wait_queues s (SemWQ i)))) NO_ERROR s0) s'"
proof -
  have w: "case wq_list (wait_queues s0 (SemWQ i)) of
           [] \<Rightarrow> wait_queue_wake_one (SemWQ i) resched NO_ERROR c s0 = Some (0, s0)
         | t # _ \<Rightarrow> \<exists>s'. wait_queue_wake_one (SemWQ i) resched NO_ERROR c s0 = Some (1, s') \<and> sched_inv s'
                      \<and> shuffled c (wq_take (SemWQ i) t NO_ERROR s0) s'"
    by (rule wait_queue_wake_one_ok) (use assms in \<open>simp_all add: s0_def\<close>)
  have e: "sem_post i resched c s =
      (if sem_count (semaphores s i) \<ge> 0 then Some (0, s0)
       else wait_queue_wake_one (SemWQ i) resched NO_ERROR c s0)"
    by (simp add: sem_post_def Let_def s0_def)
  show ?thesis using w unfolding e by (auto simp: s0_def split: list.splits)
qed

lemma sem_timedwait_ok:
  assumes inv: "sched_inv s" and cur: "current_thread s c = Some ct"
    and idle: "\<not> thread_is_idle (threads s ct)" and nd: "tm_node (timers s (StackTimer ct)) = None"
    and wq: "wq_magic (wait_queues s (SemWQ i)) = WAIT_QUEUE_MAGIC"
  defines "s0 \<equiv> upd_sem i (\<lambda>x. x\<lparr>sem_count := sem_count x - 1\<rparr>) s"
  shows "if sem_count (semaphores s i) \<ge> 1
         then sem_timedwait i timeout c s = Some (Returns NO_ERROR, s0)
         else if timeout = 0 then sem_timedwait i timeout c s = Some (Returns ERR_TIMED_OUT, s)
         else \<exists>s1 s'. sem_timedwait i timeout c s = Some (Switches, s') \<and> sched_inv s'
                \<and> blocked_on (SemWQ i) ct timeout s0 s1 \<and> shuffled c s1 s'"
proof -
  have b: "if timeout = 0 then wait_queue_block (SemWQ i) timeout c s0 = Some (Returns ERR_TIMED_OUT, s0)
         else \<exists>s1 s'. wait_queue_block (SemWQ i) timeout c s0 = Some (Switches, s') \<and> sched_inv s'
                \<and> blocked_on (SemWQ i) ct timeout s0 s1 \<and> shuffled c s1 s'"
    by (rule wait_queue_block_ok) (use assms in \<open>simp_all add: s0_def\<close>)
  have e: "sem_timedwait i timeout c s =
      (if sem_count (semaphores s i) \<ge> 1 then Some (Returns NO_ERROR, s0)
       else do {
         (r, s) \<leftarrow> wait_queue_block (SemWQ i) timeout c s0;
         case r of
           Switches \<Rightarrow> Some (Switches, s)
         | Returns ret \<Rightarrow> (case sem_timedwait_finish i ret s of (ret, s) \<Rightarrow> Some (Returns ret, s)) })"
    by (simp add: sem_timedwait_def Let_def s0_def)
  have u: "upd_sem i (\<lambda>x. x\<lparr>sem_count := sem_count x + 1\<rparr>) s0 = s"
    unfolding s0_def upd_sync_twice by (rule upd_sync_id) simp
  show ?thesis using b u unfolding e by (auto simp: sem_timedwait_finish_def split: if_splits)
qed

lemma sem_wait_ok:
  assumes inv: "sched_inv s" and cur: "current_thread s c = Some ct"
    and idle: "\<not> thread_is_idle (threads s ct)" and nd: "tm_node (timers s (StackTimer ct)) = None"
    and wq: "wq_magic (wait_queues s (SemWQ i)) = WAIT_QUEUE_MAGIC"
  defines "s0 \<equiv> upd_sem i (\<lambda>x. x\<lparr>sem_count := sem_count x - 1\<rparr>) s"
  shows "if sem_count (semaphores s i) \<ge> 1 then sem_wait i c s = Some (Returns NO_ERROR, s0)
         else \<exists>s1 s'. sem_wait i c s = Some (Switches, s') \<and> sched_inv s'
                \<and> blocked_on (SemWQ i) ct INFINITE_TIME s0 s1 \<and> shuffled c s1 s'"
proof -
  have b: "\<exists>s1 s'. wait_queue_block (SemWQ i) INFINITE_TIME c s0 = Some (Switches, s') \<and> sched_inv s'
                \<and> blocked_on (SemWQ i) ct INFINITE_TIME s0 s1 \<and> shuffled c s1 s'"
    using wait_queue_block_ok [where s = s0 and c = c and ct = ct and w = "SemWQ i" and timeout = INFINITE_TIME]
      assms by (simp add: s0_def)
  have e: "sem_wait i c s =
      (if sem_count (semaphores s i) \<ge> 1 then Some (Returns NO_ERROR, s0)
       else wait_queue_block (SemWQ i) INFINITE_TIME c s0)"
    by (simp add: sem_wait_def Let_def s0_def)
  show ?thesis using b unfolding e by (auto split: if_splits)
qed

lemma sem_timedwait_resume_ok:
  assumes inv: "sched_inv s" and cur: "current_thread s c = Some ct"
    and mg: "timeout \<noteq> INFINITE_TIME \<Longrightarrow> tm_magic (timers s (StackTimer ct)) = TIMER_MAGIC"
    and nd: "timeout = INFINITE_TIME \<Longrightarrow> tm_node (timers s (StackTimer ct)) = None"
  defines "ret \<equiv> t_wait_queue_block_ret (threads s ct)"
  shows "\<exists>s1. sem_timedwait_resume i timeout c s =
             Some (ret, if ret = ERR_TIMED_OUT then upd_sem i (\<lambda>x. x\<lparr>sem_count := sem_count x + 1\<rparr>) s1 else s1)
           \<and> sched_inv s1 \<and> timer_sys.more s1 = timer_sys.more s
           \<and> (\<forall>x. x \<noteq> StackTimer ct \<longrightarrow> timers s1 x = timers s x) \<and> tm_node (timers s1 (StackTimer ct)) = None"
proof -
  obtain s1 where "wait_queue_block_resume timeout c s = Some (ret, s1)" "sched_inv s1"
      "timer_sys.more s1 = timer_sys.more s" "\<forall>x. x \<noteq> StackTimer ct \<longrightarrow> timers s1 x = timers s x"
      "tm_node (timers s1 (StackTimer ct)) = None"
    using wait_queue_block_resume_ok [OF inv cur mg nd] unfolding ret_def by auto
  then show ?thesis
    by (intro exI [of _ s1]) (auto simp: sem_timedwait_resume_def sem_timedwait_finish_def)
qed

lemma event_wait_timeout_ok:
  assumes inv: "sched_inv s" and cur: "current_thread s c = Some ct"
    and idle: "\<not> thread_is_idle (threads s ct)" and nd: "tm_node (timers s (StackTimer ct)) = None"
    and mg: "ev_magic (events s e) = EVENT_MAGIC"
    and wq: "wq_magic (wait_queues s (EventWQ e)) = WAIT_QUEUE_MAGIC"
  shows "if ev_signaled (events s e)
         then event_wait_timeout e timeout c s =
                Some (Returns NO_ERROR, if ev_flags (events s e) AND EVENT_FLAG_AUTOUNSIGNAL \<noteq> 0
                        then upd_event e (\<lambda>x. x\<lparr>ev_signaled := False\<rparr>) s else s)
         else if timeout = 0 then event_wait_timeout e timeout c s = Some (Returns ERR_TIMED_OUT, s)
         else \<exists>s1 s'. event_wait_timeout e timeout c s = Some (Switches, s') \<and> sched_inv s'
                \<and> blocked_on (EventWQ e) ct timeout s s1 \<and> shuffled c s1 s'"
  using wait_queue_block_ok [OF inv cur idle wq nd, of timeout] mg
  by (cases "timeout = 0") (simp_all add: event_wait_timeout_def)

lemma event_signal_ok:
  assumes inv: "sched_inv s" and cur: "current_thread s c = Some ct"
    and idle: "resched \<Longrightarrow> \<not> thread_is_idle (threads s ct)"
    and mg: "ev_magic (events s e) = EVENT_MAGIC"
    and wq: "wq_magic (wait_queues s (EventWQ e)) = WAIT_QUEUE_MAGIC"
  defines "ws \<equiv> wq_list (wait_queues s (EventWQ e))"
    and "s0 \<equiv> upd_event e (\<lambda>x. x\<lparr>ev_signaled := True\<rparr>) s"
  shows "if ev_signaled (events s e) then event_signal e resched c s = Some (NO_ERROR, s)
         else if ev_flags (events s e) AND EVENT_FLAG_AUTOUNSIGNAL \<noteq> 0
         then (if ws = [] then event_signal e resched c s = Some (NO_ERROR, s0)
               else \<exists>s'. event_signal e resched c s = Some (NO_ERROR, s') \<and> sched_inv s'
                      \<and> shuffled c (wq_take (EventWQ e) (hd ws) NO_ERROR s) s')
         else \<exists>s'. event_signal e resched c s = Some (NO_ERROR, s') \<and> sched_inv s'
                \<and> shuffled c (wq_take_list (EventWQ e) ws NO_ERROR s0) s'"
proof -
  have one: "case ws of
           [] \<Rightarrow> wait_queue_wake_one (EventWQ e) resched NO_ERROR c s = Some (0, s)
         | t # _ \<Rightarrow> \<exists>s'. wait_queue_wake_one (EventWQ e) resched NO_ERROR c s = Some (1, s') \<and> sched_inv s'
                      \<and> shuffled c (wq_take (EventWQ e) t NO_ERROR s) s'"
    unfolding ws_def by (rule wait_queue_wake_one_ok [OF inv cur wq idle])
  have all: "\<exists>s'. wait_queue_wake_all (EventWQ e) resched NO_ERROR c s0 = Some (int (length ws), s')
           \<and> sched_inv s' \<and> shuffled c (wq_take_list (EventWQ e) ws NO_ERROR s0) s'"
    using wait_queue_wake_all_ok [where s = s0 and c = c and ct = ct and w = "EventWQ e" and resched = resched
        and err = NO_ERROR] assms by (simp add: s0_def)
  show ?thesis
    using one all mg by (auto simp: event_signal_def Let_def s0_def split: list.splits)
qed

end
