(* ===== verification/Gate.thy ===== *)
theory Gate
  imports Thread
begin

text \<open>
  What a mutex and a semaphore have in common, without the scheduler: a gate with a number of tokens.
  \<open>g_tokens\<close> counts the tokens that can still be taken: those put in minus those taken by calls that have
  returned. \<open>g_value\<close> is the counter the code keeps. A thread is in \<open>g_waiting\<close> while it is in the wait
  queue; once woken it is in \<open>g_granted\<close> until its call returns, and once its timeout has run out it is in
  \<open>g_expired\<close> until its call returns.

  \<open>gate_step timed\<close> is the specification of the operations; without timeouts the two steps that a timeout
  causes are left out. The invariant says that no more calls succeed than there are tokens; without
  timeouts, no thread waits while a token is free.
\<close>

record gate =
  g_value :: int
  g_tokens :: int
  g_waiting :: "tid list"
  g_granted :: "tid set"
  g_expired :: "tid set"

inductive gate_step :: "bool \<Rightarrow> gate \<Rightarrow> gate \<Rightarrow> bool" for timed where
  take: "g_value g > 0 \<Longrightarrow>
    gate_step timed g (g\<lparr>g_value := g_value g - 1, g_tokens := g_tokens g - 1\<rparr>)"
| wait: "g_value g \<le> 0 \<Longrightarrow> t \<notin> set (g_waiting g) \<union> g_granted g \<union> g_expired g \<Longrightarrow>
    gate_step timed g (g\<lparr>g_value := g_value g - 1, g_waiting := g_waiting g @ [t]\<rparr>)"
| put: "g_value g \<ge> 0 \<or> g_waiting g = [] \<Longrightarrow>
    gate_step timed g (g\<lparr>g_value := g_value g + 1, g_tokens := g_tokens g + 1\<rparr>)"
| wake: "g_value g < 0 \<Longrightarrow> g_waiting g = t # ts \<Longrightarrow>
    gate_step timed g (g\<lparr>g_value := g_value g + 1, g_tokens := g_tokens g + 1,
                          g_waiting := ts, g_granted := insert t (g_granted g)\<rparr>)"
| proceed: "t \<in> g_granted g \<Longrightarrow>
    gate_step timed g (g\<lparr>g_tokens := g_tokens g - 1, g_granted := g_granted g - {t}\<rparr>)"
| expire: "timed \<Longrightarrow> t \<in> set (g_waiting g) \<Longrightarrow>
    gate_step timed g (g\<lparr>g_waiting := remove1 t (g_waiting g), g_expired := insert t (g_expired g)\<rparr>)"
| back_out: "timed \<Longrightarrow> t \<in> g_expired g \<Longrightarrow>
    gate_step timed g (g\<lparr>g_value := g_value g + 1, g_expired := g_expired g - {t}\<rparr>)"

definition gate_inv :: "gate \<Rightarrow> bool" where
  "gate_inv g \<longleftrightarrow>
     g_value g + int (card (g_granted g)) + int (length (g_waiting g)) + int (card (g_expired g)) = g_tokens g \<and>
     int (card (g_granted g)) \<le> g_tokens g \<and>
     finite (g_granted g) \<and> finite (g_expired g) \<and> distinct (g_waiting g) \<and>
     set (g_waiting g) \<inter> g_granted g = {} \<and> set (g_waiting g) \<inter> g_expired g = {} \<and>
     g_granted g \<inter> g_expired g = {}"

definition gate_calm :: "gate \<Rightarrow> bool" where
  "gate_calm g \<longleftrightarrow> g_expired g = {} \<and> (g_waiting g \<noteq> [] \<longrightarrow> g_tokens g = int (card (g_granted g)))"

lemma gate_step_inv:
  assumes "gate_step timed g g'" and "gate_inv g"
  shows "gate_inv g'"
  using assms
proof cases
  case (wake t ts)
  then have "t \<notin> g_granted g" "t \<notin> g_expired g" using assms(2) by (auto simp: gate_inv_def)
  then show ?thesis using wake assms(2) by (auto simp: gate_inv_def)
next
  case (proceed t)
  then have "0 < card (g_granted g)" using assms(2) by (auto simp: gate_inv_def card_gt_0_iff)
  then show ?thesis using proceed assms(2) by (auto simp: gate_inv_def card_Diff_singleton_if)
next
  case (expire t)
  then have "t \<notin> g_expired g" "t \<notin> g_granted g" using assms(2) by (auto simp: gate_inv_def)
  moreover obtain n where "length (g_waiting g) = Suc n" using expire by (cases "g_waiting g") auto
  ultimately show ?thesis using expire assms(2) by (auto simp: gate_inv_def length_remove1)
next
  case (back_out t)
  then have "0 < card (g_expired g)" using assms(2) by (auto simp: gate_inv_def card_gt_0_iff)
  then show ?thesis using back_out assms(2) by (auto simp: gate_inv_def card_Diff_singleton_if)
qed (auto simp: gate_inv_def)

lemma gate_step_calm:
  assumes "gate_step False g g'" and "gate_inv g" and "gate_calm g"
  shows "gate_calm g'"
  using assms
proof cases
  case (wake t ts)
  then have "t \<notin> g_granted g" "finite (g_granted g)" using assms(2) by (auto simp: gate_inv_def)
  then show ?thesis using wake assms(2,3) by (auto simp: gate_calm_def gate_inv_def)
next
  case (proceed t)
  then have "0 < card (g_granted g)" using assms(2) by (auto simp: gate_inv_def card_gt_0_iff)
  then show ?thesis using proceed assms(2,3) by (auto simp: gate_calm_def card_Diff_singleton_if)
next
  case put
  then show ?thesis using assms(2,3) by (cases "g_waiting g") (auto simp: gate_inv_def gate_calm_def)
qed (auto simp: gate_inv_def gate_calm_def)

lemma gate_steps_inv: "(gate_step timed)\<^sup>*\<^sup>* g g' \<Longrightarrow> gate_inv g \<Longrightarrow> gate_inv g'"
  by (induction rule: rtranclp_induct) (auto intro: gate_step_inv)

lemma gate_steps_calm: "(gate_step False)\<^sup>*\<^sup>* g g' \<Longrightarrow> gate_inv g \<Longrightarrow> gate_calm g \<Longrightarrow> gate_calm g'"
  by (induction rule: rtranclp_induct) (auto intro: gate_step_calm gate_steps_inv)

lemma gate_step_mono: "gate_step False g g' \<Longrightarrow> gate_step timed g g'"
  by (erule gate_step.cases) (auto intro: gate_step.intros)

definition fresh_gate :: "int \<Rightarrow> gate" where
  "fresh_gate n = \<lparr>g_value = n, g_tokens = n, g_waiting = [], g_granted = {}, g_expired = {}\<rparr>"

lemma fresh_gate_ok: "0 \<le> n \<Longrightarrow> gate_inv (fresh_gate n)" "gate_calm (fresh_gate n)"
  by (simp_all add: fresh_gate_def gate_inv_def gate_calm_def)

end
