(* ===== verification/Boot.thy ===== *)
theory Boot
  imports Thread_Life
begin

text \<open>
  The path of \<^verbatim>\<open>lk_main\<close> and \<^verbatim>\<open>kernel_init\<close> that sets up the threading core on the boot cpu, and that
  of a secondary cpu: the scheduler's invariant holds when scheduling starts. The init hooks between
  these calls, which the linker collects in a table, are not modelled.
\<close>

unbundle bit_operations_syntax

text \<open>The statically allocated state at entry: all zero.\<close>

definition zero_timer :: "timer_cb timer" where
  "zero_timer = \<lparr>tm_magic = 0, tm_node = None, tm_scheduled_time = 0, tm_periodic_time = 0, tm_callback = None\<rparr>"

definition zero_wait_queue :: wait_queue where
  "zero_wait_queue = \<lparr>wq_magic = 0, wq_list = [], wq_count = 0\<rparr>"

definition bss :: "'x \<Rightarrow> 'x kernel_scheme" where
  "bss ext = \<lparr>timers = (\<lambda>_. zero_timer), timer_queue = (\<lambda>_. []), hw_timer = (\<lambda>_. None), current_time = 0,
     threads = (\<lambda>_. zero_thread), thread_list = [], run_queue = (\<lambda>_. []), run_queue_bitmap = 0,
     current_thread = (\<lambda>_. None), wait_queues = (\<lambda>_. zero_wait_queue), active_cpus = 0, idle_cpus = 0,
     realtime_cpus = 0, ipis = [], cpu_aspace = (\<lambda>_. None), heap_freed = [], \<dots> = ext\<rparr>"

definition kernel_init :: "nat \<Rightarrow> 'x kernel_scheme \<Rightarrow> 'x kernel_scheme" where
  "kernel_init smp_max_cpus s = timer_init (thread_init smp_max_cpus s)"

definition lk_main :: "nat \<Rightarrow> nat \<Rightarrow> nat \<Rightarrow> tid option \<Rightarrow> nat option \<Rightarrow> 'x kernel_scheme \<Rightarrow> 'x kernel_scheme option" where
  "lk_main smp_max_cpus bootstrap2 stack_size malloc_struct malloc_stack s = do {
     let s = thread_init_early s;
     let s = kernel_init smp_max_cpus s;
     (t, s) \<leftarrow> thread_create ''bootstrap2'' bootstrap2 0 DEFAULT_PRIORITY stack_size malloc_struct malloc_stack 0 s;
     t \<leftarrow> t;
     let s = upd_thread t (\<lambda>th. th\<lparr>t_pinned_cpu := 0\<rparr>) s;
     (_, s) \<leftarrow> thread_detach t 0 s;
     (_, s) \<leftarrow> thread_resume t True 0 s;
     thread_become_idle 0 s }"

lemma thread_init_simps [simp]:
  "threads (thread_init n s) = threads s" "thread_list (thread_init n s) = thread_list s"
  "run_queue (thread_init n s) = run_queue s" "run_queue_bitmap (thread_init n s) = run_queue_bitmap s"
  "current_thread (thread_init n s) = current_thread s" "wait_queues (thread_init n s) = wait_queues s"
  "active_cpus (thread_init n s) = active_cpus s" "idle_cpus (thread_init n s) = idle_cpus s"
  "realtime_cpus (thread_init n s) = realtime_cpus s" "kernel.more (thread_init n s) = kernel.more s"
  "timers (thread_init n s) = (\<lambda>m. case m of PreemptTimer i \<Rightarrow> if i < n then TIMER_INITIAL_VALUE else timers s m
                                   | StackTimer t \<Rightarrow> timers s m)"
  by (induction n) (auto simp: thread_init_def timer_initialize_def fun_eq_iff split: timer_ref.splits)

text \<open>The state in which the boot cpu first yields: the idle thread is current, the second ready.\<close>

definition boot_ready :: "nat \<Rightarrow> nat \<Rightarrow> nat \<Rightarrow> nat \<Rightarrow> 'x \<Rightarrow> 'x kernel_scheme \<Rightarrow> bool" where
  "boot_ready smp_max_cpus entry n st ext s \<longleftrightarrow>
     threads s = (\<lambda>_. zero_thread)
       (IdleThread 0 := zero_thread\<lparr>t_magic := THREAD_MAGIC, t_priority := IDLE_PRIORITY, t_state := THREAD_RUNNING,
          t_flags := THREAD_FLAG_DETACHED OR THREAD_FLAG_IDLE, t_name := ''idle 0''\<rparr>,
        Thread n := threads s (Thread n)) \<and>
     t_magic (threads s (Thread n)) = THREAD_MAGIC \<and> t_priority (threads s (Thread n)) = DEFAULT_PRIORITY \<and>
     t_state (threads s (Thread n)) = THREAD_READY \<and> t_queue_node (threads s (Thread n)) = Some (RunQ 16) \<and>
     t_pinned_cpu (threads s (Thread n)) = 0 \<and> t_blocking_wait_queue (threads s (Thread n)) = None \<and>
     t_flags (threads s (Thread n)) = 39 \<and> t_entry (threads s (Thread n)) = entry \<and>
     thread_list s = [Thread n, IdleThread 0] \<and>
     run_queue s = (\<lambda>_. [])(16 := [Thread n]) \<and> run_queue_bitmap s = 0x10000 \<and>
     current_thread s = [0 \<mapsto> IdleThread 0] \<and>
     wait_queues s = (\<lambda>_. zero_wait_queue)(RetcodeWQ (IdleThread 0) := WAIT_QUEUE_INITIAL_VALUE,
        RetcodeWQ (Thread n) := WAIT_QUEUE_INITIAL_VALUE) \<and>
     active_cpus s = 1 \<and> idle_cpus s = 1 \<and> realtime_cpus s = 0 \<and>
     timers s = (\<lambda>m. case m of PreemptTimer i \<Rightarrow> if i < smp_max_cpus then TIMER_INITIAL_VALUE else zero_timer
                               | StackTimer t \<Rightarrow> zero_timer) \<and>
     timer_queue s = (\<lambda>_. []) \<and> kernel.more s = ext"

lemma lk_main_ready:
  assumes "0 < smp_max_cpus"
  shows "\<exists>s. lk_main smp_max_cpus entry stack_size (Some (Thread n)) (Some st) (bss ext) = thread_yield 0 s
           \<and> boot_ready smp_max_cpus entry n st ext s"
  apply (simp add: lk_main_def bss_def thread_init_early_def init_thread_struct_def Let_def
      kernel_init_def thread_create_def thread_create_etc_def wait_queue_init_def
      thread_detach_def wait_queue_wake_all_def WAIT_QUEUE_INITIAL_VALUE_def thread_resume_def
      zero_thread_def upd_thread_def upd_wq_def timer_init_def insert_in_run_queue_head_def
      wakeup_cpu_for_thread_def mp_reschedule_def thread_become_idle_def thread_set_name_def
      mp_set_cpu_idle_def mp_set_curr_cpu_active_def idle_name_def decimal.simps [of 0])
  apply (rule exI, rule conjI, rule refl)
  apply (simp add: boot_ready_def zero_thread_def WAIT_QUEUE_INITIAL_VALUE_def zero_timer_def)
  apply (auto simp: fun_eq_iff zero_timer_def char_of_def bit_0 split: timer_ref.splits)
  done

lemma boot_ready_inv:
  assumes "boot_ready k entry n st ext s" and "0 < k"
  shows "sched_inv s" "join_ok s"
proof -
  note B = assms(1) [unfolded boot_ready_def]
  have lv: "live s t \<longleftrightarrow> t = Thread n \<or> t = IdleThread 0" for t
    using B by (auto simp only: live_def list.set insert_iff empty_iff)
  define nt where "nt = threads s (Thread n)"
  define it where "it = zero_thread\<lparr>t_magic := THREAD_MAGIC, t_priority := IDLE_PRIORITY,
      t_state := THREAD_RUNNING, t_flags := THREAD_FLAG_DETACHED OR THREAD_FLAG_IDLE, t_name := ''idle 0''\<rparr>"
  have th: "threads s t = (if t = Thread n then nt else if t = IdleThread 0 then it else zero_thread)" for t
  proof -
    have "threads s = (\<lambda>_. zero_thread)(IdleThread 0 := it, Thread n := nt)"
      unfolding nt_def it_def by (rule conjunct1 [OF B])
    then show ?thesis by simp
  qed
  have nt: "t_magic nt = THREAD_MAGIC" "t_priority nt = 16" "t_state nt = THREAD_READY"
      "t_queue_node nt = Some (RunQ 16)" "t_pinned_cpu nt = 0" "t_blocking_wait_queue nt = None"
      "t_flags nt = 39" "\<not> thread_is_idle nt"
    using B by (simp_all add: nt_def thread_is_idle_def)
  have it: "t_magic it = THREAD_MAGIC" "t_priority it = 0" "t_state it = THREAD_RUNNING" "t_queue_node it = None"
      "t_pinned_cpu it = 0" "t_curr_cpu it = 0" "t_blocking_wait_queue it = None" "t_flags it = 17" "thread_is_idle it"
      "thread_is_real_time_or_idle it"
    by (simp_all add: it_def zero_thread_def thread_is_idle_def thread_is_real_time_or_idle_def)
  have z: "t_queue_node zero_thread = None" "t_flags zero_thread = 0" by (simp_all add: zero_thread_def)
  have eqs: "run_queue s = (\<lambda>_. [])(16 := [Thread n])" "run_queue_bitmap s = 0x10000"
      "thread_list s = [Thread n, IdleThread 0]" "current_thread s = [0 \<mapsto> IdleThread 0]"
      "active_cpus s = 1" "idle_cpus s = 1" "timer_queue s = (\<lambda>_. [])"
    and wq: "wait_queues s = (\<lambda>_. zero_wait_queue)(RetcodeWQ (IdleThread 0) := WAIT_QUEUE_INITIAL_VALUE,
        RetcodeWQ (Thread n) := WAIT_QUEUE_INITIAL_VALUE)"
    and tm: "timers s = (\<lambda>m. case m of PreemptTimer i \<Rightarrow> if i < k then TIMER_INITIAL_VALUE else zero_timer
                               | StackTimer t \<Rightarrow> zero_timer)"
    using B by blast+
  have wl: "wq_list (wait_queues s w) = []" for w
    by (simp add: wq zero_wait_queue_def WAIT_QUEUE_INITIAL_VALUE_def)
  have tn: "tm_node (timers s m) = None" for m
    by (simp add: tm zero_timer_def TIMER_INITIAL_VALUE_def split: timer_ref.split)
  have bm: "bit (0x10000 :: u32) p \<longleftrightarrow> p = 16" for p
    using bit_exp_iff [where ?'a = "32 word", of 16 p] by auto
  have "queues_ok s" by (auto simp: queues_ok_def eqs th wl nt it z bm simp del: bit_numeral_word_iff)
  moreover have "wqs_ok s" by (auto simp: wqs_ok_def wq zero_wait_queue_def WAIT_QUEUE_INITIAL_VALUE_def)
  moreover have "threads_ok {} s"
    by (auto simp: threads_ok_def thread_ok_def Let_def lv th eqs nt it z)
  moreover have "cpus_ok {} s" by (rule cpus_okI) (auto simp: eqs th lv it nt split: if_splits)
  moreover have "idle_ok s" by (auto simp: idle_ok_def lv eqs th it bit_1_iff)
  moreover have "preempt_ok s"
    using assms(2) by (auto simp: preempt_ok_def eqs th it tn) (simp add: tm TIMER_INITIAL_VALUE_def)
  moreover have "stack_timers_ok s" by (auto simp: stack_timers_ok_def tn lv th it nt)
  moreover have "timer_inv s" by (simp add: timer_inv_def eqs tn)
  ultimately show "sched_inv s" by (simp add: kinv_def)
  show "join_ok s" by (auto simp: join_ok_def lv wl) (simp_all add: wq WAIT_QUEUE_INITIAL_VALUE_def)
qed

text \<open>
  After boot the second thread runs; nobody waits, no timer of a thread is armed, and the only wait
  queues set up are those of threads.
\<close>

definition booted :: "nat \<Rightarrow> 'x \<Rightarrow> 'x kernel_scheme \<Rightarrow> bool" where
  "booted n ext s \<longleftrightarrow> sched_inv s \<and> join_ok s \<and> current_thread s = [0 \<mapsto> Thread n] \<and> kernel.more s = ext \<and>
     (\<forall>w. wq_list (wait_queues s w) = [] \<and>
        (wq_magic (wait_queues s w) = WAIT_QUEUE_MAGIC \<longrightarrow> (\<exists>t. w = RetcodeWQ t))) \<and>
     (\<forall>t. tm_node (timers s (StackTimer t)) = None)"

lemma lk_main_ok:
  assumes "0 < k"
  shows "\<exists>s. lk_main k entry stack_size (Some (Thread n)) (Some st) (bss ext) = Some s \<and> booted n ext s"
proof -
  obtain s where s: "lk_main k entry stack_size (Some (Thread n)) (Some st) (bss ext) = thread_yield 0 s"
      "boot_ready k entry n st ext s"
    using lk_main_ready [OF assms, of entry stack_size n st ext] by blast
  note inv = boot_ready_inv [OF s(2) assms]
  note B = s(2) [unfolded boot_ready_def]
  let ?i = "IdleThread 0" and ?f = "\<lambda>th. th\<lparr>t_state := THREAD_READY, t_remaining_quantum := 0\<rparr>"
  have cur: "current_thread s 0 = Some ?i"
  proof -
    have "current_thread s = [0 \<mapsto> ?i]" using B by blast
    then show ?thesis by simp
  qed
  note ci = currentD(3) [OF inv(1) cur, simplified]
  have idle: "thread_is_idle (threads s ?i)"
    using thread_ok_self [OF inv(1), of ?i] ci by (auto simp: thread_ok_def Let_def)
  have pr: "0 \<le> t_priority (threads s ?i) \<and> t_priority (threads s ?i) < NUM_PRIORITIES"
    using thread_okD(2) [OF inv(1), of ?i] ci by simp
  let ?s1 = "upd_thread ?i ?f s"
  have y: "thread_yield 0 s = thread_resched 0 ?s1"
    using cur ci idle thread_okD(1) [OF inv(1), of ?i] by (simp add: thread_yield_def Let_def thread_is_idle_def)
  have sl: "same_links (threads s ?i) (?f (threads s ?i))" "t_state (?f (threads s ?i)) = THREAD_READY"
      "0 \<le> t_priority (?f (threads s ?i)) \<and> t_priority (?f (threads s ?i)) < NUM_PRIORITIES"
    using pr by (simp_all add: same_links_def)
  have k1: "kinv {} {0} ?s1"
    using kinv_make_ready [where f = ?f, OF inv(1) cur _ sl] idle by simp
  have rq: "run_queue s = (\<lambda>_. [])(16 := [Thread n])" "t_pinned_cpu (threads s (Thread n)) = 0"
    and wqs: "wait_queues s = (\<lambda>_. zero_wait_queue)(RetcodeWQ (IdleThread 0) := WAIT_QUEUE_INITIAL_VALUE,
        RetcodeWQ (Thread n) := WAIT_QUEUE_INITIAL_VALUE)"
    and tms: "timers s = (\<lambda>m. case m of PreemptTimer i \<Rightarrow> if i < k then TIMER_INITIAL_VALUE else zero_timer
                               | StackTimer t \<Rightarrow> zero_timer)"
    and mor: "kernel.more s = ext" and cu: "current_thread s = [0 \<mapsto> ?i]"
    using B by blast+
  have run: "run_queue ?s1 16 = [Thread n]" "may_run 0 ?s1 (Thread n)"
    using rq by (simp_all add: may_run_def)
  have top: "fst (get_top_thread 0 ?s1) = Thread n"
    using k1
  proof (cases rule: get_top_thread_cases [where cpu = 0])
    case idle
    then show ?thesis using run idle(2) [of "Thread n" 16] by simp
  next
    case (queued p t as bs)
    have "t \<in> set (run_queue ?s1 p)" using queued(1) by simp
    moreover have "run_queue ?s1 = (\<lambda>_. [])(16 := [Thread n])" using rq by simp
    ultimately have "t = Thread n" by (auto split: if_splits)
    then show ?thesis using queued(5) by simp
  qed
  obtain s' where s': "thread_resched 0 ?s1 = Some s'" "sched_inv s'" "resched_frame 0 (Thread n) ?s1 s'"
    using thread_resched_ok [OF k1, of ?i] cur top by auto
  have sh: "shuffled 0 s s'" using thread_yield_ok [OF inv(1) cur] y s'(1) by simp
  note D = shuffledD [OF sh]
  have wl: "wq_list (wait_queues s w) = []" "wq_magic (wait_queues s w) = WAIT_QUEUE_MAGIC \<Longrightarrow> \<exists>t. w = RetcodeWQ t" for w
    using wqs by (auto simp: zero_wait_queue_def WAIT_QUEUE_INITIAL_VALUE_def split: if_splits)
  have tm: "tm_node (timers s (StackTimer t)) = None" for t by (simp add: tms zero_timer_def)
  have "booted n ext s'"
    using s'(2,3) join_ok_shuffled [OF inv(2) sh] wl tm mor cu by (simp add: booted_def resched_frame_def)
  then show ?thesis using s(1) s'(1) y by auto
qed

section \<open>Secondary cpus\<close>

text \<open>A cpu that has not entered the scheduler yet: its preemption timer is initialised and idle.\<close>

definition cpu_offline :: "nat \<Rightarrow> 'x kernel_scheme \<Rightarrow> bool" where
  "cpu_offline c s \<longleftrightarrow> current_thread s c = None \<and> \<not> bit (active_cpus s) c \<and>
     tm_magic (timers s (PreemptTimer c)) = TIMER_MAGIC \<and> tm_node (timers s (PreemptTimer c)) = None \<and>
     wq_list (wait_queues s (RetcodeWQ (IdleThread c))) = []"

lemma thread_secondary_cpu_init_early_inv:
  assumes inv: "sched_inv s" and off: "cpu_offline c s"
  shows "sched_inv (thread_secondary_cpu_init_early c s)" (is "sched_inv ?s")
proof -
  let ?t = "IdleThread c"
  note I = kinvD [OF inv]
  define nt :: thread where "nt = zero_thread\<lparr>t_magic := THREAD_MAGIC, t_name := take 31 (idle_name c),
      t_priority := HIGHEST_PRIORITY, t_state := THREAD_RUNNING,
      t_flags := THREAD_FLAG_DETACHED OR THREAD_FLAG_IDLE, t_curr_cpu := int c, t_pinned_cpu := int c\<rparr>"
  have s': "threads ?s = (threads s)(?t := nt)"
      "wait_queues ?s = (wait_queues s)(RetcodeWQ ?t := WAIT_QUEUE_INITIAL_VALUE)"
      "thread_list ?s = ?t # thread_list s" "run_queue ?s = run_queue s" "run_queue_bitmap ?s = run_queue_bitmap s"
      "current_thread ?s = (current_thread s)(c \<mapsto> ?t)" "active_cpus ?s = active_cpus s"
      "idle_cpus ?s = idle_cpus s" "timers ?s = timers s" "timer_queue ?s = timer_queue s"
    by (simp_all add: thread_secondary_cpu_init_early_def init_thread_struct_def wait_queue_init_def Let_def
        upd_thread_def upd_wq_def nt_def)
  have nt: "t_magic nt = THREAD_MAGIC" "t_queue_node nt = None" "t_priority nt = 31" "t_state nt = THREAD_RUNNING"
      "thread_is_idle nt" "thread_is_real_time_or_idle nt" "t_blocking_wait_queue nt = None"
      "t_curr_cpu nt = int c" "t_pinned_cpu nt = int c"
    by (simp_all add: nt_def zero_thread_def thread_is_idle_def thread_is_real_time_or_idle_def)
  note off' = off [unfolded cpu_offline_def]
  have dead: "\<not> live s ?t" using I(5) off' by (simp add: idle_ok_def)
  have lv: "live ?s x \<longleftrightarrow> live s x \<or> x = ?t" for x by (auto simp: live_def s')
  have old: "t_queue_node (threads s ?t) = None" by (rule not_live_queue_node [OF inv dead])
  have wl: "wq_list (wait_queues ?s w) = wq_list (wait_queues s w)" for w
    using off' by (simp add: s' WAIT_QUEUE_INITIAL_VALUE_def)
  have node: "t_queue_node (threads ?s x) = t_queue_node (threads s x)" for x
    using old nt(2) by (simp add: s')
  have cur: "current_thread s d = Some x \<Longrightarrow> x \<noteq> ?t" for d x
    using currentD(3) [OF inv, of d x] dead by auto
  have run: "\<exists>d. d \<noteq> c \<and> current_thread s d = Some x"
    if "live s x" "t_state (threads s x) = THREAD_RUNNING" for x
    using runningD [OF inv, of x] that off' by (metis option.distinct(1))
  have "queues_ok ?s" using I(1) by (simp add: queues_ok_def s'(4,5) wl node)
  moreover have "wqs_ok ?s" using I(2) by (auto simp: wqs_ok_def s'(2) WAIT_QUEUE_INITIAL_VALUE_def)
  moreover have "threads_ok {} ?s" unfolding threads_ok_def
  proof (intro conjI allI)
    show "distinct (thread_list ?s)" using I(3) dead by (simp add: threads_ok_def s'(3) live_def)
    fix x have ok: "thread_ok {} s x" using I(3) by (simp add: threads_ok_def)
    show "thread_ok {} ?s x"
    proof (cases "x = ?t")
      case True
      then show ?thesis using nt by (simp add: thread_ok_def Let_def s'(1))
    next
      case False
      then have "threads ?s x = threads s x" "live ?s x = live s x" by (simp_all add: s'(1) lv)
      then show ?thesis using ok by (simp only: thread_ok_def)
    qed
  qed
  moreover have "cpus_ok {} ?s"
  proof (rule cpus_okI)
    fix x assume "live ?s x" "t_state (threads ?s x) = THREAD_RUNNING"
    then show "\<exists>d. current_thread ?s d = Some x"
      using run [of x] by (cases "x = ?t") (auto simp: s'(1,6) lv)
  qed (use cur currentD [OF inv] off' nt in \<open>auto simp: s'(1,6) lv split: if_splits\<close>)
  moreover have "idle_ok ?s"
    using I(5) cur off' nt unfolding idle_ok_def lv s'(6,7,8) by (auto simp: s'(1))
  moreover have "preempt_ok ?s"
    using I(6) cur off' nt unfolding preempt_ok_def s'(6,9) by (auto simp: s'(1))
  moreover have "stack_timers_ok ?s"
    using I(7) dead nt(4) unfolding stack_timers_ok_def lv s'(9) by (auto simp: s'(1))
  moreover have "timer_inv ?s" using I(8) timer_inv_cong [OF s'(9,10)] by simp
  ultimately show ?thesis by (simp add: kinv_def)
qed

text \<open>
  The cpu then lowers its thread to the idle priority, marks itself active and idle, and yields. From
  its first instruction to its first reschedule the invariant holds.
\<close>

lemma kinv_go_idle:
  assumes inv: "sched_inv s" and cur: "current_thread s c = Some (IdleThread c)"
  shows "sched_inv (mp_set_cpu_idle c (mp_set_curr_cpu_active c
           (upd_thread (IdleThread c) (\<lambda>th. th\<lparr>t_priority := IDLE_PRIORITY\<rparr>) s)))" (is "sched_inv ?s")
proof -
  let ?t = "IdleThread c"
  note I = kinvD [OF inv]
  have lv: "live ?s = live s" by (rule live_cong) (simp add: mp_set_cpu_idle_def mp_set_curr_cpu_active_def)
  have s': "wait_queues ?s = wait_queues s" "run_queue ?s = run_queue s" "run_queue_bitmap ?s = run_queue_bitmap s"
      "current_thread ?s = current_thread s" "timers ?s = timers s" "timer_queue ?s = timer_queue s"
      "thread_list ?s = thread_list s"
      "threads ?s = (threads s)(?t := (threads s ?t)\<lparr>t_priority := IDLE_PRIORITY\<rparr>)"
    by (simp_all add: mp_set_cpu_idle_def mp_set_curr_cpu_active_def upd_thread_def)
  have bits: "bit (active_cpus ?s) d \<longleftrightarrow> bit (active_cpus s) d \<or> d = c \<and> c < 32"
      "bit (idle_cpus ?s) d \<longleftrightarrow> bit (idle_cpus s) d \<or> d = c \<and> c < 32" for d
    by (auto simp: mp_set_cpu_idle_def mp_set_curr_cpu_active_def bit_simps)
  have id: "thread_is_idle (threads s ?t)"
    using thread_ok_self [OF inv, of ?t] currentD(3) [OF inv cur] by (auto simp: thread_ok_def Let_def)
  have proj: "t_magic (threads ?s x) = t_magic (threads s x)" "t_queue_node (threads ?s x) = t_queue_node (threads s x)"
      "t_curr_cpu (threads ?s x) = t_curr_cpu (threads s x)" "t_pinned_cpu (threads ?s x) = t_pinned_cpu (threads s x)"
      "t_blocking_wait_queue (threads ?s x) = t_blocking_wait_queue (threads s x)"
      "t_state (threads ?s x) = t_state (threads s x)"
      "thread_is_idle (threads ?s x) = thread_is_idle (threads s x)"
      "thread_is_real_time_or_idle (threads ?s x) = thread_is_real_time_or_idle (threads s x)" for x
    by (simp_all add: s' thread_is_idle_def thread_is_real_time_or_idle_def)
  have "queues_ok ?s \<and> wqs_ok ?s \<and> cpus_ok {} ?s \<and> preempt_ok ?s \<and> stack_timers_ok ?s \<and> timer_inv ?s"
    using I unfolding queues_ok_def wqs_ok_def cpus_ok_def preempt_ok_def stack_timers_ok_def timer_inv_def
      Let_def lv proj s'(1-7) by blast
  moreover have "threads_ok {} ?s"
  proof (rule threads_okI [OF inv s'(7)])
    show "thread_ok {} ?s ?t"
      using thread_ok_self [OF inv, of ?t] id unfolding thread_ok_def Let_def proj lv by (simp add: s'(8))
  qed (simp_all add: s'(8))
  moreover have "idle_ok ?s"
  proof -
    have "bit (idle_cpus ?s) d \<longleftrightarrow> thread_is_idle (threads s x)"
      if "current_thread s d = Some x" "bit (active_cpus ?s) d" for d x
    proof (cases "d = c")
      case True
      have "bit (active_cpus s) c \<Longrightarrow> c < 32" using bit_imp_le_length by fastforce
      then show ?thesis using True that cur id by (auto simp: bits)
    next
      case False
      then show ?thesis using I(5) that by (simp add: idle_ok_def bits)
    qed
    then show ?thesis using I(5) unfolding idle_ok_def proj lv s'(4) by blast
  qed
  ultimately show ?thesis by (simp add: kinv_def)
qed

lemma secondary_cpu_boot_ok:
  assumes inv: "sched_inv s" and off: "cpu_offline c s"
  shows "\<exists>s'. thread_secondary_cpu_entry c (thread_secondary_cpu_init_early c s) = Some s' \<and> sched_inv s'"
proof -
  let ?s = "thread_secondary_cpu_init_early c s"
  have cur: "current_thread ?s c = Some (IdleThread c)" by (simp add: thread_secondary_cpu_init_early_def Let_def)
  note go = kinv_go_idle [OF thread_secondary_cpu_init_early_inv [OF inv off] cur]
  have "current_thread (mp_set_cpu_idle c (mp_set_curr_cpu_active c
      (upd_thread (IdleThread c) (\<lambda>th. th\<lparr>t_priority := IDLE_PRIORITY\<rparr>) ?s))) c = Some (IdleThread c)"
    using cur by (simp add: mp_set_cpu_idle_def mp_set_curr_cpu_active_def)
  from thread_yield_ok [OF go this] show ?thesis
    using cur by (auto simp: thread_secondary_cpu_entry_def Let_def)
qed

end
