(* ===== verification/Machine.thy ===== *)
theory Machine
  imports Sync Gate Boot
begin

text \<open>
  The kernel as a whole: the threads of all cpus, the timer interrupt and the blocking primitives, as a
  machine whose steps are the calls of the previous theories. A thread that gave up its cpu inside a
  blocking call has a continuation, the rest of that call, which runs when the scheduler comes back to
  it.

  \<open>contract\<close> says what the callers of each operation have to respect: the comments of the sources
  (idle threads do not block, an object is initialised before it is used and nobody waits on it when it
  is destroyed, a thread is joined or detached by one thread) and the assertions on ownership. Under it
  no call fails an assertion, whatever the interleaving, and the invariant holds.
\<close>

section \<open>Steps\<close>

datatype cont = Outside | Asleep | Blocked wqref lk_time_t | BlockedSemWait nat

text \<open>
  \<open>owns\<close> and \<open>avail\<close> are history: the threads whose acquisition of a mutex has returned and which have
  not released it, and the units of a semaphore put in minus those taken by calls that have returned.
  \<open>timed\<close> has the wait queues on which a thread has blocked with a timeout.
\<close>

record machine =
  kern :: sync
  conts :: "tid \<Rightarrow> cont"
  owns :: "nat \<Rightarrow> tid set"
  avail :: "nat \<Rightarrow> int"
  timed :: "wqref set"

datatype call =
  Yield | Preempt | SetPriority int | SetRealTime tid | Sleep lk_time_t | Clock lk_time_t | Tick lk_time_t
| CpuInit | CpuEntry | Create string nat nat int nat "tid option" "nat option" | Resume tid | Exit int | Detach tid
| Join tid lk_time_t | Continue
| MutexInit nat | MutexDestroy nat | MutexAcquire nat lk_time_t | MutexRelease nat
| SemInit nat u32 | SemDestroy nat | SemPost nat bool | SemWait nat | SemTrywait nat | SemTimedwait nat lk_time_t
| EventInit nat bool u32 | EventDestroy nat | EventWait nat lk_time_t | EventSignal nat bool | EventUnsignal nat

definition with_kern :: "sync option \<Rightarrow> machine \<Rightarrow> machine option" where
  "with_kern r M = map_option (\<lambda>s. M\<lparr>kern := s\<rparr>) r"

definition block_as :: "tid \<Rightarrow> cont \<Rightarrow> machine \<Rightarrow> machine" where
  "block_as t k M = M\<lparr>conts := (conts M)(t := k),
     timed := (case k of Blocked w timeout \<Rightarrow> if timeout = INFINITE_TIME then timed M else insert w (timed M)
                       | _ \<Rightarrow> timed M)\<rparr>"

definition owned :: "nat \<Rightarrow> tid \<Rightarrow> machine \<Rightarrow> machine" where
  "owned m t M = M\<lparr>owns := (owns M)(m := insert t (owns M m))\<rparr>"

definition put_back :: "nat \<Rightarrow> int \<Rightarrow> machine \<Rightarrow> machine" where
  "put_back i n M = M\<lparr>avail := (avail M)(i := avail M i + n)\<rparr>"

text \<open>The rest of the blocking call that the current thread is in.\<close>

definition continue :: "nat \<Rightarrow> machine \<Rightarrow> machine option" where
  "continue c M = do {
     t \<leftarrow> current_thread (kern M) c;
     let N = M\<lparr>conts := (conts M)(t := Outside)\<rparr>;
     case conts M t of
       Outside \<Rightarrow> None
     | Asleep \<Rightarrow> Some N
     | Blocked (RetcodeWQ x) timeout \<Rightarrow> do {
         (_, s) \<leftarrow> thread_join_resume x timeout c (kern M); Some (N\<lparr>kern := s\<rparr>) }
     | Blocked (MutexWQ m) timeout \<Rightarrow> do {
         (ret, s) \<leftarrow> mutex_acquire_timeout_resume m timeout c (kern M);
         Some ((if ret = NO_ERROR then owned m t else id) (N\<lparr>kern := s\<rparr>)) }
     | Blocked (SemWQ i) timeout \<Rightarrow> do {
         (ret, s) \<leftarrow> sem_timedwait_resume i timeout c (kern M);
         Some ((if ret = NO_ERROR then put_back i (- 1) else id) (N\<lparr>kern := s\<rparr>)) }
     | BlockedSemWait i \<Rightarrow> do {
         (ret, s) \<leftarrow> sem_wait_resume i c (kern M);
         Some ((if ret = NO_ERROR then put_back i (- 1) else id) (N\<lparr>kern := s\<rparr>)) }
     | Blocked (EventWQ e) timeout \<Rightarrow> do {
         (_, s) \<leftarrow> event_wait_timeout_resume e timeout c (kern M); Some (N\<lparr>kern := s\<rparr>) }
     | Blocked (WQ n) timeout \<Rightarrow> do {
         (_, s) \<leftarrow> wait_queue_block_resume timeout c (kern M); Some (N\<lparr>kern := s\<rparr>) } }"

fun exec :: "call \<Rightarrow> nat \<Rightarrow> machine \<Rightarrow> machine option" where
  "exec Yield c M = with_kern (thread_yield c (kern M)) M"
| "exec Preempt c M = with_kern (thread_preempt c (kern M)) M"
| "exec (SetPriority p) c M = with_kern (thread_set_priority p c (kern M)) M"
| "exec (SetRealTime t) c M = with_kern (map_option snd (thread_set_real_time (Some t) c (kern M))) M"
| "exec (Sleep delay) c M = do {
     t \<leftarrow> current_thread (kern M) c;
     s \<leftarrow> thread_sleep delay c (kern M);
     Some (block_as t Asleep (M\<lparr>kern := s\<rparr>)) }"
| "exec (Clock now) c M = Some (M\<lparr>kern := (kern M)\<lparr>current_time := now\<rparr>\<rparr>)"
| "exec (Tick now) c M = with_kern (map_option snd (timer_tick (fire_callback c) c now (kern M))) M"
| "exec CpuInit c M = Some (M\<lparr>kern := thread_secondary_cpu_init_early c (kern M)\<rparr>)"
| "exec CpuEntry c M = with_kern (thread_secondary_cpu_entry c (kern M)) M"
| "exec (Create name entry arg priority stack_size struct stack) c M =
     with_kern (map_option snd (thread_create name entry arg priority stack_size struct stack c (kern M))) M"
| "exec (Resume t) c M = with_kern (map_option snd (thread_resume t False c (kern M))) M"
| "exec (Exit r) c M = with_kern (thread_exit r c (kern M)) M"
| "exec (Detach t) c M = with_kern (map_option snd (thread_detach t c (kern M))) M"
| "exec (Join x timeout) c M = do {
     t \<leftarrow> current_thread (kern M) c;
     (r, s) \<leftarrow> thread_join x timeout c (kern M);
     Some (case r of Switches \<Rightarrow> block_as t (Blocked (RetcodeWQ x) timeout) (M\<lparr>kern := s\<rparr>)
                   | Returns _ \<Rightarrow> M\<lparr>kern := s\<rparr>) }"
| "exec Continue c M = continue c M"
| "exec (MutexInit m) c M = Some (M\<lparr>kern := mutex_init m (kern M), owns := (owns M)(m := {})\<rparr>)"
| "exec (MutexDestroy m) c M = with_kern (mutex_destroy m c (kern M)) M"
| "exec (MutexAcquire m timeout) c M = do {
     t \<leftarrow> current_thread (kern M) c;
     (r, s) \<leftarrow> mutex_acquire_timeout m timeout c (kern M);
     Some (case r of Switches \<Rightarrow> block_as t (Blocked (MutexWQ m) timeout) (M\<lparr>kern := s\<rparr>)
                   | Returns ret \<Rightarrow> (if ret = NO_ERROR then owned m t else id) (M\<lparr>kern := s\<rparr>)) }"
| "exec (MutexRelease m) c M = do {
     t \<leftarrow> current_thread (kern M) c;
     (_, s) \<leftarrow> mutex_release m c (kern M);
     Some (M\<lparr>kern := s, owns := (owns M)(m := owns M m - {t})\<rparr>) }"
| "exec (SemInit i value) c M = Some (M\<lparr>kern := sem_init i value (kern M), avail := (avail M)(i := sint value)\<rparr>)"
| "exec (SemDestroy i) c M = with_kern (sem_destroy i c (kern M)) M"
| "exec (SemPost i resched) c M = do {
     (_, s) \<leftarrow> sem_post i resched c (kern M);
     Some (put_back i 1 (M\<lparr>kern := s\<rparr>)) }"
| "exec (SemWait i) c M = do {
     t \<leftarrow> current_thread (kern M) c;
     (r, s) \<leftarrow> sem_wait i c (kern M);
     Some (case r of Switches \<Rightarrow> block_as t (BlockedSemWait i) (M\<lparr>kern := s\<rparr>)
                   | Returns ret \<Rightarrow> (if ret = NO_ERROR then put_back i (- 1) else id) (M\<lparr>kern := s\<rparr>)) }"
| "exec (SemTrywait i) c M =
     (case sem_trywait i (kern M) of
        (ret, s) \<Rightarrow> Some ((if ret = NO_ERROR then put_back i (- 1) else id) (M\<lparr>kern := s\<rparr>)))"
| "exec (SemTimedwait i timeout) c M = do {
     t \<leftarrow> current_thread (kern M) c;
     (r, s) \<leftarrow> sem_timedwait i timeout c (kern M);
     Some (case r of Switches \<Rightarrow> block_as t (Blocked (SemWQ i) timeout) (M\<lparr>kern := s\<rparr>)
                   | Returns ret \<Rightarrow> (if ret = NO_ERROR then put_back i (- 1) else id) (M\<lparr>kern := s\<rparr>)) }"
| "exec (EventInit e initial flags) c M = Some (M\<lparr>kern := event_init e initial flags (kern M)\<rparr>)"
| "exec (EventDestroy e) c M = with_kern (event_destroy e c (kern M)) M"
| "exec (EventWait e timeout) c M = do {
     t \<leftarrow> current_thread (kern M) c;
     (r, s) \<leftarrow> event_wait_timeout e timeout c (kern M);
     Some (case r of Switches \<Rightarrow> block_as t (Blocked (EventWQ e) timeout) (M\<lparr>kern := s\<rparr>)
                   | Returns ret \<Rightarrow> M\<lparr>kern := s\<rparr>) }"
| "exec (EventSignal e resched) c M = with_kern (map_option snd (event_signal e resched c (kern M))) M"
| "exec (EventUnsignal e) c M = with_kern (map_option snd (event_unsignal e (kern M))) M"

fun blocked_at :: "cont \<Rightarrow> (wqref \<times> lk_time_t) option" where
  "blocked_at (Blocked w timeout) = Some (w, timeout)"
| "blocked_at (BlockedSemWait i) = Some (SemWQ i, INFINITE_TIME)"
| "blocked_at _ = None"

definition in_call :: "machine \<Rightarrow> wqref \<Rightarrow> tid \<Rightarrow> bool" where
  "in_call M w t \<longleftrightarrow> (\<exists>timeout. blocked_at (conts M t) = Some (w, timeout))"

definition active :: "machine \<Rightarrow> wqref \<Rightarrow> bool" where
  "active M w \<longleftrightarrow> wq_magic (wait_queues (kern M) w) = WAIT_QUEUE_MAGIC"

text \<open>In the context of a thread, outside any call; \<open>can_block\<close>: not the idle thread.\<close>

definition thread_context :: "machine \<Rightarrow> nat \<Rightarrow> bool" where
  "thread_context M c \<longleftrightarrow> (\<exists>t. current_thread (kern M) c = Some t \<and> conts M t = Outside)"

definition can_block :: "machine \<Rightarrow> nat \<Rightarrow> bool" where
  "can_block M c \<longleftrightarrow>
     (\<exists>t. current_thread (kern M) c = Some t \<and> conts M t = Outside \<and> \<not> thread_is_idle (threads (kern M) t))"

definition unused :: "machine \<Rightarrow> wqref \<Rightarrow> bool" where
  "unused M w \<longleftrightarrow> (\<forall>t. \<not> in_call M w t)"

fun contract :: "call \<Rightarrow> nat \<Rightarrow> machine \<Rightarrow> bool" where
  "contract Yield c M = thread_context M c"
| "contract Preempt c M = (current_thread (kern M) c \<noteq> None)"
| "contract (SetPriority p) c M = can_block M c"
| "contract (SetRealTime t) c M =
     (live (kern M) t \<and> (\<forall>d. current_thread (kern M) d = Some t \<longrightarrow> d = c))"
| "contract (Sleep delay) c M = can_block M c"
| "contract (Clock now) c M = True"
| "contract (Tick now) c M = (current_thread (kern M) c \<noteq> None \<and> (\<exists>base. tick_window base now c (kern M)))"
| "contract CpuInit c M = cpu_offline c (kern M)"
| "contract CpuEntry c M = (current_thread (kern M) c = Some (IdleThread c))"
| "contract (Create name entry arg priority stack_size struct stack) c M =
     (thread_context M c \<and> 0 \<le> priority \<and> priority < NUM_PRIORITIES \<and>
      (\<forall>t. struct = Some t \<longrightarrow> fresh_thread (kern M) t))"
| "contract (Resume t) c M =
     (thread_context M c \<and> live (kern M) t \<and> t_state (threads (kern M) t) \<noteq> THREAD_DEATH)"
| "contract (Exit r) c M = can_block M c"
| "contract (Detach t) c M = (thread_context M c \<and> live (kern M) t \<and> unused M (RetcodeWQ t))"
| "contract (Join t timeout) c M = (can_block M c \<and> live (kern M) t \<and> unused M (RetcodeWQ t))"
| "contract Continue c M = (\<exists>t. current_thread (kern M) c = Some t \<and> conts M t \<noteq> Outside)"
| "contract (MutexInit m) c M = (\<not> active M (MutexWQ m))"
| "contract (MutexDestroy m) c M =
     (can_block M c \<and> unused M (MutexWQ m) \<and> mx_magic (mutexes (kern M) m) = MUTEX_MAGIC \<and>
      mx_holder (mutexes (kern M) m) \<in> {None, current_thread (kern M) c})"
| "contract (MutexAcquire m timeout) c M =
     (can_block M c \<and> mx_magic (mutexes (kern M) m) = MUTEX_MAGIC \<and> \<not> is_mutex_held m c (kern M))"
| "contract (MutexRelease m) c M =
     (can_block M c \<and> mx_magic (mutexes (kern M) m) = MUTEX_MAGIC \<and> is_mutex_held m c (kern M))"
| "contract (SemInit i value) c M = (\<not> active M (SemWQ i) \<and> 0 \<le> sint value)"
| "contract (SemDestroy i) c M = (can_block M c \<and> active M (SemWQ i) \<and> unused M (SemWQ i))"
| "contract (SemPost i resched) c M =
     ((if resched then can_block M c else current_thread (kern M) c \<noteq> None) \<and> active M (SemWQ i))"
| "contract (SemWait i) c M = (can_block M c \<and> active M (SemWQ i))"
| "contract (SemTrywait i) c M = active M (SemWQ i)"
| "contract (SemTimedwait i timeout) c M = (can_block M c \<and> active M (SemWQ i))"
| "contract (EventInit e initial flags) c M = (\<not> active M (EventWQ e))"
| "contract (EventDestroy e) c M = (can_block M c \<and> event_initialized e (kern M) \<and> unused M (EventWQ e))"
| "contract (EventWait e timeout) c M = (can_block M c \<and> event_initialized e (kern M))"
| "contract (EventSignal e resched) c M =
     ((if resched then can_block M c else current_thread (kern M) c \<noteq> None) \<and> event_initialized e (kern M))"
| "contract (EventUnsignal e) c M = event_initialized e (kern M)"

section \<open>The invariant\<close>

definition cont_ok :: "sync \<Rightarrow> cont \<Rightarrow> tid \<Rightarrow> bool" where
  "cont_ok s k t \<longleftrightarrow>
     (k \<noteq> Outside \<longrightarrow> live s t \<and> t_state (threads s t) \<noteq> THREAD_DEATH) \<and>
     (k = Outside \<longrightarrow> tm_node (timers s (StackTimer t)) = None) \<and>
     (k = Asleep \<longrightarrow> tm_node (timers s (StackTimer t)) \<noteq> None \<longrightarrow>
        tm_callback (timers s (StackTimer t)) = Some (CB_thread_sleep_handler t)) \<and>
     (case blocked_at k of
        None \<Rightarrow> (\<forall>w. t \<notin> set (wq_list (wait_queues s w)))
      | Some (w, timeout) \<Rightarrow>
          (\<forall>v. v \<noteq> w \<longrightarrow> t \<notin> set (wq_list (wait_queues s v))) \<and>
          wq_magic (wait_queues s w) = WAIT_QUEUE_MAGIC \<and>
          (if timeout = INFINITE_TIME then tm_node (timers s (StackTimer t)) = None
           else tm_magic (timers s (StackTimer t)) = TIMER_MAGIC) \<and>
          (t \<notin> set (wq_list (wait_queues s w)) \<longrightarrow>
             t_wait_queue_block_ret (threads s t) = NO_ERROR \<or>
             t_wait_queue_block_ret (threads s t) = ERR_TIMED_OUT \<and> timeout \<noteq> INFINITE_TIME))"

text \<open>A joined thread is there, not detached, and dead once its joiner has been woken by it.\<close>

definition joins_ok :: "machine \<Rightarrow> bool" where
  "joins_ok M \<longleftrightarrow> (\<forall>x t. in_call M (RetcodeWQ x) t \<longrightarrow>
     live (kern M) x \<and> t_flags (threads (kern M) x) AND THREAD_FLAG_DETACHED = 0 \<and>
     (\<forall>t'. in_call M (RetcodeWQ x) t' \<longrightarrow> t' = t) \<and>
     (t \<notin> set (wq_list (wait_queues (kern M) (RetcodeWQ x))) \<and>
      t_wait_queue_block_ret (threads (kern M) t) = NO_ERROR \<longrightarrow>
        t_state (threads (kern M) x) = THREAD_DEATH))"

text \<open>The gate inside a mutex or a semaphore.\<close>

fun is_gate :: "wqref \<Rightarrow> bool" where
  "is_gate (MutexWQ m) = True" | "is_gate (SemWQ i) = True" | "is_gate _ = False"

fun gate_value :: "sync \<Rightarrow> wqref \<Rightarrow> int" where
  "gate_value s (MutexWQ m) = 1 - mx_count (mutexes s m)"
| "gate_value s (SemWQ i) = sem_count (semaphores s i)"
| "gate_value s _ = 0"

fun gate_tokens :: "machine \<Rightarrow> wqref \<Rightarrow> int" where
  "gate_tokens M (MutexWQ m) = 1 - int (card (owns M m))"
| "gate_tokens M (SemWQ i) = avail M i"
| "gate_tokens M _ = 0"

definition abs_gate :: "wqref \<Rightarrow> machine \<Rightarrow> gate" where
  "abs_gate w M = (let out = {t. in_call M w t \<and> t \<notin> set (wq_list (wait_queues (kern M) w))} in
     \<lparr>g_value = gate_value (kern M) w, g_tokens = gate_tokens M w,
      g_waiting = wq_list (wait_queues (kern M) w),
      g_granted = {t \<in> out. t_wait_queue_block_ret (threads (kern M) t) = NO_ERROR},
      g_expired = {t \<in> out. t_wait_queue_block_ret (threads (kern M) t) \<noteq> NO_ERROR}\<rparr>)"

definition gates_ok :: "machine \<Rightarrow> bool" where
  "gates_ok M \<longleftrightarrow> (\<forall>w. is_gate w \<and> active M w \<longrightarrow>
     gate_inv (abs_gate w M) \<and> (w \<notin> timed M \<longrightarrow> gate_calm (abs_gate w M)))"

definition timed_ok :: "machine \<Rightarrow> bool" where
  "timed_ok M \<longleftrightarrow> (\<forall>t w timeout. blocked_at (conts M t) = Some (w, timeout) \<and> timeout \<noteq> INFINITE_TIME
     \<longrightarrow> w \<in> timed M)"

definition objects_ok :: "machine \<Rightarrow> bool" where
  "objects_ok M \<longleftrightarrow>
     (\<forall>m. mx_magic (mutexes (kern M) m) = MUTEX_MAGIC \<longleftrightarrow> active M (MutexWQ m)) \<and>
     (\<forall>m. active M (MutexWQ m) \<longrightarrow> owns M m = set_option (mx_holder (mutexes (kern M) m))) \<and>
     (\<forall>e. event_initialized e (kern M) \<longrightarrow> active M (EventWQ e)) \<and>
     (\<forall>e. ev_signaled (events (kern M) e) \<longrightarrow> wq_list (wait_queues (kern M) (EventWQ e)) = [])"

definition winv :: "machine \<Rightarrow> bool" where
  "winv M \<longleftrightarrow> join_ok (kern M) \<and> (\<forall>t. cont_ok (kern M) (conts M t) t) \<and> joins_ok M \<and> timed_ok M \<and> objects_ok M"

definition minv :: "machine \<Rightarrow> bool" where
  "minv M \<longleftrightarrow> sched_inv (kern M) \<and> winv M \<and> gates_ok M"

text \<open>Seen from a gate, a step of the machine is a sequence of steps of the specification.\<close>

definition sim :: "machine \<Rightarrow> machine \<Rightarrow> bool" where
  "sim M N \<longleftrightarrow> timed M \<subseteq> timed N \<and>
     (\<forall>w. is_gate w \<and> active M w \<and> active N w \<longrightarrow> (gate_step (w \<in> timed N))\<^sup>*\<^sup>* (abs_gate w M) (abs_gate w N))"

end
