(* ===== verification/Machine_Inv.thy ===== *)
theory Machine_Inv
  imports Machine
begin

text \<open>
  Every step of the machine that respects its contract runs to its end and keeps the invariant, and is
  a sequence of steps of the specification for every gate. The first section has what the parts of an
  operation do to the invariant: a reshuffle of the run queues, a thread leaving a wait queue, a thread
  entering one, a call that returns. The second composes them, operation by operation.
\<close>

section \<open>How the parts of a step act\<close>

lemma winvD:
  assumes "winv M"
  shows "join_ok (kern M)" "cont_ok (kern M) (conts M t) t" "joins_ok M" "timed_ok M" "objects_ok M"
  using assms by (simp_all add: winv_def)

lemma in_call_kern [simp]: "in_call (M\<lparr>kern := s\<rparr>) = in_call M"
  by (simp add: in_call_def fun_eq_iff)

lemma cont_okD:
  assumes "cont_ok s k t"
  shows "k \<noteq> Outside \<Longrightarrow> live s t" "k \<noteq> Outside \<Longrightarrow> t_state (threads s t) \<noteq> THREAD_DEATH"
    "k = Outside \<Longrightarrow> tm_node (timers s (StackTimer t)) = None"
    "t \<in> set (wq_list (wait_queues s w)) \<Longrightarrow> \<exists>timeout. blocked_at k = Some (w, timeout)"
    "blocked_at k = Some (w, timeout) \<Longrightarrow> wq_magic (wait_queues s w) = WAIT_QUEUE_MAGIC"
    "blocked_at k = Some (w, INFINITE_TIME) \<Longrightarrow> tm_node (timers s (StackTimer t)) = None"
    "blocked_at k = Some (w, timeout) \<Longrightarrow> timeout \<noteq> INFINITE_TIME \<Longrightarrow>
       tm_magic (timers s (StackTimer t)) = TIMER_MAGIC"
    "blocked_at k = Some (w, timeout) \<Longrightarrow> t \<notin> set (wq_list (wait_queues s w)) \<Longrightarrow>
       t_wait_queue_block_ret (threads s t) \<noteq> NO_ERROR \<Longrightarrow>
       t_wait_queue_block_ret (threads s t) = ERR_TIMED_OUT \<and> timeout \<noteq> INFINITE_TIME"
    "k = Asleep \<Longrightarrow> tm_node (timers s (StackTimer t)) \<noteq> None \<Longrightarrow>
        tm_callback (timers s (StackTimer t)) = Some (CB_thread_sleep_handler t)"
proof -
  assume t: "t \<in> set (wq_list (wait_queues s w))"
  show "\<exists>timeout. blocked_at k = Some (w, timeout)"
  proof (cases "blocked_at k")
    case None
    then show ?thesis using assms t by (simp add: cont_ok_def)
  next
    case (Some p)
    then show ?thesis using assms t by (cases p) (cases "fst p = w"; simp add: cont_ok_def)
  qed
qed (use assms in \<open>auto simp: cont_ok_def\<close>)

lemma waiting_in_call: "winv M \<Longrightarrow> t \<in> set (wq_list (wait_queues (kern M) w)) \<Longrightarrow> in_call M w t"
  unfolding in_call_def by (rule cont_okD(4) [OF winvD(2)])

lemma in_call_unique: "in_call M w t \<Longrightarrow> in_call M v t \<Longrightarrow> w = v"
  by (auto simp: in_call_def)

lemma same_waitsD:
  assumes "same_waits s s'"
  shows "wq_list (wait_queues s' w) = wq_list (wait_queues s w)" "wq_magic (wait_queues s' w) = wq_magic (wait_queues s w)"
    "thread_list s' = thread_list s" "kernel.more s' = kernel.more s" "live s' = live s"
    "t_wait_queue_block_ret (threads s' t) = t_wait_queue_block_ret (threads s t)"
    "t_flags (threads s' t) AND THREAD_FLAG_DETACHED = t_flags (threads s t) AND THREAD_FLAG_DETACHED"
    "t_state (threads s' t) = THREAD_DEATH \<longleftrightarrow> t_state (threads s t) = THREAD_DEATH"
    "tm_node (timers s (StackTimer t)) = None \<Longrightarrow> tm_node (timers s' (StackTimer t)) = None"
    "tm_magic (timers s' (StackTimer t)) = tm_magic (timers s (StackTimer t))"
    "tm_node (timers s' (StackTimer t)) \<noteq> None \<Longrightarrow> tm_callback (timers s' (StackTimer t)) = tm_callback (timers s (StackTimer t))"
  using assms by (auto simp: same_waits_def live_def)

text \<open>A change of the scheduler that leaves the waiting threads alone.\<close>

lemma cont_ok_same_waits:
  assumes "same_waits s s'" and "cont_ok s k t"
  shows "cont_ok s' k t"
proof -
  note sw = same_waitsD [OF assms(1)]
  have "k = Asleep \<Longrightarrow> tm_node (timers s' (StackTimer t)) \<noteq> None \<Longrightarrow>
      tm_callback (timers s' (StackTimer t)) = Some (CB_thread_sleep_handler t)"
    using sw(9) [of t] sw(11) [of t] assms(2) by (auto simp: cont_ok_def)
  moreover have "tm_node (timers s (StackTimer t)) = None \<Longrightarrow> tm_node (timers s' (StackTimer t)) = None"
    by (rule sw(9))
  ultimately show ?thesis
    using assms(2) unfolding cont_ok_def sw(1,2,5,6,8,10) by (auto split: option.splits if_splits)
qed

lemma abs_gate_same_waits:
  assumes "same_waits (kern M) s'"
  shows "abs_gate w (M\<lparr>kern := s'\<rparr>) = abs_gate w M"
proof -
  note sw = same_waitsD [OF assms]
  have "gate_value s' w = gate_value (kern M) w" by (cases w) (simp_all add: sync_more [OF sw(4)])
  moreover have "gate_tokens (M\<lparr>kern := s'\<rparr>) w = gate_tokens M w" by (cases w) simp_all
  ultimately show ?thesis by (simp add: abs_gate_def sw(1,6))
qed

lemma active_same_waits: "same_waits (kern M) s' \<Longrightarrow> active (M\<lparr>kern := s'\<rparr>) w = active M w"
  by (simp add: active_def same_waitsD(2))

lemma winv_same_waits:
  assumes "same_waits (kern M) s'" and "winv M"
  shows "winv (M\<lparr>kern := s'\<rparr>)"
proof -
  note sw = same_waitsD [OF assms(1)] and W = winvD [OF assms(2)]
  have "joins_ok (M\<lparr>kern := s'\<rparr>)" using W(3) by (simp add: joins_ok_def sw(1,5-8))
  moreover have "objects_ok (M\<lparr>kern := s'\<rparr>)"
    using W(5) by (simp add: objects_ok_def active_same_waits [OF assms(1)] sw(1) sync_more [OF sw(4)]
        event_initialized_def)
  ultimately show ?thesis
    using W(4) join_ok_same_waits [OF W(1) assms(1)] cont_ok_same_waits [OF assms(1) W(2)]
    by (simp add: winv_def timed_ok_def)
qed

text \<open>A thread leaves the wait queue, woken or timed out.\<close>

lemma cont_ok_wq_take:
  assumes "cont_ok s k x" and "cont_ok s k' t" and "t \<in> set (wq_list (wait_queues s w))"
    and "x = t \<Longrightarrow> k = k'" and "distinct (wq_list (wait_queues s w))"
    and "err = NO_ERROR \<or> err = ERR_TIMED_OUT \<and> tm_node (timers s (StackTimer t)) \<noteq> None"
  shows "cont_ok (wq_take w t err s) k x"
proof (cases "x = t")
  case False
  then show ?thesis using assms(1) by (auto simp: cont_ok_def split: option.splits)
next
  case True
  obtain timeout where k: "blocked_at k = Some (w, timeout)" using cont_okD(4) [OF assms(2,3)] assms(4) True by auto
  have "err = ERR_TIMED_OUT \<Longrightarrow> timeout \<noteq> INFINITE_TIME"
    using assms(1,6) k True by (auto simp: cont_ok_def)
  then show ?thesis using assms(1,5,6) k True by (auto simp: cont_ok_def)
qed

lemma sync_wq_take [simp]:
  "mutexes (wq_take w t err s) = mutexes s" "semaphores (wq_take w t err s) = semaphores s"
  "events (wq_take w t err s) = events s"
  using sync_more [where s = s and s' = "wq_take w t err s"] by simp_all

lemma join_ok_take:
  assumes "join_ok s" and "t_state (threads s t) = THREAD_BLOCKED"
  shows "join_ok (wq_take w t err s)"
proof -
  have "t_state (threads (wq_take w t err s) x) = THREAD_DEATH \<longleftrightarrow> t_state (threads s x) = THREAD_DEATH" for x
    using assms(2) by (cases "x = t") simp_all
  then show ?thesis using assms(1) by (auto simp: join_ok_def)
qed

definition wakes :: "sync \<Rightarrow> wqref \<Rightarrow> tid \<Rightarrow> status_t \<Rightarrow> bool" where
  "wakes s w t err \<longleftrightarrow>
     err = NO_ERROR \<and> (\<forall>x. w = RetcodeWQ x \<longrightarrow> t_state (threads s x) = THREAD_DEATH) \<or>
     err = ERR_TIMED_OUT \<and> tm_node (timers s (StackTimer t)) \<noteq> None"

lemma winv_wq_take:
  assumes W: "winv M" and t: "t \<in> set (wq_list (wait_queues (kern M) w))"
    and st: "t_state (threads (kern M) t) = THREAD_BLOCKED" and d: "distinct (wq_list (wait_queues (kern M) w))"
    and err: "wakes (kern M) w t err"
  shows "winv (M\<lparr>kern := wq_take w t err (kern M)\<rparr>)" (is "winv ?N")
proof -
  note I = winvD [OF W]
  let ?s = "wq_take w t err (kern M)"
  have dead: "t_state (threads ?s x) = THREAD_DEATH \<longleftrightarrow> t_state (threads (kern M) x) = THREAD_DEATH" for x
    using st by (cases "x = t") simp_all
  have mem: "t' \<in> set (wq_list (wait_queues ?s v)) \<longleftrightarrow> t' \<in> set (wq_list (wait_queues (kern M) v)) \<and> (v = w \<longrightarrow> t' \<noteq> t)" for t' v
    using d by (cases "v = w") auto
  have "cont_ok ?s (conts M x) x" for x
    by (rule cont_ok_wq_take [OF I(2) I(2) t _ d]) (use err in \<open>auto simp: wakes_def\<close>)
  moreover have "joins_ok ?N"
  proof -
    have "t_state (threads (kern M) x) = THREAD_DEATH"
      if "in_call M (RetcodeWQ x) t'" "t' \<notin> set (wq_list (wait_queues ?s (RetcodeWQ x)))"
        "t_wait_queue_block_ret (threads ?s t') = NO_ERROR" for x t'
    proof (cases "t' = t")
      case True
      then have "w = RetcodeWQ x" using in_call_unique [OF waiting_in_call [OF W t]] that(1) by simp
      then show ?thesis using err that(3) True by (simp add: wakes_def)
    next
      case False
      then show ?thesis using I(3) that unfolding joins_ok_def mem by auto
    qed
    then show ?thesis using I(3) by (auto simp: joins_ok_def dead)
  qed
  moreover have "objects_ok ?N"
    using I(5) t by (auto simp: objects_ok_def active_def event_initialized_def)
  ultimately show ?thesis
    using I(4) join_ok_take [OF I(1) st] by (simp add: winv_def timed_ok_def)
qed

lemma abs_gate_wq_take:
  fixes err :: status_t
  assumes W: "winv M" and t: "t \<in> set (wq_list (wait_queues (kern M) w))"
    and d: "distinct (wq_list (wait_queues (kern M) w))"
  defines "N \<equiv> M\<lparr>kern := wq_take w t err (kern M)\<rparr>"
  shows "abs_gate v N = (if v \<noteq> w then abs_gate v M else
           (abs_gate w M)\<lparr>g_waiting := remove1 t (g_waiting (abs_gate w M)),
              g_granted := (if err = NO_ERROR then insert t else id) (g_granted (abs_gate w M)),
              g_expired := (if err = NO_ERROR then id else insert t) (g_expired (abs_gate w M))\<rparr>)"
proof -
  have c: "in_call M w t" by (rule waiting_in_call [OF W t])
  have gv: "gate_value (kern N) v = gate_value (kern M) v" "gate_tokens N v = gate_tokens M v"
    by (cases v; simp add: N_def)+
  have r: "t_wait_queue_block_ret (threads (wq_take w t err (kern M)) x) =
      (if x = t then err else t_wait_queue_block_ret (threads (kern M) x))" for x
    by simp
  show ?thesis
  proof (cases "v = w")
    case False
    then have "\<not> in_call M v t" using in_call_unique [OF c] by blast
    then show ?thesis using False gv by (auto simp: abs_gate_def N_def Let_def r split: if_splits)
  next
    case True
    then show ?thesis using c t d gv by (auto simp: abs_gate_def N_def Let_def r split: if_splits)
  qed
qed

lemma active_wq_take [simp]: "active (M\<lparr>kern := wq_take w t err (kern M)\<rparr>) v = active M v"
  by (simp add: active_def)

text \<open>The current thread goes to sleep in a wait queue.\<close>

lemma block_as_simps [simp]:
  "kern (block_as t k M) = kern M" "conts (block_as t k M) = (conts M)(t := k)"
  "owns (block_as t k M) = owns M" "avail (block_as t k M) = avail M"
  "active (block_as t k M) = active M"
  by (simp_all add: block_as_def active_def fun_eq_iff)

lemma block_as_timed: "timed M \<subseteq> timed (block_as t k M)"
  by (auto simp: block_as_def split: cont.splits)

lemma block_as_timed_blocked [simp]:
  "blocked_at k = Some (w, timeout) \<Longrightarrow> timeout \<noteq> INFINITE_TIME \<Longrightarrow> w \<in> timed (block_as t k M)"
  by (cases k) (auto simp: block_as_def)

lemma blocked_onD:
  assumes "blocked_on w t timeout s s1"
  shows "x \<noteq> t \<Longrightarrow> threads s1 x = threads s x" "t_wait_queue_block_ret (threads s1 t) = NO_ERROR"
    "t_flags (threads s1 t) = t_flags (threads s t)" "t_state (threads s1 t) = THREAD_BLOCKED"
    "wq_list (wait_queues s1 v) = (if v = w then wq_list (wait_queues s w) @ [t] else wq_list (wait_queues s v))"
    "wq_magic (wait_queues s1 v) = wq_magic (wait_queues s v)" "live s1 = live s"
    "kernel.more s1 = kernel.more s" "x \<noteq> t \<Longrightarrow> timers s1 (StackTimer x) = timers s (StackTimer x)"
    "timeout = INFINITE_TIME \<Longrightarrow> timers s1 (StackTimer t) = timers s (StackTimer t)"
    "timeout \<noteq> INFINITE_TIME \<Longrightarrow> tm_magic (timers s1 (StackTimer t)) = TIMER_MAGIC"
proof -
  have e: "timer_sys.more s1 = timer_sys.more (wq_put w t s)" using assms by (simp add: blocked_on_def)
  note k = kernel_more [OF e]
  show "x \<noteq> t \<Longrightarrow> threads s1 x = threads s x" "t_wait_queue_block_ret (threads s1 t) = NO_ERROR"
    "t_flags (threads s1 t) = t_flags (threads s t)" "t_state (threads s1 t) = THREAD_BLOCKED"
    "wq_list (wait_queues s1 v) = (if v = w then wq_list (wait_queues s w) @ [t] else wq_list (wait_queues s v))"
    "wq_magic (wait_queues s1 v) = wq_magic (wait_queues s v)" "live s1 = live s"
    "kernel.more s1 = kernel.more s"
    using k by (simp_all add: wq_put_def live_def fun_eq_iff)
qed (use assms in \<open>simp_all add: blocked_on_def\<close>)

definition may_block :: "machine \<Rightarrow> wqref \<Rightarrow> tid \<Rightarrow> bool" where
  "may_block M w t \<longleftrightarrow> conts M t = Outside \<and> live (kern M) t \<and> t_state (threads (kern M) t) \<noteq> THREAD_DEATH \<and>
     active M w \<and>
     (\<forall>x. w = RetcodeWQ x \<longrightarrow> live (kern M) x \<and> t_state (threads (kern M) x) \<noteq> THREAD_DEATH \<and>
        t_flags (threads (kern M) x) AND THREAD_FLAG_DETACHED = 0 \<and> unused M w) \<and>
     (\<forall>e. w = EventWQ e \<longrightarrow> \<not> ev_signaled (events (kern M) e))"

lemma in_call_block:
  assumes "conts M t = Outside" and "blocked_at k = Some (w, timeout)"
  shows "in_call (block_as t k (M\<lparr>kern := s\<rparr>)) v x \<longleftrightarrow> in_call M v x \<or> x = t \<and> v = w"
  using assms by (auto simp: in_call_def)

lemma winv_block:
  assumes W: "winv M" and b: "blocked_on w t timeout (kern M) s1" and k: "blocked_at k = Some (w, timeout)"
    and m: "may_block M w t"
  shows "winv (block_as t k (M\<lparr>kern := s1\<rparr>))" (is "winv ?N")
proof -
  note I = winvD [OF W] and D = blocked_onD [OF b] and S = sync_more [OF blocked_onD(8) [OF b]]
  have out: "conts M t = Outside" and lv: "live (kern M) t" and ac: "wq_magic (wait_queues (kern M) w) = WAIT_QUEUE_MAGIC"
    using m by (auto simp: may_block_def active_def)
  note ic = in_call_block [OF out k]
  have nd: "tm_node (timers (kern M) (StackTimer t)) = None" "\<And>v. t \<notin> set (wq_list (wait_queues (kern M) v))"
    using I(2) [of t] out by (auto simp: cont_ok_def)
  have kn: "k \<noteq> Outside" "k \<noteq> Asleep" using k by auto
  have fl: "t_flags (threads s1 x) = t_flags (threads (kern M) x)" for x using D(1) [of x] D(3) by (cases "x = t") simp_all
  have de: "t_state (threads s1 x) = THREAD_DEATH \<longleftrightarrow> t_state (threads (kern M) x) = THREAD_DEATH" for x
    using D(1) [of x] D(4) m by (cases "x = t") (simp_all add: may_block_def)
  have "cont_ok s1 (conts ?N x) x" for x
  proof (cases "x = t")
    case True
    then show ?thesis using k lv kn ac nd D(2,4-7,10,11) by (auto simp: cont_ok_def)
  next
    case False
    then show ?thesis using I(2) [of x] by (auto simp: cont_ok_def D(1,5-7,9) split: option.splits)
  qed
  moreover have "joins_ok ?N"
  proof -
    have "t_state (threads s1 x) = THREAD_DEATH"
      if "in_call ?N (RetcodeWQ x) t'" "t' \<notin> set (wq_list (wait_queues s1 (RetcodeWQ x)))"
        "t_wait_queue_block_ret (threads s1 t') = NO_ERROR" for x t'
    proof -
      have "t' \<noteq> t" using that k out by (auto simp: D(5) in_call_def)
      then have "in_call M (RetcodeWQ x) t'" "t' \<notin> set (wq_list (wait_queues (kern M) (RetcodeWQ x)))"
          "t_wait_queue_block_ret (threads (kern M) t') = NO_ERROR"
        using that D(1) by (auto simp: ic D(5) split: if_splits)
      then show ?thesis using I(3) by (auto simp: joins_ok_def de)
    qed
    then show ?thesis using I(3) m by (auto simp: joins_ok_def fl D(7) ic may_block_def unused_def)
  qed
  moreover have "objects_ok ?N"
    using I(5) m by (auto simp: objects_ok_def active_def D(5,6) S event_initialized_def may_block_def)
  moreover have "timed_ok ?N"
  proof -
    have "x \<noteq> t \<Longrightarrow> blocked_at (conts M x) = Some (v, to) \<Longrightarrow> to \<noteq> INFINITE_TIME \<Longrightarrow> v \<in> timed ?N" for x v to
      using I(4) block_as_timed [of "M\<lparr>kern := s1\<rparr>" t k] by (auto simp: timed_ok_def)
    then show ?thesis using block_as_timed_blocked [OF k] k by (auto simp: timed_ok_def)
  qed
  moreover have "join_ok s1"
    using I(1) m by (auto simp: join_ok_def D(5-7) de fl may_block_def)
  ultimately show ?thesis by (simp add: winv_def)
qed

lemma gate_tokens_cong:
  "owns N = owns M \<Longrightarrow> avail N = avail M \<Longrightarrow> gate_tokens N w = gate_tokens M w"
  by (cases w) simp_all

lemma gate_value_cong:
  "mutexes s' = mutexes s \<Longrightarrow> semaphores s' = semaphores s \<Longrightarrow> gate_value s' w = gate_value s w"
  by (cases w) simp_all

lemma abs_gate_block:
  assumes W: "winv M" and b: "blocked_on w t timeout (kern M) s1" and k: "blocked_at k = Some (w, timeout)"
    and out: "conts M t = Outside"
  shows "abs_gate v (block_as t k (M\<lparr>kern := s1\<rparr>)) =
           (if v = w then (abs_gate w M)\<lparr>g_waiting := g_waiting (abs_gate w M) @ [t]\<rparr> else abs_gate v M)"
    and "t \<notin> set (g_waiting (abs_gate w M)) \<union> g_granted (abs_gate w M) \<union> g_expired (abs_gate w M)"
proof -
  note D = blocked_onD [OF b] and S = sync_more [OF blocked_onD(8) [OF b]] and ic = in_call_block [OF out k]
  have no: "\<not> in_call M v t" "t \<notin> set (wq_list (wait_queues (kern M) v))" for v
    using cont_okD(4) [OF winvD(2) [OF W], of t v] out by (auto simp: in_call_def)
  have gv: "gate_value s1 v = gate_value (kern M) v" by (rule gate_value_cong [OF S(1,2)])
  have gt: "gate_tokens (block_as t k (M\<lparr>kern := s1\<rparr>)) v = gate_tokens M v"
    by (rule gate_tokens_cong) simp_all
  have r: "in_call M v x \<Longrightarrow> t_wait_queue_block_ret (threads s1 x) = t_wait_queue_block_ret (threads (kern M) x)" for x
    using D(1) [of x] no(1) [of v] by (cases "x = t") auto
  show "abs_gate v (block_as t k (M\<lparr>kern := s1\<rparr>)) =
           (if v = w then (abs_gate w M)\<lparr>g_waiting := g_waiting (abs_gate w M) @ [t]\<rparr> else abs_gate v M)"
    using no r unfolding abs_gate_def block_as_simps ic gt Let_def by (auto simp: D(5) gv)
  show "t \<notin> set (g_waiting (abs_gate w M)) \<union> g_granted (abs_gate w M) \<union> g_expired (abs_gate w M)"
    using no by (simp add: abs_gate_def Let_def)
qed

text \<open>A blocking call comes back.\<close>

lemma winv_return:
  assumes W: "winv M" and inv: "sched_inv (kern M)" and cur: "current_thread (kern M) c = Some t"
    and m: "timer_sys.more s1 = timer_sys.more (kern M)"
    and tm: "\<forall>x. x \<noteq> StackTimer t \<longrightarrow> timers s1 x = timers (kern M) x"
    and nd: "tm_node (timers s1 (StackTimer t)) = None"
  shows "winv (M\<lparr>kern := s1, conts := (conts M)(t := Outside)\<rparr>)" (is "winv ?N")
    and "abs_gate v (M\<lparr>kern := s1, conts := (conts M)(t := Outside)\<rparr>) =
           (abs_gate v M)\<lparr>g_granted := g_granted (abs_gate v M) - {t}, g_expired := g_expired (abs_gate v M) - {t}\<rparr>"
    and "active (M\<lparr>kern := s1, conts := (conts M)(t := Outside)\<rparr>) = active M"
proof -
  note I = winvD [OF W] and K = kernel_more [OF m] and S = sync_more [OF kernel_more(13) [OF m]]
  have lv: "live s1 = live (kern M)" by (rule live_cong [OF K(2)])
  have ic: "in_call ?N v x \<longleftrightarrow> in_call M v x \<and> x \<noteq> t" for v x by (auto simp: in_call_def)
  have no: "t \<notin> set (wq_list (wait_queues (kern M) v))" for v
    using currentD(3) [OF inv cur] waitingD(2) [OF inv, of t v] by auto
  show ac: "active ?N = active M" by (simp add: active_def K fun_eq_iff)
  have "cont_ok s1 (conts ?N x) x" for x
  proof (cases "x = t")
    case True
    then show ?thesis using no nd by (simp add: cont_ok_def K)
  next
    case False
    then have eq: "timers s1 (StackTimer x) = timers (kern M) (StackTimer x)" using tm by simp
    have "cont_ok s1 (conts M x) x" using I(2) [of x] unfolding cont_ok_def K lv eq .
    then show ?thesis using False by simp
  qed
  moreover have "joins_ok ?N" using I(3) by (auto simp: joins_ok_def ic K lv)
  moreover have "objects_ok ?N" using I(5) by (simp add: objects_ok_def ac K S event_initialized_def)
  moreover have "timed_ok ?N" using I(4) by (auto simp: timed_ok_def)
  moreover have "join_ok s1" using I(1) by (simp add: join_ok_def K lv)
  ultimately show "winv ?N" by (simp add: winv_def)
  have "gate_value s1 v = gate_value (kern M) v" by (rule gate_value_cong [OF S(1,2)])
  moreover have "gate_tokens ?N v = gate_tokens M v" by (rule gate_tokens_cong) simp_all
  ultimately show "abs_gate v ?N = (abs_gate v M)\<lparr>g_granted := g_granted (abs_gate v M) - {t},
      g_expired := g_expired (abs_gate v M) - {t}\<rparr>"
    by (auto simp: abs_gate_def Let_def ic K)
qed

section \<open>Simulation\<close>

lemma sim_refl [simp]: "sim M M"
  by (simp add: sim_def)

lemma gate_steps_mono:
  assumes "(gate_step b)\<^sup>*\<^sup>* g g'" and "b \<longrightarrow> b'"
  shows "(gate_step b')\<^sup>*\<^sup>* g g'"
proof -
  have "gate_step b x y \<Longrightarrow> gate_step b' x y" for x y
    using assms(2) gate_step_mono by (cases b; cases b') auto
  then show ?thesis using assms(1) by (metis mono_rtranclp)
qed

text \<open>
  The invariant of a gate follows from the simulation: it was active before and moved by steps of the
  specification, or it has just been initialised.
\<close>

lemma gates_ok_sim:
  assumes "gates_ok M" and "sim M N"
    and "\<And>w. is_gate w \<Longrightarrow> active N w \<Longrightarrow> \<not> active M w \<Longrightarrow> \<exists>n\<ge>0. abs_gate w N = fresh_gate n"
  shows "gates_ok N"
  unfolding gates_ok_def
proof (intro allI impI)
  fix w assume w: "is_gate w \<and> active N w"
  show "gate_inv (abs_gate w N) \<and> (w \<notin> timed N \<longrightarrow> gate_calm (abs_gate w N))"
  proof (cases "active M w")
    case False
    then show ?thesis using assms(3) w fresh_gate_ok by metis
  next
    case True
    then have g: "gate_inv (abs_gate w M)" "w \<notin> timed N \<Longrightarrow> gate_calm (abs_gate w M)"
      using assms(1,2) w by (auto simp: gates_ok_def sim_def)
    have st: "(gate_step (w \<in> timed N))\<^sup>*\<^sup>* (abs_gate w M) (abs_gate w N)"
      using assms(2) w True by (simp add: sim_def)
    have "w \<notin> timed N \<Longrightarrow> gate_calm (abs_gate w N)"
      using gate_steps_calm [OF _ g(1) g(2)] st by simp
    then show ?thesis using gate_steps_inv [OF st g(1)] by blast
  qed
qed

end
