(* ===== verification/Machine_Ops.thy ===== *)
theory Machine_Ops
  imports Machine_Inv
begin

text \<open>
  Operation by operation: under its contract a call of the machine runs to its end, keeps the
  invariant, and is a sequence of gate steps for every gate.
\<close>

definition step_ok :: "machine \<Rightarrow> machine option \<Rightarrow> bool" where
  "step_ok M r \<longleftrightarrow> (\<exists>N. r = Some N \<and> minv N \<and> sim M N)"

lemma minvD:
  assumes "minv M"
  shows "sched_inv (kern M)" "winv M" "gates_ok M"
  using assms by (simp_all add: minv_def)

lemma step_okI:
  assumes "minv M" and "sched_inv (kern N)" and "winv N" and "sim M N"
    and "\<And>w. is_gate w \<Longrightarrow> active N w \<Longrightarrow> \<not> active M w \<Longrightarrow> \<exists>n\<ge>0. abs_gate w N = fresh_gate n"
  shows "step_ok M (Some N)"
  using assms gates_ok_sim [OF minvD(3) [OF assms(1)] assms(4,5)] by (simp add: step_ok_def minv_def)

lemma simI:
  assumes "timed M \<subseteq> timed N" and "\<And>w. is_gate w \<Longrightarrow> active M w \<Longrightarrow> active N w \<Longrightarrow>
    abs_gate w N = abs_gate w M \<or> gate_step (w \<in> timed N) (abs_gate w M) (abs_gate w N)"
  shows "sim M N"
  unfolding sim_def using assms by (metis r_into_rtranclp rtranclp.rtrancl_refl)

section \<open>Scheduling\<close>

lemma step_quiet:
  assumes "minv M" and "sched_inv s'" and "same_waits (kern M) s'"
  shows "step_ok M (Some (M\<lparr>kern := s'\<rparr>))"
proof (rule step_okI [OF assms(1)])
  show "sim M (M\<lparr>kern := s'\<rparr>)" by (rule simI) (simp_all add: abs_gate_same_waits [OF assms(3)])
qed (use assms in \<open>simp_all add: winv_same_waits minvD active_same_waits\<close>)

lemma step_shuffled:
  assumes "minv M" and "\<exists>s'. r = Some s' \<and> sched_inv s' \<and> shuffled c (kern M) s'"
  shows "step_ok M (with_kern r M)"
proof -
  obtain s' where s': "r = Some s'" "sched_inv s'" "shuffled c (kern M) s'" using assms(2) by blast
  show ?thesis using step_quiet [OF assms(1) s'(2) shuffled_same_waits [OF s'(3)]] s'(1) by (simp add: with_kern_def)
qed

lemma step_yield: "minv M \<Longrightarrow> contract Yield c M \<Longrightarrow> step_ok M (exec Yield c M)"
  by (auto simp: thread_context_def intro!: step_shuffled dest: thread_yield_ok [OF minvD(1)])

lemma step_preempt: "minv M \<Longrightarrow> contract Preempt c M \<Longrightarrow> step_ok M (exec Preempt c M)"
  by (auto intro!: step_shuffled dest: thread_preempt_ok [OF minvD(1)])

lemma step_set_priority: "minv M \<Longrightarrow> contract (SetPriority p) c M \<Longrightarrow> step_ok M (exec (SetPriority p) c M)"
  by (auto simp: can_block_def intro!: step_shuffled dest: thread_set_priority_ok [OF minvD(1)])

lemma step_set_real_time:
  assumes M: "minv M" and k: "contract (SetRealTime t) c M"
  shows "step_ok M (exec (SetRealTime t) c M)"
proof -
  obtain s' where "thread_set_real_time (Some t) c (kern M) = Some (NO_ERROR, s')" "sched_inv s'"
      "same_waits (kern M) s'"
    using thread_set_real_time_ok [OF minvD(1) [OF M], of t c] k by auto
  then show ?thesis using step_quiet [OF M] by (simp add: with_kern_def)
qed

lemma step_clock: "minv M \<Longrightarrow> step_ok M (exec (Clock now) c M)"
proof -
  assume M: "minv M"
  have "sched_inv ((kern M)\<lparr>current_time := now\<rparr>) = sched_inv (kern M)" by (rule kinv_cong) simp_all
  then show ?thesis using step_quiet [OF M, of "(kern M)\<lparr>current_time := now\<rparr>"] minvD(1) [OF M]
    by (simp add: same_waits_def)
qed

lemma step_resume:
  assumes M: "minv M" and k: "contract (Resume t) c M"
  shows "step_ok M (exec (Resume t) c M)"
proof -
  let ?s1 = "if t_state (threads (kern M) t) = THREAD_SUSPENDED
     then upd_thread t (\<lambda>th. th\<lparr>t_state := THREAD_READY\<rparr>) (kern M) else kern M"
  obtain ct where cur: "current_thread (kern M) c = Some ct" using k by (auto simp: thread_context_def)
  obtain s' where s': "thread_resume t False c (kern M) = Some (NO_ERROR, s')" "sched_inv s'" "shuffled c ?s1 s'"
    using thread_resume_ok [OF minvD(1) [OF M] cur] k by fastforce
  have "same_waits (kern M) ?s1" by (simp add: same_waits_def)
  then have "same_waits (kern M) s'" using same_waits_trans [OF _ shuffled_same_waits [OF s'(3)]] by blast
  then show ?thesis using step_quiet [OF M s'(2)] s'(1) by (simp add: with_kern_def)
qed

lemma step_sleep:
  assumes M: "minv M" and k: "contract (Sleep delay) c M"
  shows "step_ok M (exec (Sleep delay) c M)"
proof -
  note W = minvD(2) [OF M] and inv = minvD(1) [OF M]
  obtain t where cur: "current_thread (kern M) c = Some t" and out: "conts M t = Outside"
      and idle: "\<not> thread_is_idle (threads (kern M) t)"
    using k by (auto simp: can_block_def)
  have nd: "tm_node (timers (kern M) (StackTimer t)) = None" by (rule cont_okD(3) [OF winvD(2) [OF W] out])
  obtain s1 s' where s': "thread_sleep delay c (kern M) = Some s'" "sched_inv s'" "asleep t (kern M) s1"
      "shuffled c s1 s'"
    using thread_sleep_ok [OF inv cur idle nd] by blast
  let ?s0 = "upd_thread t (\<lambda>th. th\<lparr>t_state := THREAD_SLEEPING\<rparr>) (kern M)"
  have m: "timer_sys.more s1 = timer_sys.more ?s0" and tm: "\<And>x. x \<noteq> t \<Longrightarrow> timers s1 (StackTimer x) = timers (kern M) (StackTimer x)"
    using s'(3) by (simp_all add: asleep_def)
  note K = kernel_more [OF m] and D = shuffledD [OF s'(4)]
  have "kernel.more s1 = kernel.more (kern M)" using K(13) by simp
  note S = sync_more [OF this]
  have wq: "wait_queues s1 = wait_queues (kern M)" using K(6) by simp
  have lv: "live s1 = live (kern M)" using K(2) by (simp add: live_def fun_eq_iff)
  have st: "t_state (threads s' t) = THREAD_SLEEPING"
    using s'(4) K(1) by (auto simp: shuffled_def sched_same_def elim!: allE [of _ t])
  have cur': "live (kern M) t" using currentD(3) [OF inv cur] by simp
  let ?N = "block_as t Asleep (M\<lparr>kern := s1\<rparr>)"
  have no: "t \<notin> set (wq_list (wait_queues (kern M) v))" for v
    using cont_okD(4) [OF winvD(2) [OF W], of t v] out by auto
  have "tm_node (timers s' (StackTimer t)) \<noteq> None" by (rule stackD(2) [OF s'(2) _ st]) (simp add: D(3) lv cur')
  from stackD(1) [OF s'(2) this]
  have cb: "tm_callback (timers s1 (StackTimer t)) = Some (CB_thread_sleep_handler t)"
    using st D(5) [of t] by simp
  have ic: "in_call ?N = in_call M" using out by (auto simp: in_call_def fun_eq_iff)
  have th: "t_wait_queue_block_ret (threads s1 x) = t_wait_queue_block_ret (threads (kern M) x)"
      "t_flags (threads s1 x) = t_flags (threads (kern M) x)"
      "t_state (threads s1 x) = THREAD_DEATH \<longleftrightarrow> t_state (threads (kern M) x) = THREAD_DEATH" for x
    using K(1) currentD(3) [OF inv cur] by (cases "x = t"; simp)+
  have co: "cont_ok s1 (conts ?N x) x" for x
  proof (cases "x = t")
    case True
    then show ?thesis using no cb cur' wq K(1) by (simp add: cont_ok_def lv)
  next
    case False
    have "cont_ok s1 (conts M x) x"
      using winvD(2) [OF W, of x] unfolding cont_ok_def wq lv th tm [OF False] .
    then show ?thesis using False by simp
  qed
  have "timed_ok ?N" using winvD(4) [OF W] out by (auto simp: timed_ok_def block_as_def)
  moreover have "joins_ok ?N" using winvD(3) [OF W] by (simp add: joins_ok_def ic wq lv th)
  moreover have "objects_ok ?N"
    using winvD(5) [OF W] by (simp add: objects_ok_def wq S event_initialized_def active_def)
  moreover have "join_ok s1" using winvD(1) [OF W] by (simp add: join_ok_def wq lv th)
  ultimately have WN: "winv ?N" using co by (simp add: winv_def)
  have g: "abs_gate v ?N = abs_gate v M" for v
    using gate_value_cong [OF S(1,2)] gate_tokens_cong [of ?N M]
    by (simp add: abs_gate_def ic wq th)
  have sw: "same_waits (kern ?N) s'" using shuffled_same_waits [OF s'(4)] by simp
  have "block_as t Asleep (M\<lparr>kern := s'\<rparr>) = ?N\<lparr>kern := s'\<rparr>" by (simp add: block_as_def)
  moreover have "step_ok M (Some (?N\<lparr>kern := s'\<rparr>))"
  proof (rule step_okI [OF M])
    show "winv (?N\<lparr>kern := s'\<rparr>)" by (rule winv_same_waits [OF sw WN])
    show "sim M (?N\<lparr>kern := s'\<rparr>)"
    proof (rule simI)
      show "timed M \<subseteq> timed (?N\<lparr>kern := s'\<rparr>)" by (simp add: block_as_def)
    qed (simp add: abs_gate_same_waits [OF sw] g)
    show "\<And>w. active (?N\<lparr>kern := s'\<rparr>) w \<Longrightarrow> \<not> active M w \<Longrightarrow> \<exists>n\<ge>0. abs_gate w (?N\<lparr>kern := s'\<rparr>) = fresh_gate n"
      using active_same_waits [OF sw] wq by (simp add: active_def)
  qed (simp add: s'(2))
  ultimately show ?thesis using cur s'(1) by simp
qed

section \<open>The timer interrupt\<close>

lemma winv_timeouts:
  assumes "timeouts (kern M) s'" and "winv M"
  shows "winv (M\<lparr>kern := s'\<rparr>) \<and> active (M\<lparr>kern := s'\<rparr>) = active M \<and>
    (\<forall>w. is_gate w \<longrightarrow> (gate_step (w \<in> timed M))\<^sup>*\<^sup>* (abs_gate w M) (abs_gate w (M\<lparr>kern := s'\<rparr>)))"
  using assms
proof (induction rule: timeouts.induct)
  case none
  then show ?case by simp
next
  case (same s s')
  let ?K = "M\<lparr>kern := s\<rparr>"
  have sw: "same_waits (kern ?K) s'" using same by simp
  show ?case
    using winv_same_waits [OF sw] active_same_waits [OF sw] abs_gate_same_waits [OF sw] same
    by (simp add: fun_eq_iff)
next
  case (expire s t w s')
  let ?K = "M\<lparr>kern := s\<rparr>" and ?s2 = "wq_take w t ERR_TIMED_OUT s"
  have IH: "winv ?K" "active ?K = active M"
      "\<And>w. is_gate w \<Longrightarrow> (gate_step (w \<in> timed M))\<^sup>*\<^sup>* (abs_gate w M) (abs_gate w ?K)"
    using expire by simp_all
  have t: "t \<in> set (wq_list (wait_queues (kern ?K) w))" and st: "t_state (threads (kern ?K) t) = THREAD_BLOCKED"
    and d: "distinct (wq_list (wait_queues (kern ?K) w))"
    using expire.hyps waitingD(2) [OF expire.hyps(2,3)] kinvD(1) [OF expire.hyps(2)] by (simp_all add: queues_ok_def)
  have W2: "winv (?K\<lparr>kern := ?s2\<rparr>)"
    using winv_wq_take [OF IH(1) t st d, of ERR_TIMED_OUT] expire by (simp add: wakes_def)
  have g2: "abs_gate v (?K\<lparr>kern := ?s2\<rparr>) = (if v \<noteq> w then abs_gate v ?K else
           (abs_gate w ?K)\<lparr>g_waiting := remove1 t (g_waiting (abs_gate w ?K)),
              g_expired := insert t (g_expired (abs_gate w ?K))\<rparr>)" for v
    using abs_gate_wq_take [OF IH(1) t d, of v ERR_TIMED_OUT] by simp
  obtain timeout where b: "blocked_at (conts M t) = Some (w, timeout)"
    using cont_okD(4) [OF winvD(2) [OF IH(1)] t] by auto
  have "timeout \<noteq> INFINITE_TIME"
    using cont_okD(6) [OF winvD(2) [OF IH(1)], of t w] b expire by auto
  then have tw: "w \<in> timed M" using winvD(4) [OF expire.prems] b by (auto simp: timed_ok_def)
  have "t \<in> set (g_waiting (abs_gate w ?K))" using t by (simp add: abs_gate_def Let_def)
  then have "gate_step True (abs_gate w ?K) (abs_gate w (?K\<lparr>kern := ?s2\<rparr>))"
    unfolding g2 by (simp add: gate_step.expire)
  then have "(gate_step (v \<in> timed M))\<^sup>*\<^sup>* (abs_gate v M) (abs_gate v (?K\<lparr>kern := ?s2\<rparr>))" if "is_gate v" for v
    using IH(3) [OF that] tw g2 by (cases "v = w") (auto intro: rtranclp.rtrancl_into_rtrancl)
  moreover have sw: "same_waits (kern (?K\<lparr>kern := ?s2\<rparr>)) s'" using expire by simp
  moreover have "active (?K\<lparr>kern := ?s2\<rparr>) = active M" using active_wq_take [where M = ?K] IH(2) by (simp add: fun_eq_iff)
  ultimately show ?case
    using winv_same_waits [OF sw W2] active_same_waits [OF sw] abs_gate_same_waits [OF sw]
    by (simp add: fun_eq_iff)
qed

lemma step_tick:
  assumes M: "minv M" and k: "contract (Tick now) c M"
  shows "step_ok M (exec (Tick now) c M)"
proof -
  obtain base where w: "tick_window base now c (kern M)" and cur: "current_thread (kern M) c \<noteq> None"
    using k by auto
  note inv = minvD(1) [OF M]
  have "c = c \<and> tick_inv (kern M) c (kern M)" using inv cur by (simp add: tick_inv_def timeouts.none)
  from ktimer.tick_ok [OF this kinvD(8) [OF inv] w]
  obtain r s' where s': "timer_tick (fire_callback c) c now (kern M) = Some (r, s')" "tick_inv (kern M) c s'"
    by blast
  then have to: "timeouts (kern M) s'" and inv': "sched_inv s'" by (simp_all add: tick_inv_def)
  note W = winv_timeouts [OF to minvD(2) [OF M]]
  have "step_ok M (Some (M\<lparr>kern := s'\<rparr>))"
    by (rule step_okI [OF M]) (use W inv' in \<open>simp_all add: sim_def\<close>)
  then show ?thesis using s'(1) by (simp add: with_kern_def)
qed

section \<open>Creating and ending threads\<close>

text \<open>A thread appears, or its memory is prepared for it in vain.\<close>

lemma winv_new_thread:
  assumes W: "winv M" and f': "\<not> live (kern M) t" "wq_list (wait_queues (kern M) (RetcodeWQ t)) = []"
    and th: "\<And>x. x \<noteq> t \<Longrightarrow> threads s' x = threads (kern M) x"
    and wq: "wait_queues s' = (wait_queues (kern M))(RetcodeWQ t := WAIT_QUEUE_INITIAL_VALUE)"
    and tl: "\<And>x. live s' x \<longleftrightarrow> live (kern M) x \<or> add \<and> x = t"
    and tm: "timers s' = timers (kern M)" and mo: "kernel.more s' = kernel.more (kern M)"
  shows "winv (M\<lparr>kern := s'\<rparr>)" "\<And>w. is_gate w \<Longrightarrow> abs_gate w (M\<lparr>kern := s'\<rparr>) = abs_gate w M"
    "\<And>w. is_gate w \<Longrightarrow> active (M\<lparr>kern := s'\<rparr>) w = active M w"
proof -
  note I = winvD [OF W] and S = sync_more [OF mo]
  have out: "conts M t = Outside" using cont_okD(1) [OF I(2), of t] f' by blast
  have wl: "wq_list (wait_queues s' v) = wq_list (wait_queues (kern M) v)" for v
    using f'(2) by (simp add: wq WAIT_QUEUE_INITIAL_VALUE_def)
  have wm: "wq_magic (wait_queues (kern M) v) = WAIT_QUEUE_MAGIC \<Longrightarrow> wq_magic (wait_queues s' v) = WAIT_QUEUE_MAGIC"
      "v \<noteq> RetcodeWQ t \<Longrightarrow> wq_magic (wait_queues s' v) = wq_magic (wait_queues (kern M) v)" for v
    by (simp_all add: wq WAIT_QUEUE_INITIAL_VALUE_def)
  have nt: "\<not> in_call M v t" for v using out by (simp add: in_call_def)
  have nj: "in_call M (RetcodeWQ x) y \<Longrightarrow> x \<noteq> t" for x y using I(3) f'(1) by (auto simp: joins_ok_def)
  have "cont_ok s' (conts M x) x" for x
  proof (cases "x = t")
    case True
    then show ?thesis using I(2) [of t] out by (simp add: cont_ok_def wl tm)
  next
    case False
    have "(case blocked_at (conts M x) of
        None \<Rightarrow> True | Some (w, timeout) \<Rightarrow> wq_magic (wait_queues s' w) = WAIT_QUEUE_MAGIC)"
      using cont_okD(5) [OF I(2), of x] wm(1) by (auto split: option.splits)
    then show ?thesis using I(2) [of x] False
      unfolding cont_ok_def wl tm tl th [OF False] by (auto split: option.splits if_splits)
  qed
  moreover have "joins_ok (M\<lparr>kern := s'\<rparr>)"
    using I(3) nj nt th unfolding joins_ok_def in_call_kern by (simp add: wl tl) metis
  moreover have "objects_ok (M\<lparr>kern := s'\<rparr>)"
    using I(5) by (simp add: objects_ok_def active_def wm(2) wl S event_initialized_def)
  moreover have "join_ok s'"
  proof -
    have "live s' x \<Longrightarrow> wq_magic (wait_queues s' (RetcodeWQ x)) = WAIT_QUEUE_MAGIC" for x
      using I(1) by (cases "x = t") (auto simp: join_ok_def tl wq WAIT_QUEUE_INITIAL_VALUE_def)
    moreover have "wq_list (wait_queues s' (RetcodeWQ x)) = []"
      if "\<not> live s' x \<or> t_state (threads s' x) = THREAD_DEATH \<or> t_flags (threads s' x) AND THREAD_FLAG_DETACHED \<noteq> 0" for x
      using I(1) that f'(2) th by (cases "x = t") (auto simp: join_ok_def tl wl)
    ultimately show ?thesis by (simp add: join_ok_def)
  qed
  ultimately show "winv (M\<lparr>kern := s'\<rparr>)" using I(4) by (simp add: winv_def timed_ok_def)
  fix w assume g: "is_gate w"
  have "in_call M w x \<Longrightarrow> threads s' x = threads (kern M) x" for x using nt [of w] th by (cases "x = t") auto
  then show "abs_gate w (M\<lparr>kern := s'\<rparr>) = abs_gate w M"
    using gate_value_cong [OF S(1,2), of w] gate_tokens_cong [of "M\<lparr>kern := s'\<rparr>" M w]
    by (auto simp: abs_gate_def wl Let_def)
  show "active (M\<lparr>kern := s'\<rparr>) w = active M w" using g wm(2) by (cases w) (simp_all add: active_def)
qed

lemma step_new_thread:
  assumes M: "minv M" and inv: "sched_inv s'"
    and f: "\<not> live (kern M) t" "wq_list (wait_queues (kern M) (RetcodeWQ t)) = []"
    and th: "\<And>x. x \<noteq> t \<Longrightarrow> threads s' x = threads (kern M) x"
    and wq: "wait_queues s' = (wait_queues (kern M))(RetcodeWQ t := WAIT_QUEUE_INITIAL_VALUE)"
    and tl: "\<And>x. live s' x \<longleftrightarrow> live (kern M) x \<or> add \<and> x = t"
    and tm: "timers s' = timers (kern M)" and mo: "kernel.more s' = kernel.more (kern M)"
  shows "step_ok M (Some (M\<lparr>kern := s'\<rparr>))"
proof -
  note n = winv_new_thread [OF minvD(2) [OF M] f th wq tl tm mo]
  show ?thesis
    by (rule step_okI [OF M]) (use n inv in \<open>auto intro: simI\<close>)
qed

lemma step_create:
  assumes M: "minv M" and k: "contract (Create name entry arg priority stack_size struct stack) c M"
  shows "step_ok M (exec (Create name entry arg priority stack_size struct stack) c M)"
proof -
  note inv = minvD(1) [OF M]
  obtain ct where cur: "current_thread (kern M) c = Some ct" and p: "0 \<le> priority" "priority < NUM_PRIORITIES"
      and f: "\<And>t. struct = Some t \<Longrightarrow> fresh_thread (kern M) t"
    using k by (auto simp: thread_context_def)
  let ?r = "thread_create name entry arg priority stack_size struct stack c (kern M)"
  show ?thesis
  proof (cases "struct = None \<or> stack = None")
    case True
    then obtain s' where s': "?r = Some (None, s')" "sched_inv s'" "thread_list s' = thread_list (kern M)"
        "timers s' = timers (kern M)" "kernel.more s' = kernel.more (kern M)"
        "s' = kern M \<or> (\<exists>t. fresh_thread (kern M) t \<and> (\<forall>x. x \<noteq> t \<longrightarrow> threads s' x = threads (kern M) x)
           \<and> wait_queues s' = (wait_queues (kern M))(RetcodeWQ t := WAIT_QUEUE_INITIAL_VALUE))"
      using thread_create_etc_fails [OF inv p, where ?t0.0 = None and malloc_struct = struct and stack = None
          and malloc_stack = stack and name = name and entry = entry and arg = arg and stack_size = stack_size and c = c]
        f by (auto simp: thread_create_def)
    have "step_ok M (Some (M\<lparr>kern := s'\<rparr>))"
    proof (cases "s' = kern M")
      case True
      then show ?thesis using M by (simp add: step_ok_def)
    next
      case False
      then obtain t where t: "fresh_thread (kern M) t" "\<And>x. x \<noteq> t \<Longrightarrow> threads s' x = threads (kern M) x"
          "wait_queues s' = (wait_queues (kern M))(RetcodeWQ t := WAIT_QUEUE_INITIAL_VALUE)" using s'(6) by blast
      show ?thesis
        by (rule step_new_thread [OF M s'(2), of t False]) (use s' t in \<open>simp_all add: live_def fresh_thread_def\<close>)
    qed
    then show ?thesis using s'(1) by (simp add: with_kern_def)
  next
    case False
    then obtain t st where ts: "struct = Some t" "stack = Some st" by auto
    then obtain s' where s': "?r = Some (Some t, s')" "sched_inv s'" "thread_list s' = t # thread_list (kern M)"
        "\<forall>x. x \<noteq> t \<longrightarrow> threads s' x = threads (kern M) x"
        "wait_queues s' = (wait_queues (kern M))(RetcodeWQ t := WAIT_QUEUE_INITIAL_VALUE)"
        "timers s' = timers (kern M)" "kernel.more s' = kernel.more (kern M)"
      using thread_create_etc_ok [OF inv cur p, where ?t0.0 = None and malloc_struct = struct and stack = None
          and malloc_stack = stack and name = name and entry = entry and arg = arg and stack_size = stack_size
          and t = t and st = st] f by (auto simp: thread_create_def)
    have "step_ok M (Some (M\<lparr>kern := s'\<rparr>))"
      by (rule step_new_thread [OF M s'(2), of t True]) (use s' f [OF ts(1)] in \<open>auto simp: live_def fresh_thread_def\<close>)
    then show ?thesis using s'(1) by (simp add: with_kern_def)
  qed
qed

text \<open>A secondary cpu comes up with its idle thread.\<close>

lemma step_cpu_init:
  assumes M: "minv M" and k: "contract CpuInit c M"
  shows "step_ok M (exec CpuInit c M)"
proof -
  have off: "cpu_offline c (kern M)" using k by simp
  let ?s = "thread_secondary_cpu_init_early c (kern M)"
  have "\<not> live (kern M) (IdleThread c)"
    using kinvD(5) [OF minvD(1) [OF M]] off by (simp add: idle_ok_def cpu_offline_def)
  then have "step_ok M (Some (M\<lparr>kern := ?s\<rparr>))"
    by (intro step_new_thread [OF M thread_secondary_cpu_init_early_inv [OF minvD(1) [OF M] off], of "IdleThread c" True])
      (use off in \<open>auto simp: cpu_offline_def thread_secondary_cpu_init_early_def init_thread_struct_def
         wait_queue_init_def Let_def live_def upd_thread_def upd_wq_def\<close>)
  then show ?thesis by simp
qed

lemma step_cpu_entry:
  assumes M: "minv M" and k: "contract CpuEntry c M"
  shows "step_ok M (exec CpuEntry c M)"
proof -
  have cur: "current_thread (kern M) c = Some (IdleThread c)" using k by simp
  let ?s1 = "mp_set_cpu_idle c (mp_set_curr_cpu_active c
      (upd_thread (IdleThread c) (\<lambda>th. th\<lparr>t_priority := IDLE_PRIORITY\<rparr>) (kern M)))"
  have cur1: "current_thread ?s1 c = Some (IdleThread c)"
    using cur by (simp add: mp_set_cpu_idle_def mp_set_curr_cpu_active_def)
  obtain s' where s': "thread_yield c ?s1 = Some s'" "sched_inv s'" "shuffled c ?s1 s'"
    using thread_yield_ok [OF kinv_go_idle [OF minvD(1) [OF M] cur] cur1] by blast
  have "same_waits (kern M) ?s1"
    by (simp add: same_waits_def mp_set_cpu_idle_def mp_set_curr_cpu_active_def upd_thread_def)
  then have "same_waits (kern M) s'" using same_waits_trans [OF _ shuffled_same_waits [OF s'(3)]] by blast
  then show ?thesis
    using step_quiet [OF M s'(2)] s'(1) cur by (simp add: with_kern_def thread_secondary_cpu_entry_def Let_def)
qed

lemma unused_empty: "winv M \<Longrightarrow> unused M w \<Longrightarrow> wq_list (wait_queues (kern M) w) = []"
  by (rule ccontr) (use waiting_in_call [of M "hd (wq_list (wait_queues (kern M) w))" w] in \<open>simp add: unused_def\<close>)

text \<open>A thread nobody waits for leaves the thread list.\<close>

lemma winv_gone:
  assumes W: "winv M" and out: "conts M t = Outside" and un: "unused M (RetcodeWQ t)"
    and th: "\<And>x. x \<noteq> t \<Longrightarrow> threads s' x = threads (kern M) x"
    and wq: "wait_queues s' = wait_queues (kern M)"
    and tl: "\<And>x. live s' x \<longleftrightarrow> live (kern M) x \<and> x \<noteq> t"
    and tm: "\<And>x. timers s' (StackTimer x) = timers (kern M) (StackTimer x)"
    and mo: "kernel.more s' = kernel.more (kern M)"
  shows "winv (M\<lparr>kern := s'\<rparr>)" "abs_gate w (M\<lparr>kern := s'\<rparr>) = abs_gate w M"
    "active (M\<lparr>kern := s'\<rparr>) = active M"
proof -
  note I = winvD [OF W] and S = sync_more [OF mo]
  have nt: "\<not> in_call M v t" for v using out by (simp add: in_call_def)
  have wl: "wq_list (wait_queues (kern M) (RetcodeWQ t)) = []" by (rule unused_empty [OF W un])
  show ac: "active (M\<lparr>kern := s'\<rparr>) = active M" by (simp add: active_def fun_eq_iff wq)
  have "cont_ok s' (conts M x) x" for x
  proof (cases "x = t")
    case True
    then show ?thesis using I(2) [of t] out by (simp add: cont_ok_def wq tm)
  next
    case False
    then have lv: "live s' x = live (kern M) x" by (simp add: tl)
    show ?thesis using I(2) [of x] unfolding cont_ok_def wq tm th [OF False] lv .
  qed
  moreover have "joins_ok (M\<lparr>kern := s'\<rparr>)"
    using I(3) un nt th unfolding joins_ok_def in_call_kern unused_def by (simp add: wq tl) metis
  moreover have "objects_ok (M\<lparr>kern := s'\<rparr>)"
    using I(5) ac by (simp add: objects_ok_def wq S event_initialized_def)
  moreover have "join_ok s'"
  proof -
    have "wq_list (wait_queues s' (RetcodeWQ x)) = []"
      if "\<not> live s' x \<or> t_state (threads s' x) = THREAD_DEATH \<or> t_flags (threads s' x) AND THREAD_FLAG_DETACHED \<noteq> 0" for x
      using I(1) that wl th by (cases "x = t") (auto simp: join_ok_def tl wq)
    then show ?thesis using I(1) by (simp add: join_ok_def tl wq)
  qed
  ultimately show "winv (M\<lparr>kern := s'\<rparr>)" using I(4) by (simp add: winv_def timed_ok_def)
  have "in_call M w x \<Longrightarrow> threads s' x = threads (kern M) x" for x using nt [of w] th by (cases "x = t") auto
  then show "abs_gate w (M\<lparr>kern := s'\<rparr>) = abs_gate w M"
    using gate_value_cong [OF S(1,2), of w] gate_tokens_cong [of "M\<lparr>kern := s'\<rparr>" M w]
    by (auto simp: abs_gate_def wq Let_def)
qed

lemma live_remove1: "distinct (thread_list s) \<Longrightarrow> thread_list s' = remove1 t (thread_list s) \<Longrightarrow>
    live s' x \<longleftrightarrow> live s x \<and> x \<noteq> t"
  by (auto simp: live_def)

text \<open>All threads of a wait queue are woken; if it is that of a thread, the thread has died.\<close>

lemma winv_wake_all:
  assumes W: "winv M" and ng: "\<not> is_gate w"
    and die: "\<And>x. w = RetcodeWQ x \<Longrightarrow> conts M x = Outside"
    and th: "\<And>x. t_wait_queue_block_ret (threads s' x) = (if x \<in> set (wq_list (wait_queues (kern M) w)) then NO_ERROR
               else t_wait_queue_block_ret (threads (kern M) x))"
      "\<And>x. t_flags (threads s' x) = t_flags (threads (kern M) x)"
      "\<And>x. t_state (threads s' x) = THREAD_DEATH \<longleftrightarrow> t_state (threads (kern M) x) = THREAD_DEATH \<or> w = RetcodeWQ x"
    and wq: "\<And>v. wq_list (wait_queues s' v) = (if v = w then [] else wq_list (wait_queues (kern M) v))"
      "\<And>v. wq_magic (wait_queues s' v) = wq_magic (wait_queues (kern M) v)"
    and lv: "live s' = live (kern M)"
    and tm: "\<And>x. timers s' (StackTimer x) = timers (kern M) (StackTimer x)"
    and mo: "kernel.more s' = kernel.more (kern M)"
  shows "winv (M\<lparr>kern := s'\<rparr>)" "is_gate v \<Longrightarrow> abs_gate v (M\<lparr>kern := s'\<rparr>) = abs_gate v M"
    "active (M\<lparr>kern := s'\<rparr>) = active M"
proof -
  note I = winvD [OF W] and S = sync_more [OF mo]
  show ac: "active (M\<lparr>kern := s'\<rparr>) = active M" by (simp add: active_def fun_eq_iff wq)
  have mem: "x \<in> set (wq_list (wait_queues s' v)) \<longleftrightarrow> x \<in> set (wq_list (wait_queues (kern M) v)) \<and> v \<noteq> w" for x v
    by (simp add: wq)
  have "cont_ok s' (conts M x) x" for x
  proof -
    have d: "t_state (threads s' x) = THREAD_DEATH \<Longrightarrow> conts M x \<noteq> Outside \<Longrightarrow> t_state (threads (kern M) x) = THREAD_DEATH"
      using th(3) [of x] die [of x] by auto
    have b: "x \<in> set (wq_list (wait_queues (kern M) w)) \<Longrightarrow> blocked_at (conts M x) = Some (v, to) \<Longrightarrow> v = w" for v to
      using cont_okD(4) [OF I(2), of x w] by auto
    show ?thesis using I(2) [of x] d b unfolding cont_ok_def mem wq(2) lv tm th(1)
      by (auto split: option.splits if_splits)
  qed
  moreover have "joins_ok (M\<lparr>kern := s'\<rparr>)"
  proof -
    have "t_state (threads s' x) = THREAD_DEATH"
      if "in_call M (RetcodeWQ x) t" "t \<notin> set (wq_list (wait_queues s' (RetcodeWQ x)))"
        "t_wait_queue_block_ret (threads s' t) = NO_ERROR" for x t
    proof (cases "w = RetcodeWQ x")
      case False
      then have "t \<notin> set (wq_list (wait_queues (kern M) w))"
        using waiting_in_call [OF W, of t w] in_call_unique [OF that(1)] by blast
      then show ?thesis using I(3) that False by (auto simp: joins_ok_def th mem)
    qed (simp add: th)
    then show ?thesis using I(3) by (auto simp: joins_ok_def th(2) lv)
  qed
  moreover have "objects_ok (M\<lparr>kern := s'\<rparr>)"
    using I(5) ac by (simp add: objects_ok_def wq S event_initialized_def)
  moreover have "join_ok s'"
    using I(1) by (auto simp: join_ok_def lv wq th)
  ultimately show "winv (M\<lparr>kern := s'\<rparr>)" using I(4) by (simp add: winv_def timed_ok_def)
  assume g: "is_gate v"
  then have "in_call M v x \<Longrightarrow> x \<notin> set (wq_list (wait_queues (kern M) w))" for x
    using waiting_in_call [OF W, of x w] in_call_unique [of M v x w] ng by auto
  moreover have "v \<noteq> w" using g ng by auto
  ultimately show "abs_gate v (M\<lparr>kern := s'\<rparr>) = abs_gate v M"
    using gate_value_cong [OF S(1,2), of v] gate_tokens_cong [of "M\<lparr>kern := s'\<rparr>" M v]
    by (auto simp: abs_gate_def wq th(1) Let_def)
qed

text \<open>A change seen by the gates as none, then a reshuffle.\<close>

lemma step_then_quiet:
  assumes M: "minv M" and W: "winv N" and t: "timed M \<subseteq> timed N"
    and g: "\<And>w. is_gate w \<Longrightarrow> active N w \<Longrightarrow> active M w \<and>
      (abs_gate w N = abs_gate w M \<or> gate_step (w \<in> timed N) (abs_gate w M) (abs_gate w N))"
    and sw: "same_waits (kern N) s'" and inv: "sched_inv s'"
  shows "step_ok M (Some (N\<lparr>kern := s'\<rparr>))"
proof (rule step_okI [OF M])
  show "sim M (N\<lparr>kern := s'\<rparr>)"
    by (rule simI) (use t g in \<open>auto simp: abs_gate_same_waits [OF sw] active_same_waits [OF sw]\<close>)
qed (use inv winv_same_waits [OF sw W] g in \<open>simp_all add: active_same_waits [OF sw]\<close>)

end
