(* ===== verification/Machine_Calls.thy ===== *)
theory Machine_Calls
  imports Machine_Ops
begin

text \<open>
  The calls that wake or block: the end of a thread, joining, and the operations of mutexes, semaphores
  and events.
\<close>

section \<open>The end of a thread\<close>

lemma step_exit:
  assumes M: "minv M" and k: "contract (Exit r) c M"
  shows "step_ok M (exec (Exit r) c M)"
proof -
  note W = minvD(2) [OF M] and inv = minvD(1) [OF M]
  note I = winvD [OF W]
  obtain t where cur: "current_thread (kern M) c = Some t" and out: "conts M t = Outside"
      and idle: "\<not> thread_is_idle (threads (kern M) t)"
    using k by (auto simp: can_block_def)
  have lv: "live (kern M) t" and run: "t_state (threads (kern M) t) = THREAD_RUNNING"
    using currentD(3) [OF inv cur] by simp_all
  have nd: "tm_node (timers (kern M) (StackTimer t)) = None" by (rule cont_okD(3) [OF I(2) out])
  obtain s1 s' where s': "thread_exit r c (kern M) = Some s'" "sched_inv s'" "exited c t r (kern M) s1" "shuffled c s1 s'"
    using thread_exit_ok [OF inv cur idle nd join_okD(1) [OF I(1) lv]] by blast
  note e = s'(3) [unfolded exited_def]
  have "winv (M\<lparr>kern := s1\<rparr>) \<and> (\<forall>w. is_gate w \<longrightarrow> abs_gate w (M\<lparr>kern := s1\<rparr>) = abs_gate w M)
      \<and> active (M\<lparr>kern := s1\<rparr>) = active M"
  proof (cases "t_flags (threads (kern M) t) AND THREAD_FLAG_DETACHED = 0")
    case False
    have un: "unused M (RetcodeWQ t)" using I(3) False by (auto simp: joins_ok_def unused_def)
    have d: "distinct (thread_list (kern M))" using kinvD(3) [OF inv] by (simp add: threads_ok_def)
    have tl: "thread_list s1 = remove1 t (thread_list (kern M))" using e False by simp
    have g: "winv (M\<lparr>kern := s1\<rparr>)" "active (M\<lparr>kern := s1\<rparr>) = active M"
        "abs_gate w (M\<lparr>kern := s1\<rparr>) = abs_gate w M" for w
      by (rule winv_gone [OF W out un]; use e False live_remove1 [OF d tl] in simp)+
    then show ?thesis by blast
  next
    case True
    let ?ws = "wq_list (wait_queues (kern M) (RetcodeWQ t))"
    let ?s0 = "upd_thread t (\<lambda>th. th\<lparr>t_state := THREAD_DEATH, t_retcode := r\<rparr>) (kern M)"
    let ?s2 = "wq_take_list (RetcodeWQ t) ?ws 0 ?s0"
    have sh: "shuffled c ?s2 s1" using e True by simp
    note D = shuffledD [OF sh]
    have nt: "t \<notin> set ?ws" using waitingD(2) [OF inv, of t] run by auto
    have bl: "x \<in> set ?ws \<Longrightarrow> t_state (threads (kern M) x) = THREAD_BLOCKED" for x
      by (rule waitingD(2) [OF inv])
    have e1: "wq_list (wait_queues ?s2 (RetcodeWQ t)) = []" by (rule wq_take_list_empties) simp
    have th: "t_wait_queue_block_ret (threads s1 x) = (if x \<in> set ?ws then NO_ERROR
               else t_wait_queue_block_ret (threads (kern M) x))" for x
      using wq_take_list_woken(1) [of x ?ws "RetcodeWQ t" 0 ?s0] D(7) [of x]
      by (cases "x \<in> set ?ws"; cases "x = t") simp_all
    have st: "t_state (threads s1 x) = THREAD_DEATH \<longleftrightarrow> t_state (threads (kern M) x) = THREAD_DEATH \<or> RetcodeWQ t = RetcodeWQ x" for x
      using wq_take_list_woken(2) [of x ?ws "RetcodeWQ t" 0 ?s0] D(9) [of x] bl [of x] nt
      by (cases "x \<in> set ?ws"; cases "x = t") simp_all
    have fl: "t_flags (threads s1 x) = t_flags (threads (kern M) x)" for x using D(6) [of x] by (cases "x = t") simp_all
    have wl: "wq_list (wait_queues s1 v) = (if v = RetcodeWQ t then [] else wq_list (wait_queues (kern M) v))" for v
      using D(1) e1 by (cases "v = RetcodeWQ t") simp_all
    have g: "winv (M\<lparr>kern := s1\<rparr>)" "active (M\<lparr>kern := s1\<rparr>) = active M"
        "is_gate v \<Longrightarrow> abs_gate v (M\<lparr>kern := s1\<rparr>) = abs_gate v M" for v
      by (rule winv_wake_all [OF W, where w = "RetcodeWQ t"]; use out th st fl wl D in simp)+
    then show ?thesis by blast
  qed
  then have "step_ok M (Some ((M\<lparr>kern := s1\<rparr>)\<lparr>kern := s'\<rparr>))"
    by (intro step_then_quiet [OF M]) (simp_all add: shuffled_same_waits [OF s'(4)] s'(2))
  then show ?thesis using s'(1) by (simp add: with_kern_def)
qed

section \<open>Blocking\<close>

lemma step_block:
  assumes M: "minv M" and W: "winv M0" and t: "timed M0 = timed M" and a: "active M0 = active M"
    and k: "blocked_at k = Some (w, timeout)" and m: "may_block M0 w t"
    and b: "blocked_on w t timeout (kern M0) s1" and sh: "shuffled c s1 s'" and inv: "sched_inv s'"
    and g: "\<And>v. is_gate v \<Longrightarrow> v \<noteq> w \<Longrightarrow> abs_gate v M0 = abs_gate v M"
      "is_gate w \<Longrightarrow> g_value (abs_gate w M) \<le> 0"
      "is_gate w \<Longrightarrow> abs_gate w M0 = (abs_gate w M)\<lparr>g_value := g_value (abs_gate w M) - 1\<rparr>"
  shows "step_ok M (Some (block_as t k (M0\<lparr>kern := s'\<rparr>)))"
proof -
  let ?N = "block_as t k (M0\<lparr>kern := s1\<rparr>)"
  have out: "conts M0 t = Outside" using m by (simp add: may_block_def)
  note ab = abs_gate_block [OF W b k out]
  have "step_ok M (Some (?N\<lparr>kern := s'\<rparr>))"
  proof (rule step_then_quiet [OF M winv_block [OF W b k m]])
    show "timed M \<subseteq> timed ?N" using block_as_timed [of "M0\<lparr>kern := s1\<rparr>" t k] t by simp
    show "same_waits (kern ?N) s'" using shuffled_same_waits [OF sh] by simp
    fix v assume v: "is_gate v" "active ?N v"
    have "active M v" using v(2) a blocked_onD(6) [OF b] by (simp add: active_def fun_eq_iff)
    moreover have "abs_gate v ?N = abs_gate v M \<or> gate_step (v \<in> timed ?N) (abs_gate v M) (abs_gate v ?N)"
    proof (cases "v = w")
      case False
      then show ?thesis using ab(1) g(1) v(1) by simp
    next
      case True
      then have "gate_step (v \<in> timed ?N) (abs_gate w M) (abs_gate w ?N)"
        unfolding ab(1) using g(2,3) v(1) ab(2) gate_step.wait [of "abs_gate w M" t "v \<in> timed ?N"] by simp
      then show ?thesis using True by simp
    qed
    ultimately show "active M v \<and> (abs_gate v ?N = abs_gate v M \<or> gate_step (v \<in> timed ?N) (abs_gate v M) (abs_gate v ?N))"
      by blast
  qed (rule inv)
  moreover have "?N\<lparr>kern := s'\<rparr> = block_as t k (M0\<lparr>kern := s'\<rparr>)"
    by (cases k) (simp_all add: block_as_def)
  ultimately show ?thesis by simp
qed

lemma can_blockE:
  assumes "minv M" and "can_block M c"
  obtains t where "current_thread (kern M) c = Some t" "conts M t = Outside" "\<not> thread_is_idle (threads (kern M) t)"
    "tm_node (timers (kern M) (StackTimer t)) = None" "live (kern M) t" "t_state (threads (kern M) t) = THREAD_RUNNING"
proof -
  obtain t where t: "current_thread (kern M) c = Some t" "conts M t = Outside" "\<not> thread_is_idle (threads (kern M) t)"
    using assms(2) by (auto simp: can_block_def)
  show thesis
    using t cont_okD(3) [OF winvD(2) [OF minvD(2) [OF assms(1)]] t(2)] currentD(3) [OF minvD(1) [OF assms(1)] t(1)]
    by (intro that [of t]) simp_all
qed

lemma winv_join_finish:
  assumes W: "winv M" and inv: "sched_inv (kern M)" and lv: "live (kern M) x"
    and dead: "t_state (threads (kern M) x) = THREAD_DEATH" and un: "unused M (RetcodeWQ x)"
    and f: "thread_join_finish x (kern M) = Some (r, s')"
  shows "winv (M\<lparr>kern := s'\<rparr>)" "\<And>w. abs_gate w (M\<lparr>kern := s'\<rparr>) = abs_gate w M"
    "active (M\<lparr>kern := s'\<rparr>) = active M" "sched_inv s'"
proof -
  have out: "conts M x = Outside" using cont_okD(2) [OF winvD(2) [OF W], of x] dead by blast
  have nd: "tm_node (timers (kern M) (StackTimer x)) = None" by (rule cont_okD(3) [OF winvD(2) [OF W] out])
  have s': "sched_inv s'" "thread_list s' = remove1 x (thread_list (kern M))" "wait_queues s' = wait_queues (kern M)"
      "kernel.more s' = kernel.more (kern M)" "timers s' = timers (kern M)"
      "\<And>y. y \<noteq> x \<Longrightarrow> threads s' y = threads (kern M) y"
    using thread_join_finish_ok [OF inv lv dead nd] f by auto
  have d: "distinct (thread_list (kern M))" using kinvD(3) [OF inv] by (simp add: threads_ok_def)
  show "winv (M\<lparr>kern := s'\<rparr>)" "\<And>w. abs_gate w (M\<lparr>kern := s'\<rparr>) = abs_gate w M"
    "active (M\<lparr>kern := s'\<rparr>) = active M"
    by (rule winv_gone [OF W out un]; use s' live_remove1 [OF d s'(2)] in simp)+
  show "sched_inv s'" by (rule s'(1))
qed

lemma step_join:
  assumes M: "minv M" and k: "contract (Join x timeout) c M"
  shows "step_ok M (exec (Join x timeout) c M)"
proof -
  note W = minvD(2) [OF M] and inv = minvD(1) [OF M]
  note I = winvD [OF W]
  have lv: "live (kern M) x" and un: "unused M (RetcodeWQ x)" and cb: "can_block M c" using k by simp_all
  obtain t where t: "current_thread (kern M) c = Some t" "conts M t = Outside" "\<not> thread_is_idle (threads (kern M) t)"
    "tm_node (timers (kern M) (StackTimer t)) = None" "live (kern M) t" "t_state (threads (kern M) t) = THREAD_RUNNING"
    by (rule can_blockE [OF M cb])
  have wq: "wq_magic (wait_queues (kern M) (RetcodeWQ x)) = WAIT_QUEUE_MAGIC" by (rule join_okD(1) [OF I(1) lv])
  have dd: "t_state (threads (kern M) x) = THREAD_DEATH \<Longrightarrow> tm_node (timers (kern M) (StackTimer x)) = None"
    using cont_okD(2,3) [OF I(2), of x] by blast
  note j = thread_join_ok [OF inv t(1) lv t(3,4) wq dd, of timeout]
  consider (det) "t_flags (threads (kern M) x) AND THREAD_FLAG_DETACHED \<noteq> 0"
    | (dead) "t_flags (threads (kern M) x) AND THREAD_FLAG_DETACHED = 0" "t_state (threads (kern M) x) = THREAD_DEATH"
    | (now) "t_flags (threads (kern M) x) AND THREAD_FLAG_DETACHED = 0" "t_state (threads (kern M) x) \<noteq> THREAD_DEATH" "timeout = 0"
    | (wait) "t_flags (threads (kern M) x) AND THREAD_FLAG_DETACHED = 0" "t_state (threads (kern M) x) \<noteq> THREAD_DEATH" "timeout \<noteq> 0"
    by blast
  then show ?thesis
  proof cases
    case det
    then show ?thesis using j t(1) M by (simp add: step_ok_def)
  next
    case dead
    then obtain s' where s': "thread_join x timeout c (kern M) = Some (Returns (NO_ERROR, Some (t_retcode (threads (kern M) x))), s')"
        "thread_join_finish x (kern M) = Some (t_retcode (threads (kern M) x), s')"
      using j by auto
    note f = winv_join_finish [OF W inv lv dead(2) un s'(2)]
    have "step_ok M (Some ((M\<lparr>kern := s'\<rparr>)\<lparr>kern := s'\<rparr>))"
      by (rule step_then_quiet [OF M f(1)]) (simp_all add: f)
    then show ?thesis using s'(1) t(1) by simp
  next
    case now
    then show ?thesis using j t(1) M by (simp add: step_ok_def)
  next
    case wait
    then obtain s1 s' where s': "thread_join x timeout c (kern M) = Some (Switches, s')" "sched_inv s'"
        "blocked_on (RetcodeWQ x) t timeout (kern M) s1" "shuffled c s1 s'"
      using j by auto
    have "step_ok M (Some (block_as t (Blocked (RetcodeWQ x) timeout) (M\<lparr>kern := s'\<rparr>)))"
      by (rule step_block [OF M W _ _ _ _ s'(3,4,2)])
        (use wait lv un t wq in \<open>simp_all add: may_block_def active_def\<close>)
    then show ?thesis using s'(1) t(1) by simp
  qed
qed

lemma winv_flags:
  assumes W: "winv M" and un: "unused M (RetcodeWQ t)"
    and th: "\<And>x. x \<noteq> t \<Longrightarrow> threads s' x = threads (kern M) x"
      "threads s' t = (threads (kern M) t)\<lparr>t_flags := f\<rparr>"
    and fr: "wait_queues s' = wait_queues (kern M)" "thread_list s' = thread_list (kern M)" "timers s' = timers (kern M)"
      "kernel.more s' = kernel.more (kern M)"
  shows "winv (M\<lparr>kern := s'\<rparr>)" "abs_gate w (M\<lparr>kern := s'\<rparr>) = abs_gate w M" "active (M\<lparr>kern := s'\<rparr>) = active M"
proof -
  note I = winvD [OF W] and S = sync_more [OF fr(4)] and lv = live_cong [OF fr(2)]
  have pr: "t_wait_queue_block_ret (threads s' x) = t_wait_queue_block_ret (threads (kern M) x)"
      "t_state (threads s' x) = t_state (threads (kern M) x)" for x
    using th by (cases "x = t"; simp)+
  have wl: "wq_list (wait_queues (kern M) (RetcodeWQ t)) = []" by (rule unused_empty [OF W un])
  show ac: "active (M\<lparr>kern := s'\<rparr>) = active M" by (simp add: active_def fun_eq_iff fr(1))
  have "cont_ok s' (conts M x) x" for x using I(2) [of x] unfolding cont_ok_def fr(1,3) lv pr .
  moreover have "joins_ok (M\<lparr>kern := s'\<rparr>)"
    using I(3) un th(1) unfolding joins_ok_def in_call_kern unused_def by (simp add: fr(1) lv pr) metis
  moreover have "objects_ok (M\<lparr>kern := s'\<rparr>)"
    using I(5) ac by (simp add: objects_ok_def fr(1) S event_initialized_def)
  moreover have "join_ok s'"
  proof -
    have "wq_list (wait_queues s' (RetcodeWQ x)) = []"
      if "\<not> live s' x \<or> t_state (threads s' x) = THREAD_DEATH \<or> t_flags (threads s' x) AND THREAD_FLAG_DETACHED \<noteq> 0" for x
      using I(1) that wl th(1) by (cases "x = t") (auto simp: join_ok_def fr(1) lv)
    then show ?thesis using I(1) by (simp add: join_ok_def lv fr(1))
  qed
  ultimately show "winv (M\<lparr>kern := s'\<rparr>)" using I(4) by (simp add: winv_def timed_ok_def)
  show "abs_gate w (M\<lparr>kern := s'\<rparr>) = abs_gate w M"
    using gate_value_cong [OF S(1,2), of w] gate_tokens_cong [of "M\<lparr>kern := s'\<rparr>" M w]
    by (simp add: abs_gate_def fr(1) pr Let_def)
qed

lemma step_detach:
  assumes M: "minv M" and k: "contract (Detach t) c M"
  shows "step_ok M (exec (Detach t) c M)"
proof -
  note W = minvD(2) [OF M] and inv = minvD(1) [OF M]
  note I = winvD [OF W]
  obtain ct where cur: "current_thread (kern M) c = Some ct" using k by (auto simp: thread_context_def)
  have lv: "live (kern M) t" and un: "unused M (RetcodeWQ t)" using k by simp_all
  have nd: "t_state (threads (kern M) t) = THREAD_DEATH \<Longrightarrow> tm_node (timers (kern M) (StackTimer t)) = None"
    using cont_okD(2,3) [OF I(2), of t] by blast
  obtain s1 s' where s': "thread_detach t c (kern M) = Some (NO_ERROR, s')" "sched_inv s'"
      "shuffled c (kern M) s1" "wait_queues s' = wait_queues s1" "kernel.more s' = kernel.more s1" "timers s' = timers s1"
      "\<And>x. x \<noteq> t \<Longrightarrow> threads s' x = threads s1 x"
      "if t_state (threads (kern M) t) = THREAD_DEATH then thread_list s' = remove1 t (thread_list (kern M))
       else thread_list s' = thread_list (kern M)
         \<and> threads s' t = (threads s1 t)\<lparr>t_flags := t_flags (threads s1 t) OR THREAD_FLAG_DETACHED\<rparr>"
    using thread_detach_ok [OF inv cur lv join_okD(1) [OF I(1) lv] nd] unused_empty [OF W un] by auto
  note sw = shuffled_same_waits [OF s'(3)] and D = shuffledD [OF s'(3)]
  let ?M1 = "M\<lparr>kern := s1\<rparr>"
  note W1 = winv_same_waits [OF sw W] and g1 = abs_gate_same_waits [OF sw] and a1 = active_same_waits [OF sw]
  have un1: "unused ?M1 (RetcodeWQ t)" using un by (simp add: unused_def)
  have "winv (?M1\<lparr>kern := s'\<rparr>) \<and> (\<forall>w. abs_gate w (?M1\<lparr>kern := s'\<rparr>) = abs_gate w ?M1) \<and>
      active (?M1\<lparr>kern := s'\<rparr>) = active ?M1"
  proof (cases "t_state (threads (kern M) t) = THREAD_DEATH")
    case True
    then have out: "conts ?M1 t = Outside" using cont_okD(2) [OF I(2), of t] by auto
    have "distinct (thread_list (kern ?M1))" using kinvD(3) [OF inv] D(2) by (simp add: threads_ok_def)
    moreover have "thread_list s' = remove1 t (thread_list (kern ?M1))" using s'(8) True D(2) by simp
    ultimately have lr: "\<And>x. live s' x \<longleftrightarrow> live (kern ?M1) x \<and> x \<noteq> t" by (rule live_remove1)
    show ?thesis
      by (intro conjI allI; rule winv_gone [OF W1 out un1]; use s' lr in simp)
  next
    case False
    then show ?thesis
      by (intro conjI allI; intro winv_flags [OF W1 un1, where f = "t_flags (threads s1 t) OR THREAD_FLAG_DETACHED"];
          use s' D(2) in simp)
  qed
  then have "step_ok M (Some ((?M1\<lparr>kern := s'\<rparr>)\<lparr>kern := s'\<rparr>))"
    by (intro step_then_quiet [OF M]) (simp_all add: g1 a1 s'(2))
  then show ?thesis using s'(1) by (simp add: with_kern_def)
qed

section \<open>Coming back from a blocking call\<close>

lemma kern_first [simp]:
  "M\<lparr>conts := k, kern := s\<rparr> = M\<lparr>kern := s, conts := k\<rparr>"
  "M\<lparr>owns := os, kern := s\<rparr> = M\<lparr>kern := s, owns := os\<rparr>"
  "M\<lparr>avail := a, kern := s\<rparr> = M\<lparr>kern := s, avail := a\<rparr>"
  by simp_all

lemma return_quiet:
  assumes M: "minv M" and cur: "current_thread (kern M) c = Some t"
    and m: "timer_sys.more s1 = timer_sys.more (kern M)" and inv: "sched_inv s1"
    and tm: "\<forall>x. x \<noteq> StackTimer t \<longrightarrow> timers s1 x = timers (kern M) x"
    and nd: "tm_node (timers s1 (StackTimer t)) = None"
    and ng: "\<And>w. is_gate w \<Longrightarrow> \<not> in_call M w t"
  shows "step_ok M (Some (M\<lparr>kern := s1, conts := (conts M)(t := Outside)\<rparr>))"
proof -
  let ?N = "M\<lparr>kern := s1, conts := (conts M)(t := Outside)\<rparr>"
  note r = winv_return [OF minvD(2,1) [OF M] cur m tm nd]
  have g: "abs_gate w ?N = abs_gate w M" if "is_gate w" for w
    using ng [OF that] unfolding r(2) by (auto simp: abs_gate_def Let_def)
  have "step_ok M (Some (?N\<lparr>kern := s1\<rparr>))"
    by (rule step_then_quiet [OF M r(1)]) (use r(3) g inv in simp_all)
  then show ?thesis by simp
qed

lemma continue_asleep:
  assumes M: "minv M" and cur: "current_thread (kern M) c = Some t" and a: "conts M t = Asleep"
  shows "step_ok M (continue c M)"
proof -
  have "tm_node (timers (kern M) (StackTimer t)) = None"
  proof (rule ccontr)
    assume n: "tm_node (timers (kern M) (StackTimer t)) \<noteq> None"
    then show False
      using cont_okD(9) [OF winvD(2) [OF minvD(2) [OF M]] a n] stackD(1) [OF minvD(1) [OF M] n]
        currentD(3) [OF minvD(1) [OF M] cur] by simp
  qed
  then have "step_ok M (Some (M\<lparr>kern := kern M, conts := (conts M)(t := Outside)\<rparr>))"
    by (intro return_quiet [OF M cur]) (use minvD(1) [OF M] a in \<open>auto simp: in_call_def\<close>)
  then show ?thesis using cur a by (simp add: continue_def)
qed

text \<open>What a thread that was blocked finds when it runs again.\<close>

lemma blocked_runs:
  assumes M: "minv M" and cur: "current_thread (kern M) c = Some t" and b: "blocked_at (conts M t) = Some (w, timeout)"
  shows "t \<notin> set (wq_list (wait_queues (kern M) v))" "active M w" "in_call M w t"
    "timeout \<noteq> INFINITE_TIME \<Longrightarrow> tm_magic (timers (kern M) (StackTimer t)) = TIMER_MAGIC"
    "timeout = INFINITE_TIME \<Longrightarrow> tm_node (timers (kern M) (StackTimer t)) = None"
    "t_wait_queue_block_ret (threads (kern M) t) = NO_ERROR \<or>
     t_wait_queue_block_ret (threads (kern M) t) = ERR_TIMED_OUT \<and> w \<in> timed M"
proof -
  note ok = winvD(2) [OF minvD(2) [OF M], of t]
  show no: "t \<notin> set (wq_list (wait_queues (kern M) v))" for v
    using currentD(3) [OF minvD(1) [OF M] cur] waitingD(2) [OF minvD(1) [OF M], of t v] by auto
  show "active M w" using cont_okD(5) [OF ok b] by (simp add: active_def)
  show "in_call M w t" using b by (auto simp: in_call_def)
  show "timeout \<noteq> INFINITE_TIME \<Longrightarrow> tm_magic (timers (kern M) (StackTimer t)) = TIMER_MAGIC"
    by (rule cont_okD(7) [OF ok b])
  show "timeout = INFINITE_TIME \<Longrightarrow> tm_node (timers (kern M) (StackTimer t)) = None"
    using cont_okD(6) [OF ok] b by simp
  show "t_wait_queue_block_ret (threads (kern M) t) = NO_ERROR \<or>
     t_wait_queue_block_ret (threads (kern M) t) = ERR_TIMED_OUT \<and> w \<in> timed M"
    using cont_okD(8) [OF ok b no] winvD(4) [OF minvD(2) [OF M]] b by (auto simp: timed_ok_def)
qed

lemma continue_wait:
  assumes M: "minv M" and cur: "current_thread (kern M) c = Some t" and b: "blocked_at (conts M t) = Some (w, timeout)"
    and ng: "\<not> is_gate w"
    and e: "continue c M = (case wait_queue_block_resume timeout c (kern M) of None \<Rightarrow> None
        | Some (_, s) \<Rightarrow> Some (M\<lparr>kern := s, conts := (conts M)(t := Outside)\<rparr>))"
  shows "step_ok M (continue c M)"
proof -
  note r = blocked_runs [OF M cur b]
  obtain s1 where s1: "wait_queue_block_resume timeout c (kern M) = Some (t_wait_queue_block_ret (threads (kern M) t), s1)"
      "sched_inv s1" "timer_sys.more s1 = timer_sys.more (kern M)"
      "\<forall>x. x \<noteq> StackTimer t \<longrightarrow> timers s1 x = timers (kern M) x" "tm_node (timers s1 (StackTimer t)) = None"
    using wait_queue_block_resume_ok [OF minvD(1) [OF M] cur r(4,5)] by blast
  have "step_ok M (Some (M\<lparr>kern := s1, conts := (conts M)(t := Outside)\<rparr>))"
    by (rule return_quiet [OF M cur s1(3,2,4,5)]) (use in_call_unique [OF r(3)] ng in blast)
  then show ?thesis using s1(1) by (simp add: e)
qed

lemma continue_join:
  assumes M: "minv M" and cur: "current_thread (kern M) c = Some t" and b: "conts M t = Blocked (RetcodeWQ x) timeout"
  shows "step_ok M (continue c M)"
proof -
  note W = minvD(2) [OF M] and inv = minvD(1) [OF M]
  have b': "blocked_at (conts M t) = Some (RetcodeWQ x, timeout)" by (simp add: b)
  note r = blocked_runs [OF M cur b']
  let ?ret = "t_wait_queue_block_ret (threads (kern M) t)"
  obtain s1 where s1: "wait_queue_block_resume timeout c (kern M) = Some (?ret, s1)"
      "sched_inv s1" "timer_sys.more s1 = timer_sys.more (kern M)"
      "\<forall>x. x \<noteq> StackTimer t \<longrightarrow> timers s1 x = timers (kern M) x" "tm_node (timers s1 (StackTimer t)) = None"
    using wait_queue_block_resume_ok [OF inv cur r(4,5)] by blast
  let ?M1 = "M\<lparr>kern := s1, conts := (conts M)(t := Outside)\<rparr>"
  have ng: "is_gate w \<Longrightarrow> \<not> in_call M w t" for w using in_call_unique [OF r(3), of w] by auto
  have q: "step_ok M (Some ?M1)" by (rule return_quiet [OF M cur s1(3,2,4,5) ng])
  show ?thesis
  proof (cases "?ret < 0")
    case True
    then show ?thesis using q s1(1) cur b by (simp add: continue_def thread_join_resume_def)
  next
    case False
    then have z: "?ret = NO_ERROR" using r(6) by auto
    note w1 = winv_return [OF W inv cur s1(3,4,5)] and K = kernel_more [OF s1(3)]
    have j: "live (kern M) x" "t_state (threads (kern M) x) = THREAD_DEATH"
        "\<And>t'. in_call M (RetcodeWQ x) t' \<Longrightarrow> t' = t"
      using winvD(3) [OF W] r(1,3) z by (auto simp: joins_ok_def)
    have un: "unused ?M1 (RetcodeWQ x)" using j(3) by (auto simp: unused_def in_call_def)
    have lv1: "live (kern ?M1) x" "t_state (threads (kern ?M1) x) = THREAD_DEATH"
      using j live_cong [OF K(2)] by (simp_all add: K)
    have nd: "tm_node (timers (kern ?M1) (StackTimer x)) = None"
      using cont_okD(2,3) [OF winvD(2) [OF w1(1)], of x] lv1(2) by blast
    have k1: "sched_inv (kern ?M1)" using s1(2) by simp
    obtain s2 where s2: "thread_join_finish x s1 = Some (t_retcode (threads s1 x), s2)"
      using thread_join_finish_ok [OF k1 lv1 nd] by auto
    then have s2': "thread_join_finish x (kern ?M1) = Some (t_retcode (threads s1 x), s2)" by simp
    note f = winv_join_finish [OF w1(1) k1 lv1 un s2']
    have g: "is_gate w \<Longrightarrow> abs_gate w ?M1 = abs_gate w M" for w
      using ng [of w] unfolding w1(2) by (auto simp: abs_gate_def Let_def)
    have "step_ok M (Some ((?M1\<lparr>kern := s2\<rparr>)\<lparr>kern := s2\<rparr>))"
      by (rule step_then_quiet [OF M f(1)]) (use f w1(3) g in simp_all)
    then show ?thesis using s1(1) s2 cur b False by (simp add: continue_def thread_join_resume_def)
  qed
qed

section \<open>Gates\<close>

text \<open>One gate moves by one step, the others stay.\<close>

lemma step_gate:
  assumes M: "minv M" and W: "winv N" and inv: "sched_inv (kern N)" and t: "timed N = timed M"
    and a: "active N = active M" and o: "\<And>v. is_gate v \<Longrightarrow> v \<noteq> w \<Longrightarrow> abs_gate v N = abs_gate v M"
    and g: "gate_step (w \<in> timed M) (abs_gate w M) (abs_gate w N)"
  shows "step_ok M (Some N)"
proof -
  have "step_ok M (Some (N\<lparr>kern := kern N\<rparr>))"
  proof (rule step_then_quiet [OF M W])
    fix v assume "is_gate v" "active N v"
    then show "active M v \<and> (abs_gate v N = abs_gate v M \<or> gate_step (v \<in> timed N) (abs_gate v M) (abs_gate v N))"
      using o [of v] g a t by (cases "v = w") auto
  qed (simp_all add: t inv)
  then show ?thesis by simp
qed

lemma step_wake:
  assumes M: "minv M" and W: "winv M0" and t: "timed M0 = timed M" and a: "active M0 = active M"
    and e: "threads (kern M0) = threads (kern M)" "wait_queues (kern M0) = wait_queues (kern M)"
    and o: "\<And>v. v \<noteq> w \<Longrightarrow> abs_gate v M0 = abs_gate v M"
    and g: "abs_gate w M0 = (abs_gate w M)\<lparr>g_value := g_value (abs_gate w M) + 1, g_tokens := g_tokens (abs_gate w M) + 1\<rparr>"
      "g_value (abs_gate w M) < 0" "is_gate w"
    and u: "wq_list (wait_queues (kern M) w) \<noteq> []"
    and s': "shuffled c (wq_take w (hd (wq_list (wait_queues (kern M) w))) NO_ERROR (kern M0)) s'" "sched_inv s'"
  shows "step_ok M (Some (M0\<lparr>kern := s'\<rparr>))"
proof -
  note inv = minvD(1) [OF M]
  let ?u = "hd (wq_list (wait_queues (kern M) w))"
  let ?N = "M0\<lparr>kern := wq_take w ?u NO_ERROR (kern M0)\<rparr>"
  have um: "?u \<in> set (wq_list (wait_queues (kern M) w))" using u by simp
  have ub: "t_state (threads (kern M0) ?u) = THREAD_BLOCKED" using waitingD(2) [OF inv um] by (simp add: e)
  have d: "distinct (wq_list (wait_queues (kern M0) w))" using kinvD(1) [OF inv] by (simp add: queues_ok_def e)
  have um0: "?u \<in> set (wq_list (wait_queues (kern M0) w))" using um by (simp add: e)
  have wk: "wakes (kern M0) w ?u NO_ERROR" using g(3) by (auto simp: wakes_def)
  note WN = winv_wq_take [OF W um0 ub d wk]
  note ab = abs_gate_wq_take [OF W um0 d, where err = NO_ERROR]
  have "step_ok M (Some (?N\<lparr>kern := s'\<rparr>))"
  proof (rule step_then_quiet [OF M WN])
    show "same_waits (kern ?N) s'" using shuffled_same_waits [OF s'(1)] by simp
    fix v assume v: "is_gate v" "active ?N v"
    then have "active M v" using a active_wq_take [where M = M0 and v = v] by simp
    moreover have "abs_gate v ?N = abs_gate v M \<or> gate_step (v \<in> timed ?N) (abs_gate v M) (abs_gate v ?N)"
    proof (cases "v = w")
      case False
      then show ?thesis using ab o by simp
    next
      case True
      obtain ts where ts: "g_waiting (abs_gate w M) = ?u # ts"
        using u by (cases "wq_list (wait_queues (kern M) w)") (simp_all add: abs_gate_def Let_def)
      have "gate_step (v \<in> timed ?N) (abs_gate w M) (abs_gate w ?N)"
        unfolding ab using gate_step.wake [OF g(2) ts, of "v \<in> timed ?N"] g(1) ts by simp
      then show ?thesis using True by simp
    qed
    ultimately show "active M v \<and> (abs_gate v ?N = abs_gate v M \<or> gate_step (v \<in> timed ?N) (abs_gate v M) (abs_gate v ?N))"
      by blast
  qed (use t s'(2) in simp_all)
  then show ?thesis by simp
qed

lemma cont_ok_cong:
  "threads s' = threads s \<Longrightarrow> live s' = live s \<Longrightarrow> wait_queues s' = wait_queues s \<Longrightarrow> timers s' = timers s \<Longrightarrow>
    cont_ok s' k t = cont_ok s k t"
  by (simp only: cont_ok_def)

lemma join_ok_cong:
  "threads s' = threads s \<Longrightarrow> live s' = live s \<Longrightarrow> wait_queues s' = wait_queues s \<Longrightarrow> join_ok s' = join_ok s"
  by (simp only: join_ok_def)

lemma cont_ok_upd [simp]:
  "cont_ok (upd_mutex m f s) = cont_ok s" "cont_ok (upd_sem i g s) = cont_ok s" "cont_ok (upd_event e h s) = cont_ok s"
  "join_ok (upd_mutex m f s) = join_ok s" "join_ok (upd_sem i g s) = join_ok s" "join_ok (upd_event e h s) = join_ok s"
  by (simp_all add: fun_eq_iff cont_ok_cong join_ok_cong)

subsection \<open>Mutexes\<close>

lemma winv_upd_mutex:
  assumes W: "winv M" and f: "mx_magic (f (mutexes (kern M) m)) = mx_magic (mutexes (kern M) m)"
    and os: "active M (MutexWQ m) \<Longrightarrow> os = set_option (mx_holder (f (mutexes (kern M) m)))"
  defines "N \<equiv> M\<lparr>kern := upd_mutex m f (kern M), owns := (owns M)(m := os)\<rparr>"
  shows "winv N" "active N = active M"
    "abs_gate v N = (if v = MutexWQ m
       then (abs_gate v M)\<lparr>g_value := 1 - mx_count (f (mutexes (kern M) m)), g_tokens := 1 - int (card os)\<rparr>
       else abs_gate v M)"
proof -
  note I = winvD [OF W]
  show ac: "active N = active M" by (simp add: active_def N_def fun_eq_iff)
  have ic: "in_call N = in_call M" by (simp add: in_call_def N_def fun_eq_iff)
  have "cont_ok (kern N) (conts N x) x" for x using I(2) [of x] by (simp add: N_def)
  moreover have "joins_ok N" using I(3) unfolding joins_ok_def ic by (simp add: N_def)
  moreover have "objects_ok N"
    using I(5) f os unfolding objects_ok_def ac by (auto simp: N_def event_initialized_def)
  ultimately show "winv N" using I(1,4) by (simp add: winv_def timed_ok_def N_def)
  show "abs_gate v N = (if v = MutexWQ m
       then (abs_gate v M)\<lparr>g_value := 1 - mx_count (f (mutexes (kern M) m)), g_tokens := 1 - int (card os)\<rparr>
       else abs_gate v M)"
    by (cases v) (auto simp: abs_gate_def Let_def ic, auto simp: N_def)
qed

lemma mutex_gate:
  assumes "minv M" and "active M (MutexWQ m)"
  shows "gate_inv (abs_gate (MutexWQ m) M)" "g_value (abs_gate (MutexWQ m) M) = 1 - mx_count (mutexes (kern M) m)"
    "g_tokens (abs_gate (MutexWQ m) M) = 1 - int (card (owns M m))"
    "g_waiting (abs_gate (MutexWQ m) M) = wq_list (wait_queues (kern M) (MutexWQ m))"
    "owns M m = set_option (mx_holder (mutexes (kern M) m))"
    "0 < g_tokens (abs_gate (MutexWQ m) M) \<Longrightarrow> owns M m = {}"
proof -
  show "gate_inv (abs_gate (MutexWQ m) M)" using minvD(3) [OF assms(1)] assms(2) by (simp add: gates_ok_def)
  show o: "owns M m = set_option (mx_holder (mutexes (kern M) m))"
    using winvD(5) [OF minvD(2) [OF assms(1)]] assms(2) by (simp add: objects_ok_def)
  show t: "g_tokens (abs_gate (MutexWQ m) M) = 1 - int (card (owns M m))" by (simp add: abs_gate_def Let_def)
  show "0 < g_tokens (abs_gate (MutexWQ m) M) \<Longrightarrow> owns M m = {}"
    unfolding t o by (cases "mx_holder (mutexes (kern M) m)") simp_all
qed (simp_all add: abs_gate_def Let_def)

lemma step_mutex_acquire:
  assumes M: "minv M" and k: "contract (MutexAcquire m timeout) c M"
  shows "step_ok M (exec (MutexAcquire m timeout) c M)"
proof -
  note W = minvD(2) [OF M] and inv = minvD(1) [OF M]
  let ?w = "MutexWQ m" and ?x = "mutexes (kern M) m"
  have mg: "mx_magic ?x = MUTEX_MAGIC" and cb: "can_block M c" and nh: "\<not> is_mutex_held m c (kern M)" using k by simp_all
  obtain t where t: "current_thread (kern M) c = Some t" "conts M t = Outside" "\<not> thread_is_idle (threads (kern M) t)"
    "tm_node (timers (kern M) (StackTimer t)) = None" "live (kern M) t" "t_state (threads (kern M) t) = THREAD_RUNNING"
    by (rule can_blockE [OF M cb])
  have ac: "active M ?w" using winvD(5) [OF W] mg by (simp add: objects_ok_def)
  note G = mutex_gate [OF M ac]
  let ?f = "\<lambda>x. x\<lparr>mx_count := mx_count x + 1\<rparr>"
  let ?s0 = "upd_mutex m ?f (kern M)"
  have ho: "mx_holder ?x \<noteq> Some t" using nh t(1) by (simp add: is_mutex_held_def)
  note a = mutex_acquire_timeout_ok [OF inv t(1,3,4) mg ho, of timeout]
  have wq: "wq_magic (wait_queues (kern M) ?w) = WAIT_QUEUE_MAGIC" using ac by (simp add: active_def)
  consider (free) "mx_count ?x \<le> 0" | (now) "0 < mx_count ?x" "timeout = 0" | (wait) "0 < mx_count ?x" "timeout \<noteq> 0" by linarith
  then show ?thesis
  proof cases
    case free
    let ?g = "\<lambda>x. x\<lparr>mx_count := mx_count x + 1, mx_holder := Some t\<rparr>"
    have r: "mutex_acquire_timeout m timeout c (kern M) = Some (Returns NO_ERROR, upd_mutex m ?g (kern M))"
      using a wq free by simp
    have "0 < g_value (abs_gate ?w M)" using free G(2) by simp
    moreover have "0 < g_tokens (abs_gate ?w M)" using G(1) calculation by (auto simp: gate_inv_def)
    ultimately have v: "0 < g_value (abs_gate ?w M)" "owns M m = {}" using G(6) by simp_all
    note u = winv_upd_mutex [OF W, of ?g m "{t}"]
    have "step_ok M (Some (M\<lparr>kern := upd_mutex m ?g (kern M), owns := (owns M)(m := {t})\<rparr>))"
    proof (rule step_gate [OF M, where w = ?w])
      show "gate_step (?w \<in> timed M) (abs_gate ?w M) (abs_gate ?w (M\<lparr>kern := upd_mutex m ?g (kern M), owns := (owns M)(m := {t})\<rparr>))"
        using gate_step.take [OF v(1), of "?w \<in> timed M"] u(3) G(2,3) v(2) by simp
    qed (use u inv in simp_all)
    then show ?thesis using r t(1) v(2) by (simp add: owned_def)
  next
    case now
    then show ?thesis using a wq t(1) M by (simp add: step_ok_def)
  next
    case wait
    then obtain s1 s' where s': "mutex_acquire_timeout m timeout c (kern M) = Some (Switches, s')" "sched_inv s'"
        "blocked_on ?w t timeout ?s0 s1" "shuffled c s1 s'"
      using a wq by auto
    let ?M0 = "M\<lparr>kern := ?s0\<rparr>"
    have eq: "M\<lparr>kern := ?s0, owns := (owns M)(m := owns M m)\<rparr> = ?M0" by simp
    note u = winv_upd_mutex [OF W, of ?f m "owns M m", unfolded eq]
    have "step_ok M (Some (block_as t (Blocked ?w timeout) (?M0\<lparr>kern := s'\<rparr>)))"
    proof (rule step_block [OF M])
      show "winv ?M0" "active ?M0 = active M" using u(1,2) G(5) by simp_all
      show "blocked_on ?w t timeout (kern ?M0) s1" using s'(3) by simp
      show "may_block ?M0 ?w t" using t ac u(2) G(5) by (simp add: may_block_def)
      show "\<And>v. is_gate v \<Longrightarrow> v \<noteq> ?w \<Longrightarrow> abs_gate v ?M0 = abs_gate v M" using u(3) G(5) by simp
      show "abs_gate ?w ?M0 = (abs_gate ?w M)\<lparr>g_value := g_value (abs_gate ?w M) - 1\<rparr>"
        using u(3) G(2,3,5) by simp
      show "g_value (abs_gate ?w M) \<le> 0" using G(2) wait by simp
    qed (use s' in simp_all)
    then show ?thesis using s'(1) t(1) by simp
  qed
qed

lemma step_mutex_release:
  assumes M: "minv M" and k: "contract (MutexRelease m) c M"
  shows "step_ok M (exec (MutexRelease m) c M)"
proof -
  note W = minvD(2) [OF M] and inv = minvD(1) [OF M]
  let ?w = "MutexWQ m" and ?x = "mutexes (kern M) m"
  have mg: "mx_magic ?x = MUTEX_MAGIC" and cb: "can_block M c" and h: "is_mutex_held m c (kern M)" using k by simp_all
  obtain t where t: "current_thread (kern M) c = Some t" "\<not> thread_is_idle (threads (kern M) t)"
    by (rule can_blockE [OF M cb])
  have ac: "active M ?w" using winvD(5) [OF W] mg by (simp add: objects_ok_def)
  note G = mutex_gate [OF M ac]
  let ?f = "\<lambda>x. x\<lparr>mx_holder := None, mx_count := mx_count x - 1\<rparr>"
  let ?s0 = "upd_mutex m ?f (kern M)" and ?ws = "wq_list (wait_queues (kern M) ?w)"
  have ho: "mx_holder ?x = Some t" using h t(1) by (simp add: is_mutex_held_def)
  then have ow: "owns M m = {t}" using G(5) by simp
  have wq: "wq_magic (wait_queues (kern M) ?w) = WAIT_QUEUE_MAGIC" using ac by (simp add: active_def)
  note r = mutex_release_ok [OF inv t mg ho wq]
  let ?M0 = "M\<lparr>kern := ?s0, owns := (owns M)(m := {})\<rparr>"
  note u = winv_upd_mutex [OF W, of ?f m "{}", simplified]
  have g0: "abs_gate ?w ?M0 = (abs_gate ?w M)\<lparr>g_value := g_value (abs_gate ?w M) + 1, g_tokens := g_tokens (abs_gate ?w M) + 1\<rparr>"
    using u(3) [of ?w] G(2,3) ow by simp
  show ?thesis
  proof (cases "mx_count ?x \<le> 1 \<or> ?ws = []")
    case True
    have "step_ok M (Some ?M0)"
    proof (rule step_gate [OF M, where w = ?w])
      show "gate_step (?w \<in> timed M) (abs_gate ?w M) (abs_gate ?w ?M0)"
        unfolding g0 by (rule gate_step.put) (use True G(2,4) in auto)
    qed (use u inv in simp_all)
    then show ?thesis using r True t(1) ow by simp
  next
    case False
    then obtain s' where s': "mutex_release m c (kern M) = Some (NO_ERROR, s')" "sched_inv s'"
        "shuffled c (wq_take ?w (hd ?ws) NO_ERROR ?s0) s'"
      using r by auto
    have "step_ok M (Some (?M0\<lparr>kern := s'\<rparr>))"
      by (rule step_wake [OF M u(1) _ u(2) _ _ _ g0 _ _ _ _ s'(2)]) (use s'(3) u(3) False G(2) in simp_all)
    then show ?thesis using s'(1) t(1) ow by simp
  qed
qed

lemma granted_iff:
  "t \<in> g_granted (abs_gate w M) \<longleftrightarrow> in_call M w t \<and> t \<notin> set (wq_list (wait_queues (kern M) w)) \<and>
     t_wait_queue_block_ret (threads (kern M) t) = NO_ERROR"
  "t \<in> g_expired (abs_gate w M) \<longleftrightarrow> in_call M w t \<and> t \<notin> set (wq_list (wait_queues (kern M) w)) \<and>
     t_wait_queue_block_ret (threads (kern M) t) \<noteq> NO_ERROR"
  by (auto simp: abs_gate_def Let_def)

lemma continue_mutex:
  assumes M: "minv M" and cur: "current_thread (kern M) c = Some t" and b: "conts M t = Blocked (MutexWQ m) timeout"
  shows "step_ok M (continue c M)"
proof -
  note W = minvD(2) [OF M] and inv = minvD(1) [OF M]
  let ?w = "MutexWQ m" and ?x = "mutexes (kern M) m"
  have b': "blocked_at (conts M t) = Some (?w, timeout)" by (simp add: b)
  note r = blocked_runs [OF M cur b']
  note G = mutex_gate [OF M r(2)]
  let ?ret = "t_wait_queue_block_ret (threads (kern M) t)"
  let ?h = "\<lambda>x. x\<lparr>mx_holder := Some t\<rparr>" and ?d = "\<lambda>x. x\<lparr>mx_count := mx_count x - 1\<rparr>"
  obtain s1 where s1: "mutex_acquire_timeout_resume m timeout c (kern M) =
             Some (?ret, if ?ret \<ge> NO_ERROR then upd_mutex m ?h s1
                         else if ?ret = ERR_TIMED_OUT then upd_mutex m ?d s1 else s1)"
      "sched_inv s1" "timer_sys.more s1 = timer_sys.more (kern M)"
      "\<forall>x. x \<noteq> StackTimer t \<longrightarrow> timers s1 x = timers (kern M) x" "tm_node (timers s1 (StackTimer t)) = None"
    using mutex_acquire_timeout_resume_ok [OF inv cur r(4,5), where m = m] by blast
  let ?M1 = "M\<lparr>kern := s1, conts := (conts M)(t := Outside)\<rparr>"
  note w1 = winv_return [OF W inv cur s1(3,4,5)]
  have mx: "mutexes s1 = mutexes (kern M)" by (rule sync_more(1) [OF kernel_more(13) [OF s1(3)]])
  have g1: "v \<noteq> ?w \<Longrightarrow> abs_gate v ?M1 = abs_gate v M" for v
    using in_call_unique [OF r(3), of v] granted_iff [of t v M] unfolding w1(2) by auto
  consider (ok) "?ret = NO_ERROR" | (out) "?ret = ERR_TIMED_OUT" "?w \<in> timed M" using r(6) by auto
  then show ?thesis
  proof cases
    case ok
    have gr: "t \<in> g_granted (abs_gate ?w M)" "t \<notin> g_expired (abs_gate ?w M)" using r(1,3) ok by (simp_all add: granted_iff)
    then have "0 < card (g_granted (abs_gate ?w M))" using G(1) by (auto simp: gate_inv_def card_gt_0_iff)
    then have ow: "owns M m = {}" using G(1,6) by (auto simp: gate_inv_def)
    note u = winv_upd_mutex [OF w1(1), of ?h m "{t}"]
    let ?N = "?M1\<lparr>kern := upd_mutex m ?h (kern ?M1), owns := (owns ?M1)(m := {t})\<rparr>"
    have gN: "abs_gate ?w ?N = (abs_gate ?w M)\<lparr>g_tokens := g_tokens (abs_gate ?w M) - 1,
        g_granted := g_granted (abs_gate ?w M) - {t}\<rparr>"
      by (rule gate.equality) (use u(3) w1(2) G(2,3) ow gr(2) mx in simp_all)
    have "step_ok M (Some ?N)"
    proof (rule step_gate [OF M, where w = ?w])
      show "gate_step (?w \<in> timed M) (abs_gate ?w M) (abs_gate ?w ?N)"
        unfolding gN by (rule gate_step.proceed [OF gr(1)])
      show "\<And>v. is_gate v \<Longrightarrow> v \<noteq> ?w \<Longrightarrow> abs_gate v ?N = abs_gate v M" using u(3) g1 by simp
    qed (use u w1 s1(2) in simp_all)
    then show ?thesis using s1(1) ok cur b ow by (simp add: continue_def owned_def)
  next
    case out
    have gr: "t \<in> g_expired (abs_gate ?w M)" "t \<notin> g_granted (abs_gate ?w M)" using r(1,3) out by (simp_all add: granted_iff)
    let ?N = "?M1\<lparr>kern := upd_mutex m ?d (kern ?M1), owns := (owns ?M1)(m := owns M m)\<rparr>"
    note u = winv_upd_mutex [OF w1(1), of ?d m "owns M m"]
    have os: "owns M m = set_option (mx_holder (?d (mutexes (kern ?M1) m)))" using G(5) mx by simp
    have gN: "abs_gate ?w ?N = (abs_gate ?w M)\<lparr>g_value := g_value (abs_gate ?w M) + 1,
        g_expired := g_expired (abs_gate ?w M) - {t}\<rparr>"
      by (rule gate.equality) (use u(3) os w1(2) G(2,3) gr(2) mx in simp_all)
    have "step_ok M (Some ?N)"
    proof (rule step_gate [OF M, where w = ?w])
      show "gate_step (?w \<in> timed M) (abs_gate ?w M) (abs_gate ?w ?N)"
        unfolding gN by (rule gate_step.back_out [OF out(2) gr(1)])
      show "\<And>v. is_gate v \<Longrightarrow> v \<noteq> ?w \<Longrightarrow> abs_gate v ?N = abs_gate v M" using u(3) os g1 by simp
    qed (use u os w1 s1(2) in simp_all)
    then show ?thesis using s1(1) out cur b by (simp add: continue_def)
  qed
qed

section \<open>Initialising and destroying objects\<close>

lemma sync_upd_wq [simp]:
  "mutexes (upd_wq w f s) = mutexes s" "semaphores (upd_wq w f s) = semaphores s" "events (upd_wq w f s) = events s"
  by (simp_all add: upd_wq_def)

text \<open>The wait queue of an object nobody uses is set up or torn down.\<close>

lemma winv_wq_change:
  assumes W: "winv M" and un: "unused M w" and nr: "\<And>x. w \<noteq> RetcodeWQ x"
    and wq: "\<And>v. v \<noteq> w \<Longrightarrow> wait_queues (kern N) v = wait_queues (kern M) v" "wq_list (wait_queues (kern N) w) = []"
    and fr: "threads (kern N) = threads (kern M)" "live (kern N) = live (kern M)" "timers (kern N) = timers (kern M)"
      "conts N = conts M" "timed N = timed M"
    and o: "objects_ok N"
    and gv: "\<And>v. v \<noteq> w \<Longrightarrow> gate_value (kern N) v = gate_value (kern M) v \<and> gate_tokens N v = gate_tokens M v"
  shows "winv N" "\<And>v. v \<noteq> w \<Longrightarrow> active N v = active M v" "\<And>v. v \<noteq> w \<Longrightarrow> abs_gate v N = abs_gate v M"
    "gate_value (kern N) w = n \<Longrightarrow> gate_tokens N w = n \<Longrightarrow> abs_gate w N = fresh_gate n"
proof -
  note I = winvD [OF W]
  have wl: "wq_list (wait_queues (kern N) v) = wq_list (wait_queues (kern M) v)" for v
    using wq unused_empty [OF W un] by (cases "v = w") simp_all
  have ic: "in_call N = in_call M" by (simp add: in_call_def fr fun_eq_iff)
  have nb: "blocked_at (conts M x) = Some (v, to) \<Longrightarrow> v \<noteq> w" for x v to
    using un by (auto simp: unused_def in_call_def)
  have "cont_ok (kern N) (conts N x) x" for x
  proof -
    have "(case blocked_at (conts M x) of None \<Rightarrow> True
        | Some (v, _) \<Rightarrow> wq_magic (wait_queues (kern N) v) = wq_magic (wait_queues (kern M) v))"
      using nb [of x] wq(1) by (auto split: option.splits)
    then show ?thesis using I(2) [of x] unfolding cont_ok_def fr wl by (auto split: option.splits)
  qed
  moreover have "joins_ok N" using I(3) by (simp add: joins_ok_def ic fr wl)
  moreover have "join_ok (kern N)"
  proof -
    have "wait_queues (kern N) (RetcodeWQ x) = wait_queues (kern M) (RetcodeWQ x)" for x
      using wq(1) nr [of x] by auto
    then show ?thesis using I(1) by (simp add: join_ok_def fr)
  qed
  ultimately show "winv N" using I(4) o by (simp add: winv_def timed_ok_def fr)
  show "\<And>v. v \<noteq> w \<Longrightarrow> active N v = active M v" by (simp add: active_def wq)
  show "\<And>v. v \<noteq> w \<Longrightarrow> abs_gate v N = abs_gate v M" using gv by (simp add: abs_gate_def Let_def ic wl fr)
  show "gate_value (kern N) w = n \<Longrightarrow> gate_tokens N w = n \<Longrightarrow> abs_gate w N = fresh_gate n"
    using un wq(2) by (simp add: abs_gate_def fresh_gate_def Let_def ic unused_def)
qed

lemma inactive_unused: "winv M \<Longrightarrow> \<not> active M w \<Longrightarrow> unused M w"
  using cont_okD(5) [OF winvD(2)] by (fastforce simp: unused_def in_call_def active_def)

lemma step_init:
  assumes M: "minv M" and na: "\<not> active M w" and nr: "\<And>x. w \<noteq> RetcodeWQ x"
    and k: "kern N = wait_queue_init w s0"
    and fr: "threads s0 = threads (kern M)" "live s0 = live (kern M)" "timers s0 = timers (kern M)"
      "wait_queues s0 = wait_queues (kern M)" "sched_inv s0" "conts N = conts M" "timed N = timed M"
    and o: "objects_ok N"
    and gv: "\<And>v. v \<noteq> w \<Longrightarrow> gate_value (kern N) v = gate_value (kern M) v \<and> gate_tokens N v = gate_tokens M v"
      "gate_value (kern N) w = n" "gate_tokens N w = n" "0 \<le> n"
  shows "step_ok M (Some N)"
proof -
  note W = minvD(2) [OF M] and inv = minvD(1) [OF M]
  have un: "unused M w" by (rule inactive_unused [OF W na])
  have e: "wq_list (wait_queues s0 w) = []" using unused_empty [OF W un] by (simp add: fr)
  have inv': "sched_inv (kern N)" unfolding k wait_queue_init_def
    by (rule kinv_upd_wq_empty [OF fr(5) e]) (simp_all add: WAIT_QUEUE_INITIAL_VALUE_def)
  have c: "winv N" "\<And>v. v \<noteq> w \<Longrightarrow> active N v = active M v" "\<And>v. v \<noteq> w \<Longrightarrow> abs_gate v N = abs_gate v M"
      "abs_gate w N = fresh_gate n"
    by (rule winv_wq_change [OF W un nr];
        use fr o gv in \<open>simp add: k wait_queue_init_def WAIT_QUEUE_INITIAL_VALUE_def\<close>)+
  show ?thesis
  proof (rule step_okI [OF M inv' c(1)])
    show "sim M N"
    proof (rule simI)
      fix v assume "active M v"
      then have "v \<noteq> w" using na by auto
      then show "abs_gate v N = abs_gate v M \<or> gate_step (v \<in> timed N) (abs_gate v M) (abs_gate v N)"
        using c(3) by simp
    qed (simp add: fr)
    show "\<exists>n\<ge>0. abs_gate v N = fresh_gate n" if "active N v" "\<not> active M v" for v
      using c(2) [of v] c(4) that gv(4) by metis
  qed
qed

lemma step_destroy:
  assumes M: "minv M" and cb: "can_block M c" and ac: "active M w" and un: "unused M w" and nr: "\<And>x. w \<noteq> RetcodeWQ x"
    and fr: "threads s0 = threads (kern M)" "live s0 = live (kern M)" "timers s0 = timers (kern M)"
      "wait_queues s0 = wait_queues (kern M)" "sched_inv s0" "current_thread s0 = current_thread (kern M)"
    and o: "objects_ok (M\<lparr>kern := upd_wq w (\<lambda>q. q\<lparr>wq_magic := 0\<rparr>) s0\<rparr>)"
    and gv: "\<And>v. v \<noteq> w \<Longrightarrow> gate_value (upd_wq w (\<lambda>q. q\<lparr>wq_magic := 0\<rparr>) s0) v = gate_value (kern M) v"
  shows "step_ok M (with_kern (wait_queue_destroy w True c s0) M)"
proof -
  note W = minvD(2) [OF M]
  let ?f = "\<lambda>q. q\<lparr>wq_magic := 0\<rparr>"
  let ?M0 = "M\<lparr>kern := upd_wq w ?f s0\<rparr>"
  obtain t where t: "current_thread s0 c = Some t" "\<not> thread_is_idle (threads s0 t)"
    using cb fr by (auto simp: can_block_def)
  have e: "wq_list (wait_queues s0 w) = []" using unused_empty [OF W un] by (simp add: fr)
  have wm: "wq_magic (wait_queues s0 w) = WAIT_QUEUE_MAGIC" using ac by (simp add: active_def fr)
  obtain s1 where s1: "wait_queue_destroy w True c s0 = Some (upd_wq w ?f s1)" "sched_inv (upd_wq w ?f s1)" "shuffled c s0 s1"
    using wait_queue_destroy_ok [OF fr(5) t(1) wm, of True] t(2) e by auto
  have sw: "same_waits (kern ?M0) (upd_wq w ?f s1)"
    using shuffled_same_waits [OF s1(3)] unfolding same_waits_def by simp
  have c: "winv ?M0" "\<And>v. v \<noteq> w \<Longrightarrow> active ?M0 v = active M v" "\<And>v. v \<noteq> w \<Longrightarrow> abs_gate v ?M0 = abs_gate v M"
    by (rule winv_wq_change [OF W un nr];
        use fr o gv e gate_tokens_cong [of ?M0 M] in \<open>simp add: live_def fun_eq_iff\<close>)+
  have "step_ok M (Some (?M0\<lparr>kern := upd_wq w ?f s1\<rparr>))"
  proof (rule step_then_quiet [OF M c(1) _ _ sw s1(2)])
    fix v assume v: "active ?M0 v"
    have "v \<noteq> w" using v by (auto simp: active_def)
    then show "active M v \<and> (abs_gate v ?M0 = abs_gate v M \<or> gate_step (v \<in> timed ?M0) (abs_gate v M) (abs_gate v ?M0))"
      using v c(2,3) by simp
  qed simp
  then show ?thesis using s1(1) by (simp add: with_kern_def)
qed

lemma step_mutex_init:
  assumes M: "minv M" and k: "contract (MutexInit m) c M"
  shows "step_ok M (exec (MutexInit m) c M)"
proof -
  let ?s0 = "upd_mutex m (\<lambda>_. MUTEX_INITIAL_VALUE) (kern M)"
  let ?N = "M\<lparr>kern := mutex_init m (kern M), owns := (owns M)(m := {})\<rparr>"
  note o = winvD(5) [OF minvD(2) [OF M]]
  have "objects_ok ?N"
    using o by (auto simp: objects_ok_def active_def mutex_init_def wait_queue_init_def WAIT_QUEUE_INITIAL_VALUE_def
        MUTEX_INITIAL_VALUE_def event_initialized_def)
  moreover have "gate_value (kern ?N) v = gate_value (kern M) v \<and> gate_tokens ?N v = gate_tokens M v" if "v \<noteq> MutexWQ m" for v
    using that by (cases v) (auto simp: mutex_init_def wait_queue_init_def)
  ultimately have "step_ok M (Some ?N)"
    by (intro step_init [OF M, where w = "MutexWQ m" and ?s0.0 = ?s0 and n = 1])
      (use k minvD(1) [OF M] in \<open>simp_all add: mutex_init_def wait_queue_init_def MUTEX_INITIAL_VALUE_def\<close>)
  then show ?thesis by simp
qed

end
