(* ===== verification/Machine_Safe.thy ===== *)
theory Machine_Safe
  imports Machine_Calls
begin

text \<open>
  The remaining calls, on semaphores and events, and the safety of the machine: every call that
  respects its contract runs to its end and keeps the invariant.
\<close>

lemma step_mutex_destroy:
  assumes M: "minv M" and k: "contract (MutexDestroy m) c M"
  shows "step_ok M (exec (MutexDestroy m) c M)"
proof -
  let ?f = "\<lambda>x. x\<lparr>mx_magic := 0, mx_count := 0\<rparr>"
  let ?s0 = "upd_mutex m ?f (kern M)" and ?w = "MutexWQ m"
  note o = winvD(5) [OF minvD(2) [OF M]]
  have cb: "can_block M c" and un: "unused M ?w" and mg: "mx_magic (mutexes (kern M) m) = MUTEX_MAGIC"
    and h: "mx_holder (mutexes (kern M) m) \<in> {None, current_thread (kern M) c}"
    using k by simp_all
  have ac: "active M ?w" using o mg by (simp add: objects_ok_def)
  have "objects_ok (M\<lparr>kern := upd_wq ?w (\<lambda>q. q\<lparr>wq_magic := 0\<rparr>) ?s0\<rparr>)"
    using o by (auto simp: objects_ok_def active_def event_initialized_def)
  moreover have "gate_value (upd_wq ?w (\<lambda>q. q\<lparr>wq_magic := 0\<rparr>) ?s0) v = gate_value (kern M) v" if "v \<noteq> ?w" for v
    using that by (cases v) auto
  ultimately have "step_ok M (with_kern (wait_queue_destroy ?w True c ?s0) M)"
    by (intro step_destroy [OF M cb ac un]) (use minvD(1) [OF M] in simp_all)
  then show ?thesis using cb mg h by (auto simp: mutex_destroy_def can_block_def)
qed

section \<open>Semaphores\<close>

lemma winv_upd_sem:
  fixes i :: nat
  assumes W: "winv M"
  defines "N \<equiv> \<lambda>f a. M\<lparr>kern := upd_sem i f (kern M), avail := (avail M)(i := a)\<rparr>"
  shows "winv (N f a)" "active (N f a) = active M"
    "abs_gate v (N f a) = (if v = SemWQ i
       then (abs_gate v M)\<lparr>g_value := sem_count (f (semaphores (kern M) i)), g_tokens := a\<rparr> else abs_gate v M)"
proof -
  note I = winvD [OF W]
  show ac: "active (N f a) = active M" by (simp add: active_def N_def fun_eq_iff)
  have ic: "in_call (N f a) = in_call M" by (simp add: in_call_def N_def fun_eq_iff)
  have "cont_ok (kern (N f a)) (conts (N f a) x) x" for x using I(2) [of x] by (simp add: N_def)
  moreover have "joins_ok (N f a)" using I(3) unfolding joins_ok_def ic by (simp add: N_def)
  moreover have "objects_ok (N f a)"
    using I(5) unfolding objects_ok_def ac by (simp add: N_def event_initialized_def)
  ultimately show "winv (N f a)" using I(1,4) by (simp add: winv_def timed_ok_def N_def)
  show "abs_gate v (N f a) = (if v = SemWQ i
       then (abs_gate v M)\<lparr>g_value := sem_count (f (semaphores (kern M) i)), g_tokens := a\<rparr> else abs_gate v M)"
    by (cases v) (auto simp: abs_gate_def Let_def ic, auto simp: N_def)
qed

lemma sem_gate:
  "g_value (abs_gate (SemWQ i) M) = sem_count (semaphores (kern M) i)" "g_tokens (abs_gate (SemWQ i) M) = avail M i"
  "g_waiting (abs_gate (SemWQ i) M) = wq_list (wait_queues (kern M) (SemWQ i))"
  by (simp_all add: abs_gate_def Let_def)

lemma step_sem_take:
  assumes M: "minv M" and v: "sem_count (semaphores (kern M) i) \<ge> 1"
  shows "step_ok M (Some (put_back i (- 1) (M\<lparr>kern := upd_sem i (\<lambda>x. x\<lparr>sem_count := sem_count x - 1\<rparr>) (kern M)\<rparr>)))"
proof -
  let ?N = "M\<lparr>kern := upd_sem i (\<lambda>x. x\<lparr>sem_count := sem_count x - 1\<rparr>) (kern M), avail := (avail M)(i := avail M i - 1)\<rparr>"
  note u = winv_upd_sem [OF minvD(2) [OF M], where i = i and f = "\<lambda>x. x\<lparr>sem_count := sem_count x - 1\<rparr>" and a = "avail M i - 1"]
  have "step_ok M (Some ?N)"
  proof (rule step_gate [OF M, where w = "SemWQ i"])
    have "0 < g_value (abs_gate (SemWQ i) M)" using v by (simp add: sem_gate)
    from gate_step.take [OF this, of "SemWQ i \<in> timed M"]
    show "gate_step (SemWQ i \<in> timed M) (abs_gate (SemWQ i) M) (abs_gate (SemWQ i) ?N)"
      using u(3) by (simp add: sem_gate)
  qed (use u minvD(1) [OF M] in simp_all)
  then show ?thesis by (simp add: put_back_def)
qed

lemma step_sem_block:
  assumes M: "minv M" and cb: "can_block M c" and ac: "active M (SemWQ i)" and v: "sem_count (semaphores (kern M) i) \<le> 0"
    and k: "blocked_at k = Some (SemWQ i, timeout)" and t: "current_thread (kern M) c = Some t"
    and s': "sched_inv s'" "shuffled c s1 s'"
      "blocked_on (SemWQ i) t timeout (upd_sem i (\<lambda>x. x\<lparr>sem_count := sem_count x - 1\<rparr>) (kern M)) s1"
  shows "step_ok M (Some (block_as t k (M\<lparr>kern := s'\<rparr>)))"
proof -
  let ?f = "\<lambda>x. x\<lparr>sem_count := sem_count x - 1\<rparr>" and ?w = "SemWQ i"
  let ?M0 = "M\<lparr>kern := upd_sem i ?f (kern M)\<rparr>"
  obtain t' where t': "current_thread (kern M) c = Some t'" "conts M t' = Outside" "live (kern M) t'"
      "t_state (threads (kern M) t') = THREAD_RUNNING"
    by (rule can_blockE [OF M cb])
  have eq: "M\<lparr>kern := upd_sem i ?f (kern M), avail := (avail M)(i := avail M i)\<rparr> = ?M0" by simp
  note u = winv_upd_sem [OF minvD(2) [OF M], where i = i and f = ?f and a = "avail M i", unfolded eq]
  have "step_ok M (Some (block_as t k (?M0\<lparr>kern := s'\<rparr>)))"
  proof (rule step_block [OF M u(1) _ u(2) k])
    show "blocked_on ?w t timeout (kern ?M0) s1" using s'(3) by simp
    show "may_block ?M0 ?w t" using t t' ac u(2) by (simp add: may_block_def)
    show "\<And>v. is_gate v \<Longrightarrow> v \<noteq> ?w \<Longrightarrow> abs_gate v ?M0 = abs_gate v M" using u(3) by simp
    show "abs_gate ?w ?M0 = (abs_gate ?w M)\<lparr>g_value := g_value (abs_gate ?w M) - 1\<rparr>"
      using u(3) by (simp add: sem_gate)
    show "g_value (abs_gate ?w M) \<le> 0" using v by (simp add: sem_gate)
  qed (use s' in simp_all)
  then show ?thesis by simp
qed

lemma step_sem_wait:
  assumes M: "minv M" and k: "contract (SemWait i) c M"
  shows "step_ok M (exec (SemWait i) c M)"
proof -
  have cb: "can_block M c" and ac: "active M (SemWQ i)" using k by simp_all
  obtain t where t: "current_thread (kern M) c = Some t" "\<not> thread_is_idle (threads (kern M) t)"
    "tm_node (timers (kern M) (StackTimer t)) = None"
    by (rule can_blockE [OF M cb])
  note r = sem_wait_ok [OF minvD(1) [OF M] t ac [unfolded active_def]]
  show ?thesis
  proof (cases "sem_count (semaphores (kern M) i) \<ge> 1")
    case True
    then show ?thesis using r t(1) step_sem_take [OF M True] by simp
  next
    case False
    then obtain s1 s' where s': "sem_wait i c (kern M) = Some (Switches, s')" "sched_inv s'" "shuffled c s1 s'"
        "blocked_on (SemWQ i) t INFINITE_TIME (upd_sem i (\<lambda>x. x\<lparr>sem_count := sem_count x - 1\<rparr>) (kern M)) s1"
      using r by auto
    show ?thesis
      using step_sem_block [OF M cb ac _ _ t(1) s'(2-4), of "BlockedSemWait i"] False s'(1) t(1) by simp
  qed
qed

lemma step_sem_timedwait:
  assumes M: "minv M" and k: "contract (SemTimedwait i timeout) c M"
  shows "step_ok M (exec (SemTimedwait i timeout) c M)"
proof -
  have cb: "can_block M c" and ac: "active M (SemWQ i)" using k by simp_all
  obtain t where t: "current_thread (kern M) c = Some t" "\<not> thread_is_idle (threads (kern M) t)"
    "tm_node (timers (kern M) (StackTimer t)) = None"
    by (rule can_blockE [OF M cb])
  note r = sem_timedwait_ok [OF minvD(1) [OF M] t ac [unfolded active_def], of timeout]
  consider (free) "sem_count (semaphores (kern M) i) \<ge> 1" | (now) "sem_count (semaphores (kern M) i) < 1" "timeout = 0"
    | (wait) "sem_count (semaphores (kern M) i) < 1" "timeout \<noteq> 0" by linarith
  then show ?thesis
  proof cases
    case free
    then show ?thesis using r t(1) step_sem_take [OF M free] by simp
  next
    case now
    then show ?thesis using r t(1) M by (simp add: step_ok_def)
  next
    case wait
    then obtain s1 s' where s': "sem_timedwait i timeout c (kern M) = Some (Switches, s')" "sched_inv s'" "shuffled c s1 s'"
        "blocked_on (SemWQ i) t timeout (upd_sem i (\<lambda>x. x\<lparr>sem_count := sem_count x - 1\<rparr>) (kern M)) s1"
      using r by auto
    show ?thesis
      using step_sem_block [OF M cb ac _ _ t(1) s'(2-4), of "Blocked (SemWQ i) timeout"] wait s'(1) t(1) by simp
  qed
qed

lemma step_sem_trywait:
  assumes M: "minv M"
  shows "step_ok M (exec (SemTrywait i) c M)"
proof (cases "sem_count (semaphores (kern M) i) \<ge> 1")
  case True
  then show ?thesis using step_sem_take [OF M True] by (simp add: sem_trywait_def)
next
  case False
  then show ?thesis using M by (simp add: sem_trywait_def step_ok_def)
qed

lemma step_sem_post:
  assumes M: "minv M" and k: "contract (SemPost i resched) c M"
  shows "step_ok M (exec (SemPost i resched) c M)"
proof -
  let ?w = "SemWQ i" and ?f = "\<lambda>x. x\<lparr>sem_count := sem_count x + 1\<rparr>"
  let ?M0 = "M\<lparr>kern := upd_sem i ?f (kern M), avail := (avail M)(i := avail M i + 1)\<rparr>"
  have ac: "active M ?w" using k by simp
  obtain t where t: "current_thread (kern M) c = Some t" "resched \<Longrightarrow> \<not> thread_is_idle (threads (kern M) t)"
    using k by (auto simp: can_block_def split: if_splits)
  note r = sem_post_ok [OF minvD(1) [OF M] t ac [unfolded active_def]]
  note u = winv_upd_sem [OF minvD(2) [OF M], where i = i and f = ?f and a = "avail M i + 1"]
  have g0: "abs_gate ?w ?M0 = (abs_gate ?w M)\<lparr>g_value := g_value (abs_gate ?w M) + 1, g_tokens := g_tokens (abs_gate ?w M) + 1\<rparr>"
    using u(3) by (simp add: sem_gate)
  show ?thesis
  proof (cases "sem_count (semaphores (kern M) i) \<ge> 0 \<or> wq_list (wait_queues (kern M) ?w) = []")
    case True
    have "step_ok M (Some ?M0)"
    proof (rule step_gate [OF M, where w = ?w])
      show "gate_step (?w \<in> timed M) (abs_gate ?w M) (abs_gate ?w ?M0)"
        unfolding g0 by (rule gate_step.put) (use True in \<open>auto simp: sem_gate\<close>)
    qed (use u minvD(1) [OF M] in simp_all)
    then show ?thesis using r True by (simp add: put_back_def)
  next
    case False
    then obtain s' where s': "sem_post i resched c (kern M) = Some (1, s')" "sched_inv s'"
        "shuffled c (wq_take ?w (hd (wq_list (wait_queues (kern M) ?w))) NO_ERROR (upd_sem i ?f (kern M))) s'"
      using r by auto
    have "step_ok M (Some (?M0\<lparr>kern := s'\<rparr>))"
      by (rule step_wake [OF M u(1) _ u(2) _ _ _ g0 _ _ _ _ s'(2)]) (use s'(3) u(3) False in \<open>simp_all add: sem_gate\<close>)
    then show ?thesis using s'(1) by (simp add: put_back_def)
  qed
qed

lemma continue_sem:
  assumes M: "minv M" and cur: "current_thread (kern M) c = Some t" and b: "blocked_at (conts M t) = Some (SemWQ i, timeout)"
    and e: "continue c M = (case sem_timedwait_resume i timeout c (kern M) of None \<Rightarrow> None
        | Some (ret, s) \<Rightarrow> Some ((if ret = NO_ERROR then put_back i (- 1) else id)
                                  (M\<lparr>kern := s, conts := (conts M)(t := Outside)\<rparr>)))"
  shows "step_ok M (continue c M)"
proof -
  note W = minvD(2) [OF M] and inv = minvD(1) [OF M] and r = blocked_runs [OF M cur b]
  let ?w = "SemWQ i" and ?ret = "t_wait_queue_block_ret (threads (kern M) t)" and ?f = "\<lambda>x. x\<lparr>sem_count := sem_count x + 1\<rparr>"
  obtain s1 where s1: "sem_timedwait_resume i timeout c (kern M) = Some (?ret, if ?ret = ERR_TIMED_OUT then upd_sem i ?f s1 else s1)"
      "sched_inv s1" "timer_sys.more s1 = timer_sys.more (kern M)"
      "\<forall>x. x \<noteq> StackTimer t \<longrightarrow> timers s1 x = timers (kern M) x" "tm_node (timers s1 (StackTimer t)) = None"
    using sem_timedwait_resume_ok [OF inv cur r(4,5), where i = i] by blast
  let ?M1 = "M\<lparr>kern := s1, conts := (conts M)(t := Outside)\<rparr>"
  note w1 = winv_return [OF W inv cur s1(3,4,5)]
  have se: "semaphores s1 = semaphores (kern M)" by (rule sync_more(2) [OF kernel_more(13) [OF s1(3)]])
  have g1: "v \<noteq> ?w \<Longrightarrow> abs_gate v ?M1 = abs_gate v M" for v
    using in_call_unique [OF r(3), of v] granted_iff [of t v M] unfolding w1(2) by auto
  consider (ok) "?ret = NO_ERROR" | (out) "?ret = ERR_TIMED_OUT" "?w \<in> timed M" using r(6) by auto
  then show ?thesis
  proof cases
    case ok
    have gr: "t \<in> g_granted (abs_gate ?w M)" "t \<notin> g_expired (abs_gate ?w M)" using r(1,3) ok by (simp_all add: granted_iff)
    note u = winv_upd_sem [OF w1(1), where i = i and f = "\<lambda>x. x" and a = "avail M i - 1"]
    let ?N = "?M1\<lparr>kern := upd_sem i (\<lambda>x. x) (kern ?M1), avail := (avail ?M1)(i := avail M i - 1)\<rparr>"
    have gN: "abs_gate ?w ?N = (abs_gate ?w M)\<lparr>g_tokens := g_tokens (abs_gate ?w M) - 1,
        g_granted := g_granted (abs_gate ?w M) - {t}\<rparr>"
      by (rule gate.equality) (use u(3) w1(2) gr(2) se in \<open>simp_all add: sem_gate\<close>)
    have "step_ok M (Some ?N)"
    proof (rule step_gate [OF M, where w = ?w])
      show "gate_step (?w \<in> timed M) (abs_gate ?w M) (abs_gate ?w ?N)"
        unfolding gN by (rule gate_step.proceed [OF gr(1)])
      show "\<And>v. is_gate v \<Longrightarrow> v \<noteq> ?w \<Longrightarrow> abs_gate v ?N = abs_gate v M" using u(3) g1 by simp
    qed (use u w1 s1(2) in simp_all)
    moreover have "upd_sem i (\<lambda>x. x) s1 = s1" by (rule upd_sync_id(2)) simp
    ultimately show ?thesis using s1(1) ok by (simp add: e put_back_def)
  next
    case out
    have gr: "t \<in> g_expired (abs_gate ?w M)" "t \<notin> g_granted (abs_gate ?w M)" using r(1,3) out by (simp_all add: granted_iff)
    let ?N = "?M1\<lparr>kern := upd_sem i ?f (kern ?M1), avail := (avail ?M1)(i := avail M i)\<rparr>"
    note u = winv_upd_sem [OF w1(1), where i = i and f = ?f and a = "avail M i"]
    have gN: "abs_gate ?w ?N = (abs_gate ?w M)\<lparr>g_value := g_value (abs_gate ?w M) + 1,
        g_expired := g_expired (abs_gate ?w M) - {t}\<rparr>"
      by (rule gate.equality) (use u(3) w1(2) gr(2) se in \<open>simp_all add: sem_gate\<close>)
    have "step_ok M (Some ?N)"
    proof (rule step_gate [OF M, where w = ?w])
      show "gate_step (?w \<in> timed M) (abs_gate ?w M) (abs_gate ?w ?N)"
        unfolding gN by (rule gate_step.back_out [OF out(2) gr(1)])
      show "\<And>v. is_gate v \<Longrightarrow> v \<noteq> ?w \<Longrightarrow> abs_gate v ?N = abs_gate v M" using u(3) g1 by simp
    qed (use u w1 s1(2) in simp_all)
    then show ?thesis using s1(1) out by (simp add: e)
  qed
qed

lemma sem_wait_resume_timed:
  assumes "current_thread s c = Some t" and "t_wait_queue_block_ret (threads s t) \<noteq> ERR_TIMED_OUT"
  shows "sem_wait_resume i c s = sem_timedwait_resume i INFINITE_TIME c s"
  using assms by (simp add: sem_wait_resume_def sem_timedwait_resume_def sem_timedwait_finish_def wait_queue_block_resume_def)

lemma step_sem_init:
  assumes M: "minv M" and k: "contract (SemInit i value) c M"
  shows "step_ok M (exec (SemInit i value) c M)"
proof -
  let ?s0 = "upd_sem i (\<lambda>_. SEMAPHORE_INITIAL_VALUE value) (kern M)"
  let ?N = "M\<lparr>kern := sem_init i value (kern M), avail := (avail M)(i := sint value)\<rparr>"
  note o = winvD(5) [OF minvD(2) [OF M]]
  have "objects_ok ?N"
    using o by (auto simp: objects_ok_def active_def sem_init_def wait_queue_init_def event_initialized_def)
  moreover have "gate_value (kern ?N) v = gate_value (kern M) v \<and> gate_tokens ?N v = gate_tokens M v" if "v \<noteq> SemWQ i" for v
    using that by (cases v) (auto simp: sem_init_def wait_queue_init_def)
  ultimately have "step_ok M (Some ?N)"
    by (intro step_init [OF M, where w = "SemWQ i" and ?s0.0 = ?s0 and n = "sint value"])
      (use k minvD(1) [OF M] in \<open>simp_all add: sem_init_def wait_queue_init_def SEMAPHORE_INITIAL_VALUE_def\<close>)
  then show ?thesis by simp
qed

lemma step_sem_destroy:
  assumes M: "minv M" and k: "contract (SemDestroy i) c M"
  shows "step_ok M (exec (SemDestroy i) c M)"
proof -
  let ?s0 = "upd_sem i (\<lambda>x. x\<lparr>sem_count := 0\<rparr>) (kern M)" and ?w = "SemWQ i"
  note o = winvD(5) [OF minvD(2) [OF M]]
  have "objects_ok (M\<lparr>kern := upd_wq ?w (\<lambda>q. q\<lparr>wq_magic := 0\<rparr>) ?s0\<rparr>)"
    using o by (auto simp: objects_ok_def active_def event_initialized_def)
  moreover have "gate_value (upd_wq ?w (\<lambda>q. q\<lparr>wq_magic := 0\<rparr>) ?s0) v = gate_value (kern M) v" if "v \<noteq> ?w" for v
    using that by (cases v) auto
  ultimately have "step_ok M (with_kern (wait_queue_destroy ?w True c ?s0) M)"
    by (intro step_destroy [OF M]) (use k minvD(1) [OF M] in simp_all)
  then show ?thesis by (simp add: sem_destroy_def)
qed

section \<open>Events\<close>

lemma winv_upd_event:
  assumes W: "winv M" and f: "ev_magic (f (events (kern M) e)) = ev_magic (events (kern M) e)"
    "ev_signaled (f (events (kern M) e)) \<Longrightarrow> wq_list (wait_queues (kern M) (EventWQ e)) = []"
  shows "winv (M\<lparr>kern := upd_event e f (kern M)\<rparr>)" "active (M\<lparr>kern := upd_event e f (kern M)\<rparr>) = active M"
    "abs_gate v (M\<lparr>kern := upd_event e f (kern M)\<rparr>) = abs_gate v M"
proof -
  note I = winvD [OF W]
  let ?N = "M\<lparr>kern := upd_event e f (kern M)\<rparr>"
  show ac: "active ?N = active M" by (simp add: active_def fun_eq_iff)
  have "cont_ok (kern ?N) (conts ?N x) x" for x using I(2) [of x] by simp
  moreover have "joins_ok ?N" using I(3) by (simp add: joins_ok_def)
  moreover have "objects_ok ?N" using I(5) f unfolding objects_ok_def ac by (auto simp: event_initialized_def)
  ultimately show "winv ?N" using I(1,4) by (simp add: winv_def timed_ok_def)
  show "abs_gate v ?N = abs_gate v M" by (cases v) (simp_all add: abs_gate_def Let_def)
qed

lemma step_event_upd:
  assumes M: "minv M" and f: "ev_magic (f (events (kern M) e)) = ev_magic (events (kern M) e)"
    "ev_signaled (f (events (kern M) e)) \<Longrightarrow> wq_list (wait_queues (kern M) (EventWQ e)) = []"
  shows "step_ok M (Some (M\<lparr>kern := upd_event e f (kern M)\<rparr>))"
proof -
  let ?N = "M\<lparr>kern := upd_event e f (kern M)\<rparr>"
  note u = winv_upd_event [where f = f and e = e, OF minvD(2) [OF M] f]
  have "step_ok M (Some (?N\<lparr>kern := kern ?N\<rparr>))"
    by (rule step_then_quiet [OF M u(1)]) (use u minvD(1) [OF M] in simp_all)
  then show ?thesis by simp
qed

lemma event_active: "minv M \<Longrightarrow> event_initialized e (kern M) \<Longrightarrow> active M (EventWQ e)"
  using winvD(5) [OF minvD(2)] by (simp add: objects_ok_def)

lemma step_event_wait:
  assumes M: "minv M" and k: "contract (EventWait e timeout) c M"
  shows "step_ok M (exec (EventWait e timeout) c M)"
proof -
  have cb: "can_block M c" and ei: "event_initialized e (kern M)" using k by simp_all
  note ac = event_active [OF M ei] and W = minvD(2) [OF M]
  obtain t where t: "current_thread (kern M) c = Some t" "conts M t = Outside" "\<not> thread_is_idle (threads (kern M) t)"
    "tm_node (timers (kern M) (StackTimer t)) = None" "live (kern M) t" "t_state (threads (kern M) t) = THREAD_RUNNING"
    by (rule can_blockE [OF M cb])
  note r = event_wait_timeout_ok [OF minvD(1) [OF M] t(1,3,4) ei [unfolded event_initialized_def]
      ac [unfolded active_def], of timeout]
  consider (sig) "ev_signaled (events (kern M) e)" | (now) "\<not> ev_signaled (events (kern M) e)" "timeout = 0"
    | (wait) "\<not> ev_signaled (events (kern M) e)" "timeout \<noteq> 0" by blast
  then show ?thesis
  proof cases
    case sig
    have "step_ok M (Some M)" using M by (simp add: step_ok_def)
    then show ?thesis using r sig t(1) step_event_upd [OF M, where f = "\<lambda>x. x\<lparr>ev_signaled := False\<rparr>" and e = e] by simp
  next
    case now
    then show ?thesis using r t(1) M by (simp add: step_ok_def)
  next
    case wait
    then obtain s1 s' where s': "event_wait_timeout e timeout c (kern M) = Some (Switches, s')" "sched_inv s'"
        "blocked_on (EventWQ e) t timeout (kern M) s1" "shuffled c s1 s'"
      using r by auto
    have "step_ok M (Some (block_as t (Blocked (EventWQ e) timeout) (M\<lparr>kern := s'\<rparr>)))"
      by (rule step_block [OF M W _ _ _ _ s'(3,4,2)]) (use wait t ac in \<open>simp_all add: may_block_def\<close>)
    then show ?thesis using s'(1) t(1) by simp
  qed
qed

lemma wq_take_upd_event: "wq_take w t err (upd_event e f s) = upd_event e f (wq_take w t err s)"
  by (simp add: wq_take_def upd_event_def upd_thread_def upd_wq_def)

lemma wq_take_list_upd_event:
  "wq_take_list w ts err (upd_event e f s) = upd_event e f (wq_take_list w ts err s)"
  by (induction ts arbitrary: s) (simp_all add: wq_take_upd_event)

lemma step_event_signal:
  assumes M: "minv M" and k: "contract (EventSignal e resched) c M"
  shows "step_ok M (exec (EventSignal e resched) c M)"
proof -
  let ?w = "EventWQ e" and ?sig = "\<lambda>x. x\<lparr>ev_signaled := True\<rparr>"
  let ?ws = "wq_list (wait_queues (kern M) ?w)"
  have ei: "event_initialized e (kern M)" using k by simp
  note ac = event_active [OF M ei] and W = minvD(2) [OF M] and inv = minvD(1) [OF M]
  obtain t where t: "current_thread (kern M) c = Some t" "resched \<Longrightarrow> \<not> thread_is_idle (threads (kern M) t)"
    using k by (auto simp: can_block_def split: if_splits)
  note r = event_signal_ok [OF inv t ei [unfolded event_initialized_def] ac [unfolded active_def]]
  have bl: "x \<in> set ?ws \<Longrightarrow> t_state (threads (kern M) x) = THREAD_BLOCKED" for x by (rule waitingD(2) [OF inv])
  consider (set) "ev_signaled (events (kern M) e)"
    | (auto0) "\<not> ev_signaled (events (kern M) e)" "ev_flags (events (kern M) e) AND EVENT_FLAG_AUTOUNSIGNAL \<noteq> 0" "?ws = []"
    | (auto1) "\<not> ev_signaled (events (kern M) e)" "ev_flags (events (kern M) e) AND EVENT_FLAG_AUTOUNSIGNAL \<noteq> 0" "?ws \<noteq> []"
    | (all) "\<not> ev_signaled (events (kern M) e)" "ev_flags (events (kern M) e) AND EVENT_FLAG_AUTOUNSIGNAL = 0" by blast
  then show ?thesis
  proof cases
    case set
    then show ?thesis using r M by (simp add: step_ok_def with_kern_def)
  next
    case auto0
    then show ?thesis using r step_event_upd [OF M, where f = ?sig and e = e] by (simp add: with_kern_def)
  next
    case auto1
    then obtain s' where s': "event_signal e resched c (kern M) = Some (NO_ERROR, s')" "sched_inv s'"
        "shuffled c (wq_take ?w (hd ?ws) NO_ERROR (kern M)) s'"
      using r by auto
    let ?N = "M\<lparr>kern := wq_take ?w (hd ?ws) NO_ERROR (kern M)\<rparr>"
    have u: "hd ?ws \<in> set ?ws" using auto1 by simp
    have d: "distinct ?ws" using kinvD(1) [OF inv] by (simp add: queues_ok_def)
    have WN: "winv ?N" by (rule winv_wq_take [OF W u bl [OF u] d]) (simp add: wakes_def)
    have "step_ok M (Some (?N\<lparr>kern := s'\<rparr>))"
    proof (rule step_then_quiet [OF M WN])
      show "same_waits (kern ?N) s'" using shuffled_same_waits [OF s'(3)] by simp
      fix v assume "is_gate v" "active ?N v"
      then show "active M v \<and> (abs_gate v ?N = abs_gate v M \<or> gate_step (v \<in> timed ?N) (abs_gate v M) (abs_gate v ?N))"
        using abs_gate_wq_take [OF W u d, where v = v and err = NO_ERROR] active_wq_take [where M = M and v = v] by auto
    qed (use s'(2) in simp_all)
    then show ?thesis using s'(1) by (simp add: with_kern_def)
  next
    case all
    let ?s1 = "wq_take_list ?w ?ws NO_ERROR (kern M)"
    obtain s' where s': "event_signal e resched c (kern M) = Some (NO_ERROR, s')" "sched_inv s'"
        "shuffled c (upd_event e ?sig ?s1) s'"
      using r all by (auto simp: wq_take_list_upd_event)
    have e1: "wq_list (wait_queues ?s1 ?w) = []" by (rule wq_take_list_empties) simp
    have th: "t_wait_queue_block_ret (threads ?s1 x) = (if x \<in> set ?ws then NO_ERROR
               else t_wait_queue_block_ret (threads (kern M) x))" for x
      using wq_take_list_woken(1) [of x ?ws ?w NO_ERROR "kern M"] by (cases "x \<in> set ?ws") simp_all
    have st: "t_state (threads ?s1 x) = THREAD_DEATH \<longleftrightarrow> t_state (threads (kern M) x) = THREAD_DEATH \<or> ?w = RetcodeWQ x" for x
      using wq_take_list_woken(2) [of x ?ws ?w NO_ERROR "kern M"] bl [of x] by (cases "x \<in> set ?ws") simp_all
    have wl: "wq_list (wait_queues ?s1 v) = (if v = ?w then [] else wq_list (wait_queues (kern M) v))" for v
      using e1 by (cases "v = ?w") simp_all
    let ?M1 = "M\<lparr>kern := ?s1\<rparr>"
    have g: "winv ?M1" "active ?M1 = active M" "\<And>v. is_gate v \<Longrightarrow> abs_gate v ?M1 = abs_gate v M"
      by (rule winv_wake_all [OF W, where w = ?w]; use th st wl in simp)+
    note u = winv_upd_event [where f = ?sig and e = e, OF g(1)]
    let ?N = "?M1\<lparr>kern := upd_event e ?sig (kern ?M1)\<rparr>"
    have "step_ok M (Some (?N\<lparr>kern := s'\<rparr>))"
    proof (rule step_then_quiet [OF M])
      show "winv ?N" using u(1) e1 by simp
      show "same_waits (kern ?N) s'" using shuffled_same_waits [OF s'(3)] by simp
      show "\<And>w. is_gate w \<Longrightarrow> active ?N w \<Longrightarrow> active M w \<and>
          (abs_gate w ?N = abs_gate w M \<or> gate_step (w \<in> timed ?N) (abs_gate w M) (abs_gate w ?N))"
        using u(2,3) g(2,3) e1 by simp
    qed (use s'(2) in simp_all)
    then show ?thesis using s'(1) by (simp add: with_kern_def)
  qed
qed

lemma step_event_unsignal:
  assumes M: "minv M" and k: "contract (EventUnsignal e) c M"
  shows "step_ok M (exec (EventUnsignal e) c M)"
  using step_event_upd [OF M, where f = "\<lambda>x. x\<lparr>ev_signaled := False\<rparr>" and e = e] k
  by (simp add: event_unsignal_def event_initialized_def with_kern_def)

lemma step_event_init:
  assumes M: "minv M" and k: "contract (EventInit e initial flags) c M"
  shows "step_ok M (exec (EventInit e initial flags) c M)"
proof -
  let ?s0 = "upd_event e (\<lambda>_. EVENT_INITIAL_VALUE initial flags) (kern M)"
  let ?N = "M\<lparr>kern := event_init e initial flags (kern M)\<rparr>"
  note o = winvD(5) [OF minvD(2) [OF M]]
  have "objects_ok ?N"
    using o by (auto simp: objects_ok_def active_def event_init_def wait_queue_init_def WAIT_QUEUE_INITIAL_VALUE_def
        EVENT_INITIAL_VALUE_def event_initialized_def)
  moreover have "gate_value (kern ?N) v = gate_value (kern M) v \<and> gate_tokens ?N v = gate_tokens M v" for v
    by (cases v) (auto simp: event_init_def wait_queue_init_def)
  ultimately have "step_ok M (Some ?N)"
    by (intro step_init [OF M, where w = "EventWQ e" and ?s0.0 = ?s0 and n = 0])
      (use k minvD(1) [OF M] in \<open>simp_all add: event_init_def wait_queue_init_def\<close>)
  then show ?thesis by simp
qed

lemma step_event_destroy:
  assumes M: "minv M" and k: "contract (EventDestroy e) c M"
  shows "step_ok M (exec (EventDestroy e) c M)"
proof -
  let ?f = "\<lambda>x. x\<lparr>ev_magic := 0, ev_signaled := False, ev_flags := 0\<rparr>"
  let ?s0 = "upd_event e ?f (kern M)" and ?w = "EventWQ e"
  note o = winvD(5) [OF minvD(2) [OF M]]
  have ei: "event_initialized e (kern M)" and cb: "can_block M c" and un: "unused M ?w" using k by simp_all
  note ac = event_active [OF M ei]
  have "objects_ok (M\<lparr>kern := upd_wq ?w (\<lambda>q. q\<lparr>wq_magic := 0\<rparr>) ?s0\<rparr>)"
    using o by (auto simp: objects_ok_def active_def event_initialized_def)
  moreover have "gate_value (upd_wq ?w (\<lambda>q. q\<lparr>wq_magic := 0\<rparr>) ?s0) v = gate_value (kern M) v" for v
    by (cases v) auto
  ultimately have "step_ok M (with_kern (wait_queue_destroy ?w True c ?s0) M)"
    by (intro step_destroy [OF M cb ac un]) (use minvD(1) [OF M] in simp_all)
  then show ?thesis using ei by (simp add: event_destroy_def event_initialized_def)
qed

section \<open>Safety\<close>

lemma step_continue:
  assumes M: "minv M" and k: "contract Continue c M"
  shows "step_ok M (exec Continue c M)"
proof -
  obtain t where cur: "current_thread (kern M) c = Some t" and n: "conts M t \<noteq> Outside" using k by auto
  show ?thesis
  proof (cases "conts M t")
    case Asleep
    then show ?thesis using continue_asleep [OF M cur] by simp
  next
    case (BlockedSemWait i)
    then have b: "blocked_at (conts M t) = Some (SemWQ i, INFINITE_TIME)" by simp
    have "t_wait_queue_block_ret (threads (kern M) t) \<noteq> ERR_TIMED_OUT"
      using cont_okD(8) [OF winvD(2) [OF minvD(2) [OF M]] b blocked_runs(1) [OF M cur b]] by auto
    note e = sem_wait_resume_timed [OF cur this]
    have "continue c M = (case sem_timedwait_resume i INFINITE_TIME c (kern M) of None \<Rightarrow> None
        | Some (ret, s) \<Rightarrow> Some ((if ret = NO_ERROR then put_back i (- 1) else id)
                                  (M\<lparr>kern := s, conts := (conts M)(t := Outside)\<rparr>)))"
      using cur BlockedSemWait by (auto simp: continue_def e Let_def split: option.splits)
    from continue_sem [OF M cur b this] show ?thesis by simp
  next
    case (Blocked w timeout)
    then have b: "blocked_at (conts M t) = Some (w, timeout)" by simp
    show ?thesis
    proof (cases w)
      case (RetcodeWQ x)
      then show ?thesis using continue_join [OF M cur] Blocked by simp
    next
      case (MutexWQ m)
      then show ?thesis using continue_mutex [OF M cur] Blocked by simp
    next
      case (SemWQ i)
      have "continue c M = (case sem_timedwait_resume i timeout c (kern M) of None \<Rightarrow> None
        | Some (ret, s) \<Rightarrow> Some ((if ret = NO_ERROR then put_back i (- 1) else id)
                                  (M\<lparr>kern := s, conts := (conts M)(t := Outside)\<rparr>)))"
        using cur Blocked SemWQ by (auto simp: continue_def Let_def split: option.splits)
      from continue_sem [OF M cur b [unfolded SemWQ] this] show ?thesis by simp
    next
      case (EventWQ e)
      have "continue c M = (case wait_queue_block_resume timeout c (kern M) of None \<Rightarrow> None
        | Some (_, s) \<Rightarrow> Some (M\<lparr>kern := s, conts := (conts M)(t := Outside)\<rparr>))"
        using cur Blocked EventWQ by (auto simp: continue_def event_wait_timeout_resume_def Let_def split: option.splits)
      from continue_wait [OF M cur b _ this] EventWQ show ?thesis by simp
    next
      case (WQ n)
      have "continue c M = (case wait_queue_block_resume timeout c (kern M) of None \<Rightarrow> None
        | Some (_, s) \<Rightarrow> Some (M\<lparr>kern := s, conts := (conts M)(t := Outside)\<rparr>))"
        using cur Blocked WQ by (auto simp: continue_def Let_def split: option.splits)
      from continue_wait [OF M cur b _ this] WQ show ?thesis by simp
    qed
  qed (use n in simp)
qed

lemmas step_oks = step_yield step_preempt step_set_priority step_set_real_time step_sleep step_clock step_tick
  step_cpu_init step_cpu_entry step_create step_resume step_exit step_detach step_join step_continue step_mutex_init step_mutex_destroy
  step_mutex_acquire step_mutex_release step_sem_init step_sem_destroy step_sem_post step_sem_wait
  step_sem_trywait step_sem_timedwait step_event_init step_event_destroy step_event_wait step_event_signal
  step_event_unsignal

lemma exec_ok:
  assumes "minv M" and "contract call c M"
  shows "step_ok M (exec call c M)"
  by (cases call) (use assms in \<open>simp_all only: step_oks\<close>)

text \<open>
  The machine after boot: the boot cpu has brought up the scheduler, no object is initialised, every
  thread is outside of any call.
\<close>

definition sync_bss :: sync where
  "sync_bss = bss (sync.fields (\<lambda>_. \<lparr>mx_magic = 0, mx_holder = None, mx_count = 0\<rparr>)
     (\<lambda>_. \<lparr>sem_magic = 0, sem_count = 0\<rparr>) (\<lambda>_. \<lparr>ev_magic = 0, ev_signaled = False, ev_flags = 0\<rparr>))"

definition boot_machine :: "sync \<Rightarrow> machine" where
  "boot_machine s = \<lparr>kern = s, conts = (\<lambda>_. Outside), owns = (\<lambda>_. {}), avail = (\<lambda>_. 0), timed = {}\<rparr>"

inductive reachable :: "machine \<Rightarrow> bool" where
  boot: "lk_main (Suc k) entry stack_size (Some (Thread n)) (Some st) sync_bss = Some s \<Longrightarrow> reachable (boot_machine s)"
| call: "reachable M \<Longrightarrow> contract c cpu M \<Longrightarrow> exec c cpu M = Some N \<Longrightarrow> reachable N"

lemma boot_machine_inv:
  assumes "lk_main (Suc k) entry stack_size (Some (Thread n)) (Some st) sync_bss = Some s"
  shows "minv (boot_machine s)"
proof -
  have "sync_bss = bss (kernel.more sync_bss)" by (simp add: sync_bss_def bss_def)
  then have b: "booted n (kernel.more sync_bss) s"
    using lk_main_ok [of "Suc k" entry stack_size n st "kernel.more sync_bss"] assms by auto
  have mo: "kernel.more s = kernel.more sync_bss" using b by (simp add: booted_def)
  have z: "mutexes s = (\<lambda>_. \<lparr>mx_magic = 0, mx_holder = None, mx_count = 0\<rparr>)"
      "events s = (\<lambda>_. \<lparr>ev_magic = 0, ev_signaled = False, ev_flags = 0\<rparr>)"
    using sync_more [OF mo] by (simp_all add: sync_bss_def bss_def sync.defs)
  have na: "active (boot_machine s) w \<Longrightarrow> \<exists>t. w = RetcodeWQ t" for w
    using b by (simp add: booted_def active_def boot_machine_def)
  then have na': "\<not> active (boot_machine s) (MutexWQ m)" "is_gate w \<Longrightarrow> \<not> active (boot_machine s) w" for m w
    by fastforce+
  have "winv (boot_machine s)"
    using b z na'(1) by (simp add: winv_def boot_machine_def booted_def cont_ok_def joins_ok_def in_call_def timed_ok_def
        objects_ok_def event_initialized_def)
  moreover have "gates_ok (boot_machine s)" using na'(2) by (auto simp: gates_ok_def)
  ultimately show ?thesis using b by (simp add: minv_def booted_def boot_machine_def)
qed

lemma reachable_minv: "reachable M \<Longrightarrow> minv M"
proof (induction rule: reachable.induct)
  case (boot k entry stack_size n st s)
  then show ?case by (rule boot_machine_inv)
next
  case (call M c cpu N)
  then show ?case using exec_ok [of M c cpu] by (simp add: step_ok_def)
qed

end
