(* ===== verification/Scenario.thy ===== *)
theory Scenario
  imports Machine_Safe
begin

text \<open>
  A state in the middle of a race, written out: cpu 0 runs thread 0, the holder of mutex 0; thread 1 has
  waited for the mutex, its timeout has run out and the timer interrupt has put it back on the run queue,
  but it has not run since, so that it is still counted in the mutex. The state satisfies the invariant of
  the machine.

  The theorem on top shows what the window between a timeout and the timed-out thread's next turn does: a
  release in it wakes nobody, and the next thread that wants the free mutex waits for it all the same, with
  nobody left to wake it.
\<close>

definition race_state :: sync where
  "race_state = \<lparr>
     timers = (\<lambda>_. zero_timer)(PreemptTimer 0 := \<lparr>tm_magic = TIMER_MAGIC, tm_node = Some 0, tm_scheduled_time = 10,
       tm_periodic_time = 10, tm_callback = Some CB_thread_timer_tick\<rparr>, StackTimer (Thread 1) := TIMER_INITIAL_VALUE),
     timer_queue = (\<lambda>_. [])(0 := [PreemptTimer 0]), hw_timer = [0 \<mapsto> 10], current_time = 5,
     threads = (\<lambda>_. zero_thread)
       (IdleThread 0 := zero_thread\<lparr>t_magic := THREAD_MAGIC, t_priority := IDLE_PRIORITY, t_state := THREAD_READY,
          t_flags := THREAD_FLAG_DETACHED OR THREAD_FLAG_IDLE\<rparr>,
        Thread 0 := zero_thread\<lparr>t_magic := THREAD_MAGIC, t_priority := DEFAULT_PRIORITY, t_state := THREAD_RUNNING,
          t_remaining_quantum := 5, t_pinned_cpu := - 1\<rparr>,
        Thread 1 := zero_thread\<lparr>t_magic := THREAD_MAGIC, t_priority := DEFAULT_PRIORITY, t_state := THREAD_READY,
          t_queue_node := Some (RunQ 16), t_curr_cpu := - 1, t_pinned_cpu := - 1,
          t_wait_queue_block_ret := ERR_TIMED_OUT\<rparr>),
     thread_list = [Thread 1, Thread 0, IdleThread 0],
     run_queue = (\<lambda>_. [])(16 := [Thread 1]), run_queue_bitmap = 0x10000,
     current_thread = [0 \<mapsto> Thread 0],
     wait_queues = (\<lambda>_. zero_wait_queue)
       (RetcodeWQ (IdleThread 0) := WAIT_QUEUE_INITIAL_VALUE, RetcodeWQ (Thread 0) := WAIT_QUEUE_INITIAL_VALUE,
        RetcodeWQ (Thread 1) := WAIT_QUEUE_INITIAL_VALUE, MutexWQ 0 := WAIT_QUEUE_INITIAL_VALUE),
     active_cpus = 1, idle_cpus = 0, realtime_cpus = 0, ipis = [], cpu_aspace = (\<lambda>_. None), heap_freed = [],
     mutexes = (\<lambda>_. \<lparr>mx_magic = 0, mx_holder = None, mx_count = 0\<rparr>)
       (0 := \<lparr>mx_magic = MUTEX_MAGIC, mx_holder = Some (Thread 0), mx_count = 2\<rparr>),
     semaphores = (\<lambda>_. \<lparr>sem_magic = 0, sem_count = 0\<rparr>),
     events = (\<lambda>_. \<lparr>ev_magic = 0, ev_signaled = False, ev_flags = 0\<rparr>)\<rparr>"

definition race_machine :: machine where
  "race_machine = \<lparr>kern = race_state, conts = (\<lambda>_. Outside)(Thread 1 := Blocked (MutexWQ 0) 5),
     owns = (\<lambda>_. {})(0 := {Thread 0}), avail = (\<lambda>_. 0), timed = {MutexWQ 0}\<rparr>"

lemma race_state_inv: "sched_inv race_state"
proof -
  have bm: "bit (0x10000 :: u32) p \<longleftrightarrow> p = 16" for p
    using bit_exp_iff [where ?'a = "32 word", of 16 p] by auto
  note [simp] = race_state_def zero_timer_def zero_thread_def zero_wait_queue_def WAIT_QUEUE_INITIAL_VALUE_def
    TIMER_INITIAL_VALUE_def thread_is_idle_def thread_is_real_time_or_idle_def live_def
  have "queues_ok race_state"
    by (auto simp: queues_ok_def bm simp del: bit_numeral_word_iff split: if_splits)
  moreover have "wqs_ok race_state" by (auto simp: wqs_ok_def)
  moreover have "threads_ok {} race_state"
    by (auto simp: threads_ok_def thread_ok_def Let_def)
  moreover have "cpus_ok {} race_state" by (rule cpus_okI) (auto split: if_splits)
  moreover have "idle_ok race_state" by (auto simp: idle_ok_def bit_1_iff)
  moreover have "preempt_ok race_state" by (auto simp: preempt_ok_def split: if_splits)
  moreover have "stack_timers_ok race_state" by (auto simp: stack_timers_ok_def split: if_splits)
  moreover have "timer_inv race_state" by (auto simp: timer_inv_def split: if_splits)
  ultimately show ?thesis by (simp add: kinv_def)
qed

text \<open>A release while nobody is in the queue, and an acquisition of a mutex that is counted as taken.\<close>

lemma release_unnoticed:
  assumes M: "minv M" and k: "contract (MutexRelease m) c M" and e: "wq_list (wait_queues (kern M) (MutexWQ m)) = []"
  obtains N where "exec (MutexRelease m) c M = Some N" "owns N m = {}"
    "abs_gate (MutexWQ m) N = (abs_gate (MutexWQ m) M)\<lparr>g_value := g_value (abs_gate (MutexWQ m) M) + 1,
       g_tokens := g_tokens (abs_gate (MutexWQ m) M) + 1\<rparr>" "g_tokens (abs_gate (MutexWQ m) M) = 0"
proof -
  let ?f = "\<lambda>x. x\<lparr>mx_holder := None, mx_count := mx_count x - 1\<rparr>"
  let ?N = "M\<lparr>kern := upd_mutex m ?f (kern M), owns := (owns M)(m := {})\<rparr>"
  have mg: "mx_magic (mutexes (kern M) m) = MUTEX_MAGIC" and cb: "can_block M c"
    and h: "is_mutex_held m c (kern M)" using k by simp_all
  obtain t where t: "current_thread (kern M) c = Some t" "\<not> thread_is_idle (threads (kern M) t)"
    by (rule can_blockE [OF M cb])
  have ac: "active M (MutexWQ m)" using winvD(5) [OF minvD(2) [OF M]] mg by (simp add: objects_ok_def)
  note G = mutex_gate [OF M ac]
  have ho: "mx_holder (mutexes (kern M) m) = Some t" using h t(1) by (simp add: is_mutex_held_def)
  have "mutex_release m c (kern M) = Some (NO_ERROR, upd_mutex m ?f (kern M))"
    using mutex_release_ok [OF minvD(1) [OF M] t mg ho] ac e by (simp add: active_def)
  then have x: "exec (MutexRelease m) c M = Some ?N" using t(1) G(5) ho by simp
  show thesis
  proof (rule that [OF x])
    show "abs_gate (MutexWQ m) ?N = (abs_gate (MutexWQ m) M)\<lparr>g_value := g_value (abs_gate (MutexWQ m) M) + 1,
       g_tokens := g_tokens (abs_gate (MutexWQ m) M) + 1\<rparr>"
      using winv_upd_mutex(3) [OF minvD(2) [OF M], of ?f m "{}" "MutexWQ m", simplified] G(2,3,5) ho by simp
    show "g_tokens (abs_gate (MutexWQ m) M) = 0" using G(3,5) ho by simp
  qed simp
qed

lemma acquire_counted:
  assumes M: "minv M" and k: "contract (MutexAcquire m timeout) c M" and t: "current_thread (kern M) c = Some t"
    and v: "g_value (abs_gate (MutexWQ m) M) \<le> 0" and to: "timeout \<noteq> 0"
  obtains N where "exec (MutexAcquire m timeout) c M = Some N" "owns N m = owns M m"
    "abs_gate (MutexWQ m) N = (abs_gate (MutexWQ m) M)\<lparr>g_value := g_value (abs_gate (MutexWQ m) M) - 1,
       g_waiting := g_waiting (abs_gate (MutexWQ m) M) @ [t]\<rparr>"
proof -
  let ?w = "MutexWQ m" and ?f = "\<lambda>x. x\<lparr>mx_count := mx_count x + 1\<rparr>"
  let ?M0 = "M\<lparr>kern := upd_mutex m ?f (kern M)\<rparr>"
  note W = minvD(2) [OF M]
  have mg: "mx_magic (mutexes (kern M) m) = MUTEX_MAGIC" and cb: "can_block M c" and nh: "\<not> is_mutex_held m c (kern M)"
    using k by simp_all
  have T: "conts M t = Outside" "\<not> thread_is_idle (threads (kern M) t)" "tm_node (timers (kern M) (StackTimer t)) = None"
    using can_blockE [OF M cb] t by (metis option.inject)+
  have ac: "active M ?w" using winvD(5) [OF W] mg by (simp add: objects_ok_def)
  note G = mutex_gate [OF M ac]
  have "mx_holder (mutexes (kern M) m) \<noteq> Some t" using nh t by (simp add: is_mutex_held_def)
  from mutex_acquire_timeout_ok [OF minvD(1) [OF M] t T(2,3) mg this, of timeout]
  obtain s1 s' where s': "mutex_acquire_timeout m timeout c (kern M) = Some (Switches, s')"
      "blocked_on ?w t timeout (kern ?M0) s1" "shuffled c s1 s'"
    using ac to v G(2) by (auto simp: active_def)
  have eq: "M\<lparr>kern := upd_mutex m ?f (kern M), owns := (owns M)(m := owns M m)\<rparr> = ?M0" by simp
  note u = winv_upd_mutex [OF W, of ?f m "owns M m", unfolded eq]
  let ?B = "block_as t (Blocked ?w timeout) (?M0\<lparr>kern := s1\<rparr>)"
  have x: "exec (MutexAcquire m timeout) c M = Some (?B\<lparr>kern := s'\<rparr>)"
    using s'(1) t by (simp add: block_as_def)
  show thesis
  proof (rule that [OF x])
    have "abs_gate ?w (?B\<lparr>kern := s'\<rparr>) = abs_gate ?w ?B"
      by (rule abs_gate_same_waits) (use shuffled_same_waits [OF s'(3)] in \<open>simp add: block_as_def\<close>)
    also have "\<dots> = (abs_gate ?w ?M0)\<lparr>g_waiting := g_waiting (abs_gate ?w ?M0) @ [t]\<rparr>"
      using abs_gate_block(1) [OF u(1) s'(2), of "Blocked ?w timeout" ?w] T(1) G(5) by simp
    finally show "abs_gate ?w (?B\<lparr>kern := s'\<rparr>) = (abs_gate ?w M)\<lparr>g_value := g_value (abs_gate ?w M) - 1,
       g_waiting := g_waiting (abs_gate ?w M) @ [t]\<rparr>"
      using u(3) [of ?w] G(2,3,5) by simp
  qed (simp add: block_as_def)
qed

lemma race_gate:
  "abs_gate (MutexWQ 0) race_machine =
     \<lparr>g_value = - 1, g_tokens = 0, g_waiting = [], g_granted = {}, g_expired = {Thread 1}\<rparr>"
  by (auto simp: abs_gate_def race_machine_def race_state_def in_call_def WAIT_QUEUE_INITIAL_VALUE_def Let_def split: if_splits)

lemma race_machine_inv: "minv race_machine"
proof -
  note [simp] = race_machine_def race_state_def zero_timer_def zero_thread_def zero_wait_queue_def
    WAIT_QUEUE_INITIAL_VALUE_def TIMER_INITIAL_VALUE_def live_def
  have "join_ok race_state" by (auto simp: join_ok_def)
  moreover have "cont_ok (kern race_machine) (conts race_machine t) t" for t by (auto simp: cont_ok_def)
  moreover have "joins_ok race_machine" "timed_ok race_machine"
    by (auto simp: joins_ok_def timed_ok_def in_call_def split: if_splits)
  moreover have "objects_ok race_machine"
    by (auto simp: objects_ok_def active_def event_initialized_def split: if_splits)
  moreover have "gates_ok race_machine"
  proof -
    have "w = MutexWQ 0" if "is_gate w" "active race_machine w" for w
      using that by (auto simp: active_def split: if_splits)
    moreover have "MutexWQ 0 \<in> timed race_machine" by simp
    ultimately show ?thesis using race_gate by (auto simp: gates_ok_def gate_inv_def simp del: race_machine_def)
  qed
  ultimately show ?thesis using race_state_inv by (simp add: minv_def winv_def del: race_state_def)
qed

text \<open>
  C6. A timed-out acquisition of a mutex is counted until the thread runs again. When the holder releases the
  mutex in that window, with nobody else in the queue, the release wakes nobody and the mutex has no owner,
  but the next thread that acquires it, even with an infinite timeout, is put to sleep: it waits for a free
  mutex, and no woken thread is there that would release it.
\<close>

theorem timeout_loses_wakeup:
  assumes "minv M" and "contract (MutexRelease m) c M" and "exec (MutexRelease m) c M = Some N"
    and "wq_list (wait_queues (kern M) (MutexWQ m)) = []" and "in_call M (MutexWQ m) x"
    and "contract (MutexAcquire m timeout) d N" and "timeout \<noteq> 0" and "current_thread (kern N) d = Some t"
  shows "\<exists>K. exec (MutexAcquire m timeout) d N = Some K \<and> owns K m = {} \<and>
           g_waiting (abs_gate (MutexWQ m) K) = [t] \<and> g_granted (abs_gate (MutexWQ m) K) = {}"
proof -
  let ?g = "abs_gate (MutexWQ m) M"
  have ac: "active M (MutexWQ m)" using winvD(5) [OF minvD(2) [OF assms(1)]] assms(2) by (simp add: objects_ok_def)
  obtain N' where N': "exec (MutexRelease m) c M = Some N'" and ow: "owns N' m = {}"
    and g: "abs_gate (MutexWQ m) N' = ?g\<lparr>g_value := g_value ?g + 1, g_tokens := g_tokens ?g + 1\<rparr>"
    and tk: "g_tokens ?g = 0"
    by (rule release_unnoticed [OF assms(1,2,4)])
  have [simp]: "N' = N" using N' assms(3) by simp
  have wt: "g_waiting ?g = []" using assms(4) by (simp add: abs_gate_def Let_def)
  have gi: "gate_inv ?g" using minvD(3) [OF assms(1)] ac by (simp add: gates_ok_def)
  then have gr: "g_granted ?g = {}" using tk by (auto simp: gate_inv_def)
  moreover have "x \<in> g_granted ?g \<union> g_expired ?g" using assms(4,5) by (auto simp: abs_gate_def Let_def)
  ultimately have "0 < card (g_expired ?g)" using gi by (auto simp: gate_inv_def card_gt_0_iff)
  then have "g_value (abs_gate (MutexWQ m) N) \<le> 0" using gi tk gr wt g by (simp add: gate_inv_def)
  moreover have "minv N" using exec_ok [OF assms(1,2)] assms(3) by (simp add: step_ok_def)
  ultimately obtain K where "exec (MutexAcquire m timeout) d N = Some K" "owns K m = owns N m"
      "abs_gate (MutexWQ m) K = (abs_gate (MutexWQ m) N)\<lparr>g_value := g_value (abs_gate (MutexWQ m) N) - 1,
         g_waiting := g_waiting (abs_gate (MutexWQ m) N) @ [t]\<rparr>"
    by (metis acquire_counted assms(6-8))
  then show ?thesis using ow g gr wt by auto
qed

definition released_machine :: machine where
  "released_machine = race_machine\<lparr>kern := upd_mutex 0 (\<lambda>_. \<lparr>mx_magic = MUTEX_MAGIC, mx_holder = None, mx_count = 1\<rparr>)
     race_state, owns := (\<lambda>_. {})\<rparr>"

lemma race_release:
  "contract (MutexRelease 0) 0 race_machine"
  "exec (MutexRelease 0) 0 race_machine =
     Some released_machine"
  "contract (MutexAcquire 0 INFINITE_TIME) 0 released_machine"
proof -
  show k: "contract (MutexRelease 0) 0 race_machine"
    by (simp add: can_block_def is_mutex_held_def race_machine_def race_state_def thread_is_idle_def zero_thread_def)
  have "mutex_release 0 0 race_state =
      Some (NO_ERROR, upd_mutex 0 (\<lambda>x. x\<lparr>mx_holder := None, mx_count := mx_count x - 1\<rparr>) race_state)"
    using mutex_release_ok [OF race_state_inv, of 0 "Thread 0" 0] k
    by (simp add: race_state_def thread_is_idle_def zero_thread_def WAIT_QUEUE_INITIAL_VALUE_def)
  then show "exec (MutexRelease 0) 0 race_machine = Some released_machine"
    by (simp add: released_machine_def race_machine_def upd_mutex_def race_state_def fun_eq_iff)
  show "contract (MutexAcquire 0 INFINITE_TIME) 0 released_machine"
    by (simp add: released_machine_def can_block_def is_mutex_held_def race_machine_def race_state_def thread_is_idle_def zero_thread_def
        upd_mutex_def)
qed

theorem timeout_loses_wakeup_witness:
  "minv race_machine \<and> (\<exists>N K. exec (MutexRelease 0) 0 race_machine = Some N \<and>
     exec (MutexAcquire 0 INFINITE_TIME) 0 N = Some K \<and> owns K 0 = {} \<and> g_waiting (abs_gate (MutexWQ 0) K) = [Thread 0])"
proof -
  have "wq_list (wait_queues (kern race_machine) (MutexWQ 0)) = []" "in_call race_machine (MutexWQ 0) (Thread 1)"
    by (simp_all add: race_machine_def race_state_def WAIT_QUEUE_INITIAL_VALUE_def in_call_def)
  from timeout_loses_wakeup [OF race_machine_inv race_release(1,2) this race_release(3), of "Thread 0"]
  show ?thesis using race_machine_inv race_release(2)
    by (auto simp: released_machine_def upd_mutex_def race_state_def simp del: exec.simps)
qed

end
