(* ===== verification/Memory.thy ===== *)
theory Memory
  imports Prelude
begin

text \<open>
  Byte-addressed memory and the block operations of \<^verbatim>\<open>lib/libc/string\<close>: \<^verbatim>\<open>memcpy\<close>, \<^verbatim>\<open>memmove\<close>,
  \<^verbatim>\<open>memset\<close>, \<^verbatim>\<open>memcmp\<close>, \<^verbatim>\<open>memchr\<close>, \<^verbatim>\<open>memscan\<close> and their BSD aliases, on a 64-bit little-endian machine.

  A pointer is its address. The word-wise loops go through \<open>ld_word\<close> and \<open>st_word\<close>, which fail on an address
  that is not a multiple of the word size. The byte counts that the sources keep in an \<^verbatim>\<open>int\<close> are converted
  with \<open>int32\<close>.

  The reference for the copies is \<open>copied\<close>, for the fill \<open>filled\<close>.
\<close>

unbundle bit_operations_syntax

section \<open>Memory\<close>

type_synonym u8 = "8 word"
type_synonym u64 = "64 word"
type_synonym mem = "nat \<Rightarrow> u8"

abbreviation (input) lsize :: nat where "lsize \<equiv> 8"
abbreviation (input) lmask :: nat where "lmask \<equiv> 7"

definition int32 :: "nat \<Rightarrow> int" where
  "int32 n = sint (word_of_nat n :: u32)"

definition slong :: "nat \<Rightarrow> int" where
  "slong a = sint (word_of_nat a :: u64)"

definition word_byte :: "u64 \<Rightarrow> nat \<Rightarrow> u8" where
  "word_byte w i = ucast (drop_bit (8 * i) w)"

primrec join_bytes :: "(nat \<Rightarrow> u8) \<Rightarrow> nat \<Rightarrow> u64" where
  "join_bytes f 0 = 0"
| "join_bytes f (Suc n) = join_bytes f n OR push_bit (8 * n) (ucast (f n))"

definition ld_word :: "nat \<Rightarrow> mem \<Rightarrow> u64 option" where
  "ld_word a m = do { chk (a mod lsize = 0); Some (join_bytes (\<lambda>i. m (a + i)) lsize) }"

definition st_word :: "nat \<Rightarrow> u64 \<Rightarrow> mem \<Rightarrow> mem option" where
  "st_word a w m = do { chk (a mod lsize = 0);
     Some (\<lambda>x. if a \<le> x \<and> x < a + lsize then word_byte w (x - a) else m x) }"

section \<open>The copy loops\<close>

text \<open>\<^verbatim>\<open>for (; len > 0; len--) *d++ = *s++;\<close>\<close>

function copy_up :: "nat \<Rightarrow> nat \<Rightarrow> int \<Rightarrow> mem \<Rightarrow> nat \<times> nat \<times> mem" where
  "copy_up d s len m = (if len > 0 then copy_up (d + 1) (s + 1) (len - 1) (m(d := m s)) else (d, s, m))"
  by pat_completeness auto
termination by (relation "measure (\<lambda>(d, s, len, m). nat len)") auto

function words_up :: "nat \<Rightarrow> nat \<Rightarrow> int \<Rightarrow> mem \<Rightarrow> (nat \<times> nat \<times> mem) option" where
  "words_up d s len m =
     (if len > 0 then do {
        w \<leftarrow> ld_word s m;
        m \<leftarrow> st_word d w m;
        words_up (d + lsize) (s + lsize) (len - 1) m }
      else Some (d, s, m))"
  by pat_completeness auto
termination by (relation "measure (\<lambda>(d, s, len, m). nat len)") auto

text \<open>\<^verbatim>\<open>for (; len > 0; len--) *--d = *--s;\<close> The subtractions are guarded by the count.\<close>

function copy_down :: "nat \<Rightarrow> nat \<Rightarrow> int \<Rightarrow> mem \<Rightarrow> nat \<times> nat \<times> mem" where
  "copy_down d s len m =
     (if len > 0 then copy_down (d - 1) (s - 1) (len - 1) (m(d - 1 := m (s - 1))) else (d, s, m))"
  by pat_completeness auto
termination by (relation "measure (\<lambda>(d, s, len, m). nat len)") auto

function words_down :: "nat \<Rightarrow> nat \<Rightarrow> int \<Rightarrow> mem \<Rightarrow> (nat \<times> nat \<times> mem) option" where
  "words_down d s len m =
     (if len > 0 then do {
        w \<leftarrow> ld_word (s - lsize) m;
        m \<leftarrow> st_word (d - lsize) w m;
        words_down (d - lsize) (s - lsize) (len - 1) m }
      else Some (d, s, m))"
  by pat_completeness auto
termination by (relation "measure (\<lambda>(d, s, len, m). nat len)") auto

declare copy_up.simps [simp del] words_up.simps [simp del] copy_down.simps [simp del] words_down.simps [simp del]

section \<open>Copies\<close>

text \<open>\<open>count - len\<close> in \<^verbatim>\<open>size_t\<close>, with the \<^verbatim>\<open>int\<close> sign-extended.\<close>

definition less_len :: "nat \<Rightarrow> int \<Rightarrow> nat" where
  "less_len count len = nat ((int count - len) mod 2 ^ 64)"

definition copy_forward :: "nat \<Rightarrow> nat \<Rightarrow> nat \<Rightarrow> mem \<Rightarrow> mem option" where
  "copy_forward d s count m = do {
     let (d, s, count, m) =
       (if (d OR s) AND lmask \<noteq> 0 then
          (let len = (if (d XOR s) AND lmask \<noteq> 0 \<or> count < lsize then int32 count
                      else int32 (lsize - (d AND lmask)));
               count = less_len count len;
               (d, s, m) = copy_up d s len m
           in (d, s, count, m))
        else (d, s, count, m));
     (d, s, m) \<leftarrow> words_up d s (int32 (count div lsize)) m;
     let (d, s, m) = copy_up d s (int32 (count AND lmask)) m;
     Some m }"

definition copy_backward :: "nat \<Rightarrow> nat \<Rightarrow> nat \<Rightarrow> mem \<Rightarrow> mem option" where
  "copy_backward d s count m = do {
     let (d, s) = (d + count, s + count);
     let (d, s, count, m) =
       (if (d OR s) AND lmask \<noteq> 0 then
          (let len = (if (d XOR s) AND lmask \<noteq> 0 \<or> count \<le> lsize then int32 count
                      else int32 (d AND lmask));
               count = less_len count len;
               (d, s, m) = copy_down d s len m
           in (d, s, count, m))
        else (d, s, count, m));
     (d, s, m) \<leftarrow> words_down d s (int32 (count div lsize)) m;
     let (d, s, m) = copy_down d s (int32 (count AND lmask)) m;
     Some m }"

definition memcpy :: "nat \<Rightarrow> nat \<Rightarrow> nat \<Rightarrow> mem \<Rightarrow> (nat \<times> mem) option" where
  "memcpy dest src count m =
     (if count = 0 \<or> dest = src then Some (dest, m)
      else do { m \<leftarrow> copy_forward dest src count m; Some (dest, m) })"

definition memmove :: "nat \<Rightarrow> nat \<Rightarrow> nat \<Rightarrow> mem \<Rightarrow> (nat \<times> mem) option" where
  "memmove dest src count m =
     (if count = 0 \<or> dest = src then Some (dest, m)
      else if slong dest < slong src then do { m \<leftarrow> copy_forward dest src count m; Some (dest, m) }
      else do { m \<leftarrow> copy_backward dest src count m; Some (dest, m) })"

definition bcopy :: "nat \<Rightarrow> nat \<Rightarrow> nat \<Rightarrow> mem \<Rightarrow> mem option" where
  "bcopy src dest count m = map_option snd (memcpy dest src count m)"

text \<open>The reference: each byte of the destination is the byte the source had before.\<close>

definition copied :: "nat \<Rightarrow> nat \<Rightarrow> nat \<Rightarrow> mem \<Rightarrow> mem" where
  "copied d s n m = (\<lambda>x. if d \<le> x \<and> x < d + n then m (s + (x - d)) else m x)"

section \<open>Their proofs\<close>

lemma bit_word_byte: "bit (word_byte w i) j \<longleftrightarrow> j < 8 \<and> bit w (8 * i + j)"
  by (auto simp: word_byte_def bit_ucast_iff bit_drop_bit_eq ac_simps)

lemma bit_join_bytes: "n \<le> 8 \<Longrightarrow> bit (join_bytes f n) k \<longleftrightarrow> k < 8 * n \<and> bit (f (k div 8)) (k mod 8)"
proof (induction n)
  case (Suc n)
  have "bit (push_bit (8 * n) (ucast (f n) :: u64)) k \<longleftrightarrow> 8 * n \<le> k \<and> k < 8 * Suc n \<and> bit (f n) (k - 8 * n)"
    using Suc.prems by (auto simp: bit_push_bit_iff bit_ucast_iff dest: bit_imp_le_length)
  moreover have "8 * n \<le> k \<Longrightarrow> k < 8 * Suc n \<Longrightarrow> k div 8 = n \<and> k mod 8 = k - 8 * n" by presburger
  ultimately show ?case using Suc by (auto simp: bit_or_iff)
qed simp

lemma word_byte_join: "n \<le> 8 \<Longrightarrow> i < n \<Longrightarrow> word_byte (join_bytes f n) i = f i"
  by (rule bit_word_eqI) (auto simp: bit_word_byte bit_join_bytes)

lemma move_word:
  assumes "s mod 8 = 0" and "d mod 8 = 0"
  shows "(ld_word s m \<bind> (\<lambda>w. st_word d w m)) = Some (copied d s 8 m)"
  using assms by (auto simp: ld_word_def st_word_def copied_def fun_eq_iff word_byte_join)

lemma copied_0 [simp]: "copied d s 0 m = m"
  by (auto simp: copied_def fun_eq_iff)

lemma copied_copied_up:
  assumes "\<not> (s < d \<and> d < s + (a + b))"
  shows "copied (d + a) (s + a) b (copied d s a m) = copied d s (a + b) m"
  using assms by (auto simp: copied_def fun_eq_iff intro!: arg_cong [where f = m])

lemma copied_copied_down:
  assumes "\<not> (d < s \<and> s < d + (a + b))"
  shows "copied d s a (copied (d + a) (s + a) b m) = copied d s (a + b) m"
  using assms by (auto simp: copied_def fun_eq_iff intro!: arg_cong [where f = m])

lemma upd_copied: "m(d := m s) = copied d s 1 m"
  by (auto simp: copied_def fun_eq_iff)

lemma copy_up_eq:
  assumes "\<not> (s < d \<and> d < s + n)"
  shows "copy_up d s (int n) m = (d + n, s + n, copied d s n m)"
  using assms
proof (induction n arbitrary: d s m)
  case (Suc n)
  then have "\<not> (s + 1 < d + 1 \<and> d + 1 < s + 1 + n)" by linarith
  from Suc.IH [OF this] show ?case
    using Suc.prems copied_copied_up [of s d 1 n m] by (subst copy_up.simps) (simp add: upd_copied)
qed (simp add: copy_up.simps)

lemma words_up_eq:
  assumes "\<not> (s < d \<and> d < s + 8 * n)" and "d mod 8 = 0" and "s mod 8 = 0"
  shows "words_up d s (int n) m = Some (d + 8 * n, s + 8 * n, copied d s (8 * n) m)"
  using assms
proof (induction n arbitrary: d s m)
  case (Suc n)
  have "words_up d s (int (Suc n)) m = words_up (d + 8) (s + 8) (int n) (copied d s 8 m)"
    using move_word [OF Suc.prems(3,2), of m] by (subst words_up.simps) (auto split: Option.bind_splits)
  moreover have "\<not> (s + 8 < d + 8 \<and> d + 8 < s + 8 + 8 * n)" using Suc.prems(1) by auto
  ultimately show ?case
    using Suc.IH [of "s + 8" "d + 8" "copied d s 8 m"] Suc.prems copied_copied_up [of s d 8 "8 * n" m] by simp
qed (simp add: words_up.simps)

lemma copy_down_eq:
  assumes "\<not> (d < s \<and> s < d + n)"
  shows "copy_down (d + n) (s + n) (int n) m = (d, s, copied d s n m)"
  using assms
proof (induction n arbitrary: m)
  case (Suc n)
  have "copy_down (d + Suc n) (s + Suc n) (int (Suc n)) m = copy_down (d + n) (s + n) (int n) (copied (d + n) (s + n) 1 m)"
    by (subst copy_down.simps) (simp add: upd_copied)
  moreover have "\<not> (d < s \<and> s < d + n)" using Suc.prems by linarith
  ultimately show ?case using Suc.IH Suc.prems copied_copied_down [of d s n 1 m] by simp
qed (simp add: copy_down.simps)

lemma words_down_eq:
  assumes "\<not> (d < s \<and> s < d + 8 * n)" and "d mod 8 = 0" and "s mod 8 = 0"
  shows "words_down (d + 8 * n) (s + 8 * n) (int n) m = Some (d, s, copied d s (8 * n) m)"
  using assms
proof (induction n arbitrary: m)
  case (Suc n)
  have "words_down (d + 8 * Suc n) (s + 8 * Suc n) (int (Suc n)) m =
      words_down (d + 8 * n) (s + 8 * n) (int n) (copied (d + 8 * n) (s + 8 * n) 8 m)"
    using move_word [of "s + 8 * n" "d + 8 * n" m] Suc.prems
    by (subst words_down.simps) (auto split: Option.bind_splits)
  moreover have "\<not> (d < s \<and> s < d + 8 * n)" using Suc.prems(1) by auto
  ultimately show ?case using Suc.IH Suc.prems copied_copied_down [of d s "8 * n" 8 m] by (simp add: ac_simps)
qed (simp add: words_down.simps)

text \<open>The conversions to \<^verbatim>\<open>int\<close> do not lose anything below half the range.\<close>

lemma sint_of_small:
  assumes "n < 2 ^ (LENGTH('a :: len) - 1)"
  shows "sint (word_of_nat n :: 'a word) = int n"
proof -
  have "int n < 2 ^ (LENGTH('a) - Suc 0)" using assms by simp
  moreover have "- (2 ^ (LENGTH('a) - Suc 0)) \<le> (0 :: int)" by simp
  then have "- (2 ^ (LENGTH('a) - Suc 0)) \<le> int n" by (rule order_trans) simp
  ultimately have "signed_take_bit (LENGTH('a) - Suc 0) (int n) = int n"
    by (intro signed_take_bit_int_eq_self) simp_all
  then show ?thesis by (simp add: signed_of_nat)
qed

lemma sint_of_big:
  assumes "2 ^ (LENGTH('a :: len) - 1) \<le> n" and "n < 2 ^ LENGTH('a)"
  shows "sint (word_of_nat n :: 'a word) = int n - 2 ^ LENGTH('a)"
proof -
  have l: "(2 :: int) ^ LENGTH('a) = 2 * 2 ^ (LENGTH('a) - Suc 0)" by (simp flip: power_Suc)
  have "(word_of_int (int n) :: 'a word) = word_of_int (int n - 2 ^ LENGTH('a))"
    by (simp add: word_of_int_eq_iff take_bit_eq_mod)
  then have "(word_of_nat n :: 'a word) = word_of_int (int n - 2 ^ LENGTH('a))" by (simp only: of_int_of_nat_eq)
  then have "sint (word_of_nat n :: 'a word) = signed_take_bit (LENGTH('a) - Suc 0) (int n - 2 ^ LENGTH('a))"
    by (simp only: signed_of_int of_int_eq_id id_apply)
  moreover have "(2 :: int) ^ (LENGTH('a) - Suc 0) \<le> int n" "int n < 2 ^ LENGTH('a)" using assms by simp_all
  then have "signed_take_bit (LENGTH('a) - Suc 0) (int n - 2 ^ LENGTH('a)) = int n - 2 ^ LENGTH('a)"
    using l by (intro signed_take_bit_int_eq_self) linarith+
  ultimately show ?thesis by simp
qed

lemma int32_small [simp]: "n < 2 ^ 31 \<Longrightarrow> int32 n = int n"
  unfolding int32_def by (rule sint_of_small) simp

lemma less_len_eq [simp]: "n \<le> count \<Longrightarrow> count < 2 ^ 64 \<Longrightarrow> less_len count (int n) = count - n"
  by (simp add: less_len_def nat_diff_distrib flip: of_nat_diff)

lemma and_take_bit: "(a :: nat) AND 7 = take_bit 3 a"
  using take_bit_eq_mask [of 3 a] by (simp add: mask_eq_exp_minus_1)

lemma and_lmask: "(a :: nat) AND 7 = a mod 8"
  by (simp add: and_take_bit take_bit_eq_mod)

lemma or_lmask_0: "((d :: nat) OR s) AND 7 = 0 \<longleftrightarrow> d mod 8 = 0 \<and> s mod 8 = 0"
proof -
  have "x OR y = 0 \<longleftrightarrow> x = 0 \<and> y = 0" for x y :: nat
    by (auto simp: bit_eq_iff bit_or_iff)
  then show ?thesis by (simp add: and_take_bit take_bit_or flip: and_lmask)
qed

lemma xor_lmask_0: "((d :: nat) XOR s) AND 7 = 0 \<longleftrightarrow> d mod 8 = s mod 8"
proof -
  have "x XOR y = 0 \<longleftrightarrow> x = y" for x y :: nat
    by (auto simp: bit_eq_iff bit_xor_iff)
  then show ?thesis by (simp add: and_take_bit take_bit_xor flip: and_lmask)
qed

text \<open>From an aligned position on, the words and then the rest.\<close>

lemma finish_up:
  assumes "\<not> (s < d \<and> d < s + n)" and "n < 2 ^ 31" and "n = 0 \<or> d mod 8 = 0 \<and> s mod 8 = 0"
  shows "(words_up d s (int32 (n div 8)) m \<bind> (\<lambda>(d, s, m). case copy_up d s (int32 (n AND 7)) m of (d, s, m) \<Rightarrow> Some m))
           = Some (copied d s n m)"
proof (cases "n = 0")
  case False
  let ?q = "n div 8" and ?r = "n mod 8"
  have n: "n = 8 * ?q + ?r" by simp
  have ov: "\<not> (s < d \<and> d < s + 8 * ?q)" "\<not> (s + 8 * ?q < d + 8 * ?q \<and> d + 8 * ?q < s + 8 * ?q + ?r)"
    using assms(1) n by linarith+
  show ?thesis
    using words_up_eq [OF ov(1)] copy_up_eq [OF ov(2)] copied_copied_up [of s d "8 * ?q" ?r m] assms False
    by (simp add: and_lmask)
qed (simp add: words_up.simps copy_up.simps)

lemma finish_down:
  assumes "\<not> (d < s \<and> s < d + n)" and "n < 2 ^ 31" and "n = 0 \<or> (d + n) mod 8 = 0 \<and> (s + n) mod 8 = 0"
  shows "(words_down (d + n) (s + n) (int32 (n div 8)) m \<bind>
            (\<lambda>(d, s, m). case copy_down d s (int32 (n AND 7)) m of (d, s, m) \<Rightarrow> Some m))
           = Some (copied d s n m)"
proof (cases "n = 0")
  case False
  let ?q = "n div 8" and ?r = "n mod 8"
  have n: "n = ?r + 8 * ?q" by simp
  have al: "(d + ?r) mod 8 = 0" "(s + ?r) mod 8 = 0"
    using assms(3) False by (simp_all add: mod_simps)
  have ov: "\<not> (d + ?r < s + ?r \<and> s + ?r < d + ?r + 8 * ?q)" "\<not> (d < s \<and> s < d + ?r)"
    using assms(1) n by linarith+
  show ?thesis
    using words_down_eq [OF ov(1) al] copy_down_eq [OF ov(2)] copied_copied_down [of d s ?r "8 * ?q" m] assms False
    by (simp add: and_lmask add.assoc)
qed (simp add: words_down.simps copy_down.simps)

lemma align_up: "(a + (8 - a mod 8)) mod 8 = (0 :: nat)"
  by presburger

lemma align_down: "r = a mod 8 \<Longrightarrow> r \<le> a \<Longrightarrow> (a - r) mod 8 = (0 :: nat)"
  by (simp add: minus_mod_eq_mult_div)

lemma copy_forward_ok:
  assumes ov: "\<not> (s < d \<and> d < s + n)" and n: "n < 2 ^ 31"
  shows "copy_forward d s n m = Some (copied d s n m)"
proof (cases "(d OR s) AND 7 = 0")
  case True
  then show ?thesis using finish_up [OF ov n, of m] by (simp add: copy_forward_def or_lmask_0)
next
  case False
  define len where "len = (if (d XOR s) AND 7 \<noteq> 0 \<or> n < 8 then n else 8 - d mod 8)"
  have len: "len \<le> n" by (auto simp: len_def)
  have al: "n - len = 0 \<or> (d + len) mod 8 = 0 \<and> (s + len) mod 8 = 0"
  proof (cases "(d XOR s) AND 7 \<noteq> 0 \<or> n < 8")
    case b: False
    then have "d mod 8 = s mod 8" "len = 8 - d mod 8" by (simp_all add: xor_lmask_0 len_def)
    then show ?thesis using align_up [of d] align_up [of s] by simp
  qed (simp add: len_def)
  have ovs: "\<not> (s < d \<and> d < s + len)" "\<not> (s + len < d + len \<and> d + len < s + len + (n - len))"
    using ov len by linarith+
  have ci: "(if (d XOR s) AND 7 \<noteq> 0 \<or> n < 8 then int32 n else int32 (8 - (d AND 7))) = int len"
    using n by (auto simp: len_def and_lmask)
  have "n - len < 2 ^ 31" using n by simp
  from finish_up [OF ovs(2) this al, of "copied d s len m"] show ?thesis
    unfolding copy_forward_def ci using copied_copied_up [of s d len "n - len" m] ov n len False
    by (simp add: copy_up_eq [OF ovs(1)])
qed

lemma copy_backward_ok:
  assumes ov: "\<not> (d < s \<and> s < d + n)" and n: "n < 2 ^ 31"
  shows "copy_backward d s n m = Some (copied d s n m)"
proof (cases "((d + n) OR (s + n)) AND 7 = 0")
  case True
  then show ?thesis using finish_down [OF ov n, of m] by (simp add: copy_backward_def or_lmask_0)
next
  case False
  define len where "len = (if ((d + n) XOR (s + n)) AND 7 \<noteq> 0 \<or> n \<le> 8 then n else (d + n) mod 8)"
  have len: "len \<le> n" by (auto simp: len_def)
  have al: "n - len = 0 \<or> (d + (n - len)) mod 8 = 0 \<and> (s + (n - len)) mod 8 = 0"
  proof (cases "((d + n) XOR (s + n)) AND 7 \<noteq> 0 \<or> n \<le> 8")
    case b: False
    then have "(d + n) mod 8 = (s + n) mod 8" "len = (d + n) mod 8" by (simp_all add: xor_lmask_0 len_def)
    then show ?thesis using align_down [of len "d + n"] align_down [of len "s + n"] len by simp
  qed (simp add: len_def)
  have ovs: "\<not> (d + (n - len) < s + (n - len) \<and> s + (n - len) < d + (n - len) + len)" "\<not> (d < s \<and> s < d + (n - len))"
    using ov len by linarith+
  have ci: "(if ((d + n) XOR (s + n)) AND 7 \<noteq> 0 \<or> n \<le> 8 then int32 n else int32 ((d + n) AND 7)) = int len"
    using n by (auto simp: len_def and_lmask)
  have "copy_down (d + n) (s + n) (int len) m = (d + (n - len), s + (n - len), copied (d + (n - len)) (s + (n - len)) len m)"
    using copy_down_eq [OF ovs(1), of m] len by simp
  moreover have "n - len < 2 ^ 31" using n by simp
  note finish_down [OF ovs(2) this al, of "copied (d + (n - len)) (s + (n - len)) len m"]
  ultimately show ?thesis
    unfolding copy_backward_def Let_def prod.case ci
    using copied_copied_down [of d s "n - len" len m] ov n len False by simp
qed

text \<open>A block that stays on its side of the middle of the address space, as canonical addresses do.\<close>

definition in_half :: "nat \<Rightarrow> nat \<Rightarrow> bool" where
  "in_half a n \<longleftrightarrow> a + n \<le> 2 ^ 63 \<or> 2 ^ 63 \<le> a \<and> a + n \<le> 2 ^ 64"

lemma slong_eq: "a < 2 ^ 64 \<Longrightarrow> slong a = (if a < 2 ^ 63 then int a else int a - 2 ^ 64)"
proof (cases "a < 2 ^ 63")
  case True
  then show ?thesis unfolding slong_def by (subst sint_of_small) simp_all
next
  case False
  assume a: "a < 2 ^ 64"
  then show ?thesis using False sint_of_big [where ?'a = 64, of a] unfolding slong_def by simp
qed

lemma memmove_ok:
  assumes "count < 2 ^ 31" and "in_half dest count" and "in_half src count"
  shows "memmove dest src count m = Some (dest, copied dest src count m)"
proof (cases "count = 0 \<or> dest = src")
  case True
  then show ?thesis by (auto simp: memmove_def copied_def fun_eq_iff)
next
  case False
  then have r: "dest < 2 ^ 64" "src < 2 ^ 64" using assms(2,3) by (auto simp: in_half_def)
  show ?thesis
  proof (cases "slong dest < slong src")
    case True
    then have "\<not> (src < dest \<and> dest < src + count)"
      using assms(2,3) r by (auto simp: slong_eq in_half_def split: if_splits)
    from copy_forward_ok [OF this assms(1)] show ?thesis using True False by (simp add: memmove_def)
  next
    case f: False
    then have "\<not> (dest < src \<and> src < dest + count)"
      using assms(2,3) r by (auto simp: slong_eq in_half_def split: if_splits)
    from copy_backward_ok [OF this assms(1)] show ?thesis using f False by (simp add: memmove_def)
  qed
qed

lemma memcpy_ok:
  assumes "count < 2 ^ 31" and "\<not> (src < dest \<and> dest < src + count)"
  shows "memcpy dest src count m = Some (dest, copied dest src count m)"
  using copy_forward_ok [OF assms(2,1)] by (auto simp: memcpy_def copied_def fun_eq_iff)

text \<open>A block of two gigabytes or more that is not equally aligned is not copied: the byte count is negative.\<close>

lemma memcpy_huge:
  assumes "2 ^ 31 \<le> count" and "count < 2 ^ 32" and "dest mod 8 \<noteq> src mod 8"
  shows "memcpy dest src count m = None"
proof -
  have c: "(dest OR src) AND 7 \<noteq> 0" "(dest XOR src) AND 7 \<noteq> 0" "dest \<noteq> src" "count \<noteq> 0"
    using assms by (auto simp: or_lmask_0 xor_lmask_0)
  have n: "int32 count = int count - 2 ^ 32"
    using sint_of_big [where ?'a = 32, of count] assms(1,2) by (simp add: int32_def)
  have l: "less_len count (int32 count) = 2 ^ 32" by (simp add: less_len_def n)
  have "\<not> int32 count > 0" using n assms(2) by simp
  then have "copy_up dest src (int32 count) m = (dest, src, m)" by (subst copy_up.simps) simp
  moreover have "words_up dest src (int32 (2 ^ 32 div 8)) m = None"
    using assms(3) by (subst words_up.simps) (auto simp: ld_word_def st_word_def chk_def split: Option.bind_splits)
  ultimately show ?thesis using c l by (simp add: memcpy_def copy_forward_def)
qed

section \<open>Fill\<close>

primrec fill_up :: "nat \<Rightarrow> u8 \<Rightarrow> nat \<Rightarrow> mem \<Rightarrow> nat \<times> mem" where
  "fill_up xs c 0 m = (xs, m)"
| "fill_up xs c (Suc len) m = fill_up (xs + 1) c len (m(xs := c))"

primrec fill_words :: "nat \<Rightarrow> u64 \<Rightarrow> nat \<Rightarrow> mem \<Rightarrow> (nat \<times> mem) option" where
  "fill_words xs cc 0 m = Some (xs, m)"
| "fill_words xs cc (Suc len) m = do { m \<leftarrow> st_word xs cc m; fill_words (xs + lsize) cc len m }"

text \<open>\<open>less_len 0 (int s)\<close> is \<^verbatim>\<open>-(size_t)s\<close>.\<close>

definition memset :: "nat \<Rightarrow> int \<Rightarrow> nat \<Rightarrow> mem \<Rightarrow> (nat \<times> mem) option" where
  "memset s c count m = do {
     let xs = s;
     let len = less_len 0 (int s) AND (lsize - 1);
     let cc = (ucast (word_of_int c :: u8) :: u64);
     (xs, count, m) \<leftarrow>
       (if count > len then do {
          let count = count - len;
          let cc = cc OR push_bit 8 cc;
          let cc = cc OR push_bit 16 cc;
          let cc = cc OR push_bit 32 cc;
          let (xs, m) = fill_up xs (word_of_int c) len m;
          (xs, m) \<leftarrow> fill_words xs cc (count div lsize) m;
          Some (xs, count AND (lsize - 1), m) }
        else Some (xs, count, m));
     let (xs, m) = fill_up xs (word_of_int c) count m;
     Some (s, m) }"

definition bzero :: "nat \<Rightarrow> nat \<Rightarrow> mem \<Rightarrow> mem option" where
  "bzero dst count m = map_option snd (memset dst 0 count m)"

definition filled :: "nat \<Rightarrow> u8 \<Rightarrow> nat \<Rightarrow> mem \<Rightarrow> mem" where
  "filled s b n m = (\<lambda>x. if s \<le> x \<and> x < s + n then b else m x)"

lemma filled_filled: "filled (s + a) b n (filled s b a m) = filled s b (a + n) m"
  by (auto simp: filled_def fun_eq_iff)

lemma filled_thrice:
  "a + (b + c) = n \<Longrightarrow> filled (s + a + b) x c (filled (s + a) x b (filled s x a m)) = filled s x n m"
  by (auto simp: filled_def fun_eq_iff)

lemma fill_up_eq: "fill_up xs b n m = (xs + n, filled xs b n m)"
proof (induction n arbitrary: xs m)
  case (Suc n)
  have "m(xs := b) = filled xs b 1 m" by (auto simp: filled_def fun_eq_iff)
  then show ?case using Suc filled_filled [of xs 1 b n m] by simp
qed (auto simp: filled_def fun_eq_iff)

lemma mod_nat_sub: "n \<le> k \<Longrightarrow> n mod 8 = 0 \<Longrightarrow> (k - n) mod 8 = k mod 8" for k n :: nat
  by (metis add.right_neutral le_add_diff_inverse2 mod_add_right_eq)

lemma spread_byte:
  fixes b :: u8
  assumes "i < 8"
  defines "c \<equiv> ucast b :: u64"
  defines "c1 \<equiv> c OR push_bit 8 c" defines "c2 \<equiv> c1 OR push_bit 16 c1"
  shows "word_byte (c2 OR push_bit 32 c2) i = b"
proof (rule bit_word_eqI)
  fix j assume j: "j < LENGTH(8)"
  have c: "bit c k \<longleftrightarrow> k < 8 \<and> bit b k" for k
    using bit_imp_le_length [of b k] by (auto simp: c_def bit_ucast_iff)
  have sh: "8 \<le> k \<Longrightarrow> (k - 8) mod 8 = k mod 8" "16 \<le> k \<Longrightarrow> (k - 16) mod 8 = k mod 8"
      "32 \<le> k \<Longrightarrow> (k - 32) mod 8 = k mod 8" for k :: nat
    by (simp_all add: mod_nat_sub)
  have c1: "bit c1 k \<longleftrightarrow> k < 16 \<and> bit b (k mod 8)" for k
    using sh(1) [of k] by (cases "k < 8") (auto simp: c1_def bit_or_iff bit_push_bit_iff c)
  have c2: "bit c2 k \<longleftrightarrow> k < 32 \<and> bit b (k mod 8)" for k
    using sh(2) [of k] by (cases "k < 16") (auto simp: c2_def bit_or_iff bit_push_bit_iff c1)
  have "bit (c2 OR push_bit 32 c2) k \<longleftrightarrow> k < 64 \<and> bit b (k mod 8)" for k
    using sh(3) [of k] by (cases "k < 32") (auto simp: bit_or_iff bit_push_bit_iff c2)
  then show "bit (word_byte (c2 OR push_bit 32 c2) i) j = bit b j"
    using j assms(1) by (simp add: bit_word_byte)
qed

lemma fill_words_eq:
  assumes "xs mod 8 = 0" and "\<And>i. i < 8 \<Longrightarrow> word_byte cc i = b"
  shows "fill_words xs cc n m = Some (xs + 8 * n, filled xs b (8 * n) m)"
  using assms(1)
proof (induction n arbitrary: xs m)
  case (Suc n)
  have "st_word xs cc m = Some (filled xs b 8 m)"
    using Suc.prems assms(2) by (auto simp: st_word_def filled_def fun_eq_iff)
  then show ?case using Suc.IH [of "xs + 8" "filled xs b 8 m"] Suc.prems filled_filled [of xs 8 b "8 * n" m] by simp
qed (auto simp: filled_def fun_eq_iff)

lemma neg_align: "(s + (less_len 0 (int s) AND 7)) mod 8 = 0"
proof -
  have "int (less_len 0 (int s) mod 8) = (- int s) mod 8"
    by (simp add: less_len_def zmod_int mod_mod_cancel)
  then have "(int s + int (less_len 0 (int s) mod 8)) mod 8 = 0"
    by (metis add.right_inverse mod_0 mod_add_right_eq)
  then show ?thesis by (simp only: and_lmask flip: of_nat_add) (metis of_nat_eq_0_iff of_nat_numeral zmod_int)
qed

lemma memset_ok: "memset s c count m = Some (s, filled s (word_of_int c) count m)"
proof -
  let ?len = "less_len 0 (int s) AND 7" and ?b = "word_of_int c :: u8"
  show ?thesis
  proof (cases "count > ?len")
    case True
    let ?n = "count - ?len"
    define c0 where "c0 = (ucast ?b :: u64)"
    define c1 where "c1 = c0 OR push_bit 8 c0"
    define c2 where "c2 = c1 OR push_bit 16 c1"
    have w: "fill_words (s + ?len) (c2 OR push_bit 32 c2) (?n div 8) m' =
        Some (s + ?len + 8 * (?n div 8), filled (s + ?len) ?b (8 * (?n div 8)) m')" for m'
      by (rule fill_words_eq [OF neg_align]) (simp only: c2_def c1_def c0_def spread_byte)
    have "?len + (8 * (?n div 8) + ?n mod 8) = count" using True by simp
    then have "filled (s + ?len + 8 * (?n div 8)) ?b (?n mod 8) (filled (s + ?len) ?b (8 * (?n div 8)) (filled s ?b ?len m))
        = filled s ?b count m"
      by (rule filled_thrice)
    then show ?thesis
      unfolding memset_def Let_def using True w
      by (simp add: fill_up_eq and_lmask flip: c0_def c1_def c2_def)
  qed (simp add: memset_def fill_up_eq Let_def)
qed

section \<open>Comparison and search\<close>

text \<open>The conversion of an \<^verbatim>\<open>int\<close> to \<^verbatim>\<open>signed char\<close>.\<close>

definition schar :: "int \<Rightarrow> int" where
  "schar i = sint (word_of_int i :: u8)"

primrec memcmp :: "nat \<Rightarrow> nat \<Rightarrow> nat \<Rightarrow> mem \<Rightarrow> int" where
  "memcmp cs ct 0 m = 0"
| "memcmp cs ct (Suc count) m =
     (let res = schar (uint (m cs) - uint (m ct))
      in if res \<noteq> 0 then res else memcmp (cs + 1) (ct + 1) count m)"

function memchr_loop :: "nat \<Rightarrow> u8 \<Rightarrow> nat \<Rightarrow> nat \<Rightarrow> mem \<Rightarrow> nat option" where
  "memchr_loop b x i len m =
     (if i < len then (if m (b + i) = x then Some (b + i) else memchr_loop b x (i + 1) len m) else None)"
  by pat_completeness auto
termination by (relation "measure (\<lambda>(b, x, i, len, m). len - i)") auto

declare memchr_loop.simps [simp del]

definition memchr :: "nat \<Rightarrow> int \<Rightarrow> nat \<Rightarrow> mem \<Rightarrow> nat option" where
  "memchr buf c len m = memchr_loop buf (word_of_int c) 0 len m"

primrec memscan :: "nat \<Rightarrow> int \<Rightarrow> nat \<Rightarrow> mem \<Rightarrow> nat" where
  "memscan p c 0 m = p"
| "memscan p c (Suc n) m = (if uint (m p) = c then p else memscan (p + 1) c n m)"

lemma schar_diff: "schar (uint (a :: u8) - uint b) = sint (a - b)"
  by (simp add: schar_def)

lemma schar_diff_0: "schar (uint (a :: u8) - uint b) = 0 \<longleftrightarrow> a = b"
  using signed_word_eqI [of "a - b" 0, where 'a = int] by (auto simp: schar_diff)

lemma memcmp_eq_0: "memcmp cs ct n m = 0 \<longleftrightarrow> (\<forall>i<n. m (cs + i) = m (ct + i))"
proof (induction n arbitrary: cs ct)
  case (Suc n)
  then show ?case by (auto simp: Let_def schar_diff_0 less_Suc_eq_0_disj)
qed simp


lemma memchr_loop_eq:
  "memchr_loop b x i len m = map_option (\<lambda>j. b + j) (find (\<lambda>j. m (b + j) = x) [i..<len])"
proof (induction b x i len m rule: memchr_loop.induct)
  case (1 b x i len m)
  then show ?case by (subst memchr_loop.simps) (auto simp: upt_rec [of i])
qed

lemma find_map: "find P (map f xs) = map_option f (find (\<lambda>x. P (f x)) xs)"
  by (induction xs) auto

lemma memscan_eq:
  "memscan p c n m = (case find (\<lambda>j. uint (m (p + j)) = c) [0..<n] of None \<Rightarrow> p + n | Some j \<Rightarrow> p + j)"
proof (induction n arbitrary: p)
  case (Suc n)
  have "find P [0..<Suc n] = (if P 0 then Some 0 else map_option Suc (find (\<lambda>j. P (Suc j)) [0..<n]))" for P
    using find_map [of P Suc "[0..<n]"] by (simp add: map_Suc_upt upt_conv_Cons del: upt_Suc)
  then show ?case using Suc [of "p + 1"] by (simp split: option.splits del: upt_Suc)
qed simp

section \<open>Properties\<close>

text \<open>
  C23. \<^verbatim>\<open>memmove\<close> moves a block of less than two gigabytes to any place, overlapping or not and however the two
  are aligned: every byte of the destination is the byte the source had before the call, nothing else
  changes, and all its word accesses are aligned.
\<close>

theorem memmove_moves:
  assumes "count < 2 ^ 31" and "in_half dest count" and "in_half src count"
  shows "memmove dest src count m =
    Some (dest, \<lambda>a. if dest \<le> a \<and> a < dest + count then m (src + (a - dest)) else m a)"
  using memmove_ok [OF assms] by (simp add: copied_def)

theorem memmove_moves_witness:
  "in_half 19 100 \<and> in_half 16 100 \<and>
   map_option (\<lambda>(p, m). (p, m 18, m 19, m 118, m 119)) (memmove 19 16 100 (\<lambda>a. word_of_nat a)) = Some (19, 18, 16, 115, 119)"
proof -
  have h: "(100 :: nat) < 2 ^ 31" "in_half 19 100" "in_half 16 100" by (simp_all add: in_half_def)
  show ?thesis using h(2,3) by (simp add: memmove_moves [OF h])
qed

text \<open>
  C24. \<^verbatim>\<open>memset\<close> writes the byte \<open>c mod 256\<close> to exactly the \<open>count\<close> bytes from \<open>s\<close> on, whatever the alignment; the
  word-wise part writes the same byte eight times.
\<close>

theorem memset_fills:
  "memset s c count m = Some (s, \<lambda>a. if s \<le> a \<and> a < s + count then word_of_int c else m a)"
  using memset_ok [of s c count m] by (simp add: filled_def)



end
