(* ===== verification/Cstring.thy ===== *)
theory Cstring
  imports Memory
begin

text \<open>
  The string functions of \<^verbatim>\<open>lib/libc/string\<close> and the character classes of \<^verbatim>\<open>lib/libc/ctype.c\<close>. A string
  is the bytes from its address to the first zero byte; \<open>cstr m p xs\<close> says that the string at \<open>p\<close> is \<open>xs\<close>.
  A loop that only a zero byte ends is a partial function: the value \<^term>\<open>None\<close> stands for running on.
  Plain \<^verbatim>\<open>char\<close> is signed.
\<close>

section \<open>Character classes\<close>

definition isblank :: "int \<Rightarrow> bool" where "isblank c \<longleftrightarrow> c = 32 \<or> c = 9"
definition isspace :: "int \<Rightarrow> bool" where
  "isspace c \<longleftrightarrow> c = 32 \<or> c = 12 \<or> c = 10 \<or> c = 13 \<or> c = 9 \<or> c = 11"
definition islower :: "int \<Rightarrow> bool" where "islower c \<longleftrightarrow> c \<ge> 97 \<and> c \<le> 122"
definition isupper :: "int \<Rightarrow> bool" where "isupper c \<longleftrightarrow> c \<ge> 65 \<and> c \<le> 90"
definition isdigit :: "int \<Rightarrow> bool" where "isdigit c \<longleftrightarrow> c \<ge> 48 \<and> c \<le> 57"
definition isalpha :: "int \<Rightarrow> bool" where "isalpha c \<longleftrightarrow> isupper c \<or> islower c"
definition isalnum :: "int \<Rightarrow> bool" where "isalnum c \<longleftrightarrow> isalpha c \<or> isdigit c"
definition isxdigit :: "int \<Rightarrow> bool" where
  "isxdigit c \<longleftrightarrow> isdigit c \<or> c \<ge> 97 \<and> c \<le> 102 \<or> c \<ge> 65 \<and> c \<le> 70"
definition isgraph :: "int \<Rightarrow> bool" where "isgraph c \<longleftrightarrow> c > 32 \<and> c < 0x7f"
definition iscntrl :: "int \<Rightarrow> bool" where "iscntrl c \<longleftrightarrow> c < 32 \<or> c = 0x7f"
definition isprint :: "int \<Rightarrow> bool" where "isprint c \<longleftrightarrow> c \<ge> 0x20 \<and> c < 0x7f"
definition ispunct :: "int \<Rightarrow> bool" where "ispunct c \<longleftrightarrow> isgraph c \<and> \<not> isalnum c"
definition tolower :: "int \<Rightarrow> int" where "tolower c = (if c \<ge> 65 \<and> c \<le> 90 then c + (97 - 65) else c)"
definition toupper :: "int \<Rightarrow> int" where "toupper c = (if c \<ge> 97 \<and> c \<le> 122 then c + (65 - 97) else c)"

section \<open>Reading\<close>

partial_function (option) strlen_loop :: "nat \<Rightarrow> nat \<Rightarrow> mem \<Rightarrow> nat option" where
  "strlen_loop s i m = (if m (s + i) \<noteq> 0 then strlen_loop s (i + 1) m else Some i)"

definition strlen :: "nat \<Rightarrow> mem \<Rightarrow> nat option" where
  "strlen s m = strlen_loop s 0 m"

primrec strnlen_loop :: "nat \<Rightarrow> nat \<Rightarrow> mem \<Rightarrow> nat" where
  "strnlen_loop sc 0 m = sc"
| "strnlen_loop sc (Suc count) m = (if m sc \<noteq> 0 then strnlen_loop (sc + 1) count m else sc)"

definition strnlen :: "nat \<Rightarrow> nat \<Rightarrow> mem \<Rightarrow> nat" where
  "strnlen s count m = strnlen_loop s count m - s"

text \<open>The result is an optional pointer, inside the option of the loop's ending.\<close>

partial_function (option) strchr_loop :: "nat \<Rightarrow> u8 \<Rightarrow> mem \<Rightarrow> nat option option" where
  "strchr_loop s c m =
     (if m s \<noteq> c then (if m s = 0 then Some None else strchr_loop (s + 1) c m) else Some (Some s))"

definition strchr :: "nat \<Rightarrow> int \<Rightarrow> mem \<Rightarrow> nat option option" where
  "strchr s c m = strchr_loop s (word_of_int c) m"

partial_function (option) strrchr_loop :: "nat option \<Rightarrow> nat \<Rightarrow> int \<Rightarrow> mem \<Rightarrow> nat option option" where
  "strrchr_loop lst s c m =
     (if m s \<noteq> 0 then strrchr_loop (if sint (m s) = c then Some s else lst) (s + 1) c m else Some lst)"

definition strrchr :: "nat \<Rightarrow> int \<Rightarrow> mem \<Rightarrow> nat option option" where
  "strrchr s c m = strrchr_loop (if c \<noteq> 0 then None else Some s) s c m"

text \<open>Is the byte \<open>c\<close> in the string at \<open>a\<close>? The inner loops of \<^verbatim>\<open>strspn\<close> and \<^verbatim>\<open>strpbrk\<close>.\<close>

partial_function (option) in_string :: "u8 \<Rightarrow> nat \<Rightarrow> mem \<Rightarrow> bool option" where
  "in_string c a m = (if m a \<noteq> 0 then (if c = m a then Some True else in_string c (a + 1) m) else Some False)"

partial_function (option) strspn_loop :: "nat \<Rightarrow> nat \<Rightarrow> nat \<Rightarrow> mem \<Rightarrow> nat option" where
  "strspn_loop p accept count m =
     (if m p \<noteq> 0 then do {
        found \<leftarrow> in_string (m p) accept m;
        if \<not> found then Some count else strspn_loop (p + 1) accept (count + 1) m }
      else Some count)"

definition strspn :: "nat \<Rightarrow> nat \<Rightarrow> mem \<Rightarrow> nat option" where
  "strspn s accept m = strspn_loop s accept 0 m"

partial_function (option) strpbrk :: "nat \<Rightarrow> nat \<Rightarrow> mem \<Rightarrow> nat option option" where
  "strpbrk sc1 ct m =
     (if m sc1 \<noteq> 0 then do {
        found \<leftarrow> in_string (m sc1) ct m;
        if found then Some (Some sc1) else strpbrk (sc1 + 1) ct m }
      else Some None)"

section \<open>Comparing\<close>

partial_function (option) strcmp :: "nat \<Rightarrow> nat \<Rightarrow> mem \<Rightarrow> int option" where
  "strcmp cs ct m =
     (let res = schar (sint (m cs) - sint (m ct))
      in if res \<noteq> 0 \<or> m cs = 0 then Some res else strcmp (cs + 1) (ct + 1) m)"

definition strcoll :: "nat \<Rightarrow> nat \<Rightarrow> mem \<Rightarrow> int option" where
  "strcoll s1 s2 m = strcmp s1 s2 m"

primrec strncmp :: "nat \<Rightarrow> nat \<Rightarrow> nat \<Rightarrow> mem \<Rightarrow> int" where
  "strncmp cs ct 0 m = 0"
| "strncmp cs ct (Suc count) m =
     (let res = schar (sint (m cs) - sint (m ct))
      in if res \<noteq> 0 \<or> m cs = 0 then res else strncmp (cs + 1) (ct + 1) count m)"

partial_function (option) strcasecmp :: "nat \<Rightarrow> nat \<Rightarrow> mem \<Rightarrow> int option" where
  "strcasecmp cs ct m =
     (let res = schar (tolower (sint (m cs)) - tolower (sint (m ct)))
      in if res \<noteq> 0 \<or> m cs = 0 then Some res else strcasecmp (cs + 1) (ct + 1) m)"

text \<open>The body of \<^verbatim>\<open>do ... while (--len)\<close>; \<open>n\<close> is \<^verbatim>\<open>len\<close> less one.\<close>

primrec strnicmp_loop :: "nat \<Rightarrow> nat \<Rightarrow> nat \<Rightarrow> mem \<Rightarrow> int \<times> int" where
  "strnicmp_loop s1 s2 0 m =
     (let c1 = uint (m s1); c2 = uint (m s2)
      in if c1 = 0 \<or> c2 = 0 \<or> c1 = c2 then (c1, c2) else (tolower c1, tolower c2))"
| "strnicmp_loop s1 s2 (Suc n) m =
     (let c1 = uint (m s1); c2 = uint (m s2)
      in if c1 = 0 \<or> c2 = 0 then (c1, c2)
         else if c1 = c2 then strnicmp_loop (s1 + 1) (s2 + 1) n m
         else if tolower c1 \<noteq> tolower c2 then (tolower c1, tolower c2)
         else strnicmp_loop (s1 + 1) (s2 + 1) n m)"

definition strnicmp :: "nat \<Rightarrow> nat \<Rightarrow> nat \<Rightarrow> mem \<Rightarrow> int" where
  "strnicmp s1 s2 len m =
     (case (case len of 0 \<Rightarrow> (0, 0) | Suc n \<Rightarrow> strnicmp_loop s1 s2 n m) of (c1, c2) \<Rightarrow> c1 - c2)"

definition strerror :: "int \<Rightarrow> string" where
  "strerror errnum = (if errnum < 0 then ''General Error'' else ''No Error'')"

section \<open>Copying\<close>

partial_function (option) strcpy_loop :: "nat \<Rightarrow> nat \<Rightarrow> mem \<Rightarrow> mem option" where
  "strcpy_loop dest src m =
     (let c = m src; m = m(dest := c)
      in if c \<noteq> 0 then strcpy_loop (dest + 1) (src + 1) m else Some m)"

definition strcpy :: "nat \<Rightarrow> nat \<Rightarrow> mem \<Rightarrow> (nat \<times> mem) option" where
  "strcpy dest src m = do { m \<leftarrow> strcpy_loop dest src m; Some (dest, m) }"

partial_function (option) skip_string :: "nat \<Rightarrow> mem \<Rightarrow> nat option" where
  "skip_string dest m = (if m dest \<noteq> 0 then skip_string (dest + 1) m else Some dest)"

definition strcat :: "nat \<Rightarrow> nat \<Rightarrow> mem \<Rightarrow> (nat \<times> mem) option" where
  "strcat dest src m = do { d \<leftarrow> skip_string dest m; m \<leftarrow> strcpy_loop d src m; Some (dest, m) }"

primrec strncat_loop :: "nat \<Rightarrow> nat \<Rightarrow> nat \<Rightarrow> mem \<Rightarrow> mem" where
  "strncat_loop dest src 0 m = m(dest := 0)"
| "strncat_loop dest src (Suc count) m =
     (let c = m src; m = m(dest := c)
      in if c \<noteq> 0 then strncat_loop (dest + 1) (src + 1) count m else m)"

definition strncat :: "nat \<Rightarrow> nat \<Rightarrow> nat \<Rightarrow> mem \<Rightarrow> (nat \<times> mem) option" where
  "strncat dest src count m =
     (if count > 0 then do { d \<leftarrow> skip_string dest m; Some (dest, strncat_loop d src count m) }
      else Some (dest, m))"

text \<open>\<open>strncpy_pad\<close> is the second loop; both end after \<open>count\<close> bytes in all.\<close>

primrec strncpy_pad :: "nat \<Rightarrow> nat \<Rightarrow> mem \<Rightarrow> mem" where
  "strncpy_pad dest 0 m = m"
| "strncpy_pad dest (Suc n) m = strncpy_pad (dest + 1) n (m(dest := 0))"

primrec strncpy_loop :: "nat \<Rightarrow> nat \<Rightarrow> nat \<Rightarrow> mem \<Rightarrow> mem" where
  "strncpy_loop dest src 0 m = m"
| "strncpy_loop dest src (Suc n) m =
     (let c = m src; m = m(dest := c)
      in if c \<noteq> 0 then strncpy_loop (dest + 1) (src + 1) n m else strncpy_pad (dest + 1) n m)"

definition strncpy :: "nat \<Rightarrow> nat \<Rightarrow> nat \<Rightarrow> mem \<Rightarrow> nat \<times> mem" where
  "strncpy dest src count m = (dest, strncpy_loop dest src count m)"

text \<open>\<^verbatim>\<open>for (i = 0; ((i < s - 1) && src[i]); i++) dst[i] = src[i];\<close> with \<open>n\<close> the iterations left.\<close>

primrec strl_loop :: "nat \<Rightarrow> nat \<Rightarrow> nat \<Rightarrow> nat \<Rightarrow> mem \<Rightarrow> nat \<times> mem" where
  "strl_loop dst src i 0 m = (i, m)"
| "strl_loop dst src i (Suc n) m =
     (if m (src + i) \<noteq> 0 then strl_loop dst src (i + 1) n (m(dst + i := m (src + i))) else (i, m))"

definition strlcpy :: "nat \<Rightarrow> nat \<Rightarrow> nat \<Rightarrow> mem \<Rightarrow> (nat \<times> mem) option" where
  "strlcpy dst src s m =
     (if s = 0 then do { l \<leftarrow> strlen src m; Some (l, m) }
      else do {
        let (i, m) = strl_loop dst src 0 (s - 1) m;
        let m = m(dst + i := 0);
        l \<leftarrow> strlen (src + i) m;
        Some (i + l, m) })"

definition strlcat :: "nat \<Rightarrow> nat \<Rightarrow> nat \<Rightarrow> mem \<Rightarrow> (nat \<times> mem) option" where
  "strlcat dst src s m = do {
     let j = strnlen dst s m;
     if s = 0 then do { l \<leftarrow> strlen src m; Some (j + l, m) }
     else do {
       let dst = dst + j;
       let (i, m) = strl_loop dst src 0 (s - 1) m;
       let m = m(dst + i := 0);
       l \<leftarrow> strlen (src + i) m;
       Some (j + i + l, m) } }"

definition strxfrm :: "nat \<Rightarrow> nat \<Rightarrow> nat \<Rightarrow> mem \<Rightarrow> (nat \<times> mem) option" where
  "strxfrm dest src n m = do {
     len \<leftarrow> strlen src m;
     if n \<noteq> 0 then do {
       let copy_len = (if len < n then len else n - 1);
       (_, m) \<leftarrow> memcpy dest src copy_len m;
       Some (len, m(dest + copy_len := 0)) }
     else Some (len, m) }"

text \<open>\<open>malloc\<close> is the address the allocator returns for the copy, if any.\<close>

definition strdup :: "nat option \<Rightarrow> nat \<Rightarrow> mem \<Rightarrow> (nat option \<times> mem) option" where
  "strdup malloc str m = do {
     len \<leftarrow> map_option (\<lambda>l. l + 1) (strlen str m);
     case malloc of
       None \<Rightarrow> Some (None, m)
     | Some copy \<Rightarrow> do { (_, m) \<leftarrow> memcpy copy str len m; Some (Some copy, m) } }"

section \<open>Searching and splitting\<close>

function strstr_loop :: "nat \<Rightarrow> nat \<Rightarrow> int \<Rightarrow> int \<Rightarrow> mem \<Rightarrow> nat option" where
  "strstr_loop s1 s2 l1 l2 m =
     (if l1 \<ge> l2 then
        (if memcmp s1 s2 (nat l2) m = 0 then Some s1 else strstr_loop (s1 + 1) s2 (l1 - 1) l2 m)
      else None)"
  by pat_completeness auto
termination by (relation "measure (\<lambda>(s1, s2, l1, l2, m). nat (l1 - l2 + 1))") auto

declare strstr_loop.simps [simp del]

definition strstr :: "nat \<Rightarrow> nat \<Rightarrow> mem \<Rightarrow> nat option option" where
  "strstr s1 s2 m = do {
     l2 \<leftarrow> map_option int32 (strlen s2 m);
     if l2 = 0 then Some (Some s1)
     else do {
       l1 \<leftarrow> map_option int32 (strlen s1 m);
       Some (strstr_loop s1 s2 l1 l2 m) } }"

text \<open>The state of \<^verbatim>\<open>strtok\<close> is the static pointer, passed with the memory.\<close>

definition strtok :: "nat option \<Rightarrow> nat \<Rightarrow> nat option \<Rightarrow> mem \<Rightarrow> (nat option \<times> nat option \<times> mem) option" where
  "strtok s ct saved m =
     (case (if s \<noteq> None then s else saved) of
        None \<Rightarrow> Some (None, saved, m)
      | Some sbegin \<Rightarrow> do {
          n \<leftarrow> strspn sbegin ct m;
          let sbegin = sbegin + n;
          if m sbegin = 0 then Some (None, None, m)
          else do {
            send \<leftarrow> strpbrk sbegin ct m;
            let (send, m) = (case send of
                Some e \<Rightarrow> if m e \<noteq> 0 then (Some (e + 1), m(e := 0)) else (Some e, m)
              | None \<Rightarrow> (None, m));
            Some (Some sbegin, send, m) } })"

declare strlen_loop.simps [code] strchr_loop.simps [code] strrchr_loop.simps [code] in_string.simps [code]
  strspn_loop.simps [code] strpbrk.simps [code] strcmp.simps [code] strcasecmp.simps [code]
  strcpy_loop.simps [code] skip_string.simps [code]

section \<open>What the functions return\<close>

primrec cstr :: "mem \<Rightarrow> nat \<Rightarrow> u8 list \<Rightarrow> bool" where
  "cstr m p [] \<longleftrightarrow> m p = 0"
| "cstr m p (x # xs) \<longleftrightarrow> m p = x \<and> x \<noteq> 0 \<and> cstr m (p + 1) xs"

lemma cstr_frame: "cstr m p xs \<Longrightarrow> (\<And>i. i \<le> length xs \<Longrightarrow> m' (p + i) = m (p + i)) \<Longrightarrow> cstr m' p xs"
proof (induction xs arbitrary: p)
  case (Cons x xs)
  have "m' p = m p" using Cons.prems(2) [of 0] by simp
  moreover have "cstr m' (p + 1) xs" by (rule Cons.IH) (use Cons.prems(1) Cons.prems(2) [of "Suc i" for i] in auto)
  ultimately show ?case using Cons.prems(1) by simp
qed (use order_refl in fastforce)

lemma cstr_append: "cstr m p (xs @ ys) \<longleftrightarrow> (\<forall>i<length xs. m (p + i) = xs ! i) \<and> 0 \<notin> set xs \<and> cstr m (p + length xs) ys"
proof (induction xs arbitrary: p)
  case (Cons x xs)
  then show ?case by (auto simp: less_Suc_eq_0_disj)
qed simp

lemma cstr_drop: "cstr m p xs \<Longrightarrow> i \<le> length xs \<Longrightarrow> cstr m (p + i) (drop i xs)"
  using cstr_append [of m p "take i xs" "drop i xs"] by (simp add: min_absorb2)

lemma cstr_nth:
  assumes "cstr m p xs"
  shows "i < length xs \<Longrightarrow> m (p + i) = xs ! i" and "m (p + length xs) = 0" and "0 \<notin> set xs"
  using assms cstr_append [of m p xs "[]"] by simp_all

lemma cstrI: "(\<And>i. i < length xs \<Longrightarrow> m (p + i) = xs ! i) \<Longrightarrow> m (p + length xs) = 0 \<Longrightarrow> 0 \<notin> set xs \<Longrightarrow> cstr m p xs"
  using cstr_append [of m p xs "[]"] by simp

lemma strlen_loop_ok: "cstr m (s + i) xs \<Longrightarrow> strlen_loop s i m = Some (i + length xs)"
  by (induction xs arbitrary: i) (subst strlen_loop.simps; simp)+

lemma strlen_ok: "cstr m s xs \<Longrightarrow> strlen s m = Some (length xs)"
  using strlen_loop_ok [of m s 0] by (simp add: strlen_def)

lemma strnlen_loop_ok: "cstr m s xs \<Longrightarrow> strnlen_loop s n m = s + min n (length xs)"
  by (induction xs arbitrary: s n; case_tac n) auto

lemma strnlen_ok: "cstr m s xs \<Longrightarrow> strnlen s n m = min n (length xs)"
  by (simp add: strnlen_def strnlen_loop_ok)

lemma strchr_loop_ok:
  "cstr m s xs \<Longrightarrow> strchr_loop s c m = Some (map_option (\<lambda>i. s + i) (find (\<lambda>i. (xs @ [0]) ! i = c) [0..<Suc (length xs)]))"
proof (induction xs arbitrary: s)
  case Nil
  then show ?case by (subst strchr_loop.simps) simp
next
  case (Cons x xs)
  have "find P [0..<Suc (Suc n)] = (if P 0 then Some 0 else map_option Suc (find (\<lambda>i. P (Suc i)) [0..<Suc n]))" for P and n :: nat
    using find_map [of P Suc "[0..<Suc n]"] by (simp add: map_Suc_upt upt_conv_Cons del: upt_Suc)
  then show ?case using Cons by (subst strchr_loop.simps) (simp add: option.map_comp comp_def del: upt_Suc)
qed

lemma in_string_ok: "cstr m a ys \<Longrightarrow> in_string c a m = Some (c \<in> set ys)"
  by (induction ys arbitrary: a) (subst in_string.simps; auto)+

lemma strspn_loop_ok:
  "cstr m p xs \<Longrightarrow> cstr m a ys \<Longrightarrow> strspn_loop p a n m = Some (n + length (takeWhile (\<lambda>c. c \<in> set ys) xs))"
  by (induction xs arbitrary: p n) (subst strspn_loop.simps; simp add: in_string_ok)+

lemma strspn_ok: "cstr m p xs \<Longrightarrow> cstr m a ys \<Longrightarrow> strspn p a m = Some (length (takeWhile (\<lambda>c. c \<in> set ys) xs))"
  by (simp add: strspn_def strspn_loop_ok)

lemma strpbrk_ok:
  "cstr m p xs \<Longrightarrow> cstr m a ys \<Longrightarrow>
   strpbrk p a m = Some (if set xs \<inter> set ys = {} then None else Some (p + length (takeWhile (\<lambda>c. c \<notin> set ys) xs)))"
  by (induction xs arbitrary: p) (subst strpbrk.simps; simp add: in_string_ok)+

lemma skip_string_ok: "cstr m d xs \<Longrightarrow> skip_string d m = Some (d + length xs)"
  by (induction xs arbitrary: d) (subst skip_string.simps; simp)+

lemma schar_sdiff: "schar (sint (a :: u8) - sint b) = sint (a - b)"
  by (simp add: schar_def)

lemma sint_diff_0: "sint (a - b :: u8) = 0 \<longleftrightarrow> a = b"
  using schar_diff_0 [of a b] by (simp add: schar_diff)

text \<open>Comparison is by the first difference, the end of a string counting as a zero byte.\<close>

fun first_diff :: "u8 list \<Rightarrow> u8 list \<Rightarrow> u8 \<times> u8" where
  "first_diff (x # xs) (y # ys) = (if x = y then first_diff xs ys else (x, y))"
| "first_diff [] (y # ys) = (0, y)"
| "first_diff (x # xs) [] = (x, 0)"
| "first_diff [] [] = (0, 0)"

lemma first_diff_eq: "0 \<notin> set xs \<union> set ys \<Longrightarrow> fst (first_diff xs ys) = snd (first_diff xs ys) \<longleftrightarrow> xs = ys"
  by (induction xs ys rule: first_diff.induct) auto

lemma strcmp_step:
  "strcmp p q m = (if m p \<noteq> m q \<or> m p = 0 then Some (sint (m p - m q)) else strcmp (p + 1) (q + 1) m)"
  by (subst strcmp.simps) (auto simp: Let_def schar_sdiff sint_diff_0)

lemma strcmp_ok:
  "cstr m p xs \<Longrightarrow> cstr m q ys \<Longrightarrow> strcmp p q m = Some (case first_diff xs ys of (a, b) \<Rightarrow> sint (a - b))"
  by (induction xs ys arbitrary: p q rule: first_diff.induct) (subst strcmp_step; simp)+

lemma strncmp_step:
  "strncmp p q (Suc n) m = (if m p \<noteq> m q \<or> m p = 0 then sint (m p - m q) else strncmp (p + 1) (q + 1) n m)"
  by (auto simp: Let_def schar_sdiff sint_diff_0)

lemma strncmp_ok:
  "cstr m p xs \<Longrightarrow> cstr m q ys \<Longrightarrow>
   strncmp p q n m = (case first_diff (take n xs) (take n ys) of (a, b) \<Rightarrow> sint (a - b))"
proof (induction n arbitrary: xs ys p q)
  case (Suc n)
  then show ?case
    by (cases xs; cases ys) (simp_all add: strncmp_step del: strncmp.simps)
qed simp

text \<open>Copies need a destination that the source does not reach into.\<close>

definition apart :: "nat \<Rightarrow> nat \<Rightarrow> nat \<Rightarrow> nat \<Rightarrow> bool" where
  "apart p a q b \<longleftrightarrow> p + a \<le> q \<or> q + b \<le> p"

lemma strcpy_loop_ok:
  assumes "cstr m src xs" and "apart dest (Suc (length xs)) src (Suc (length xs))"
  shows "strcpy_loop dest src m = Some (copied dest src (Suc (length xs)) m)"
  using assms
proof (induction xs arbitrary: dest src m)
  case Nil
  then show ?case using upd_copied [of m dest src] by (subst strcpy_loop.simps) simp
next
  case (Cons x xs)
  have "cstr (m(dest := m src)) (src + 1) xs"
    by (rule cstr_frame [of m]) (use Cons.prems in \<open>auto simp: apart_def\<close>)
  moreover have "apart (dest + 1) (Suc (length xs)) (src + 1) (Suc (length xs))"
    using Cons.prems(2) by (auto simp: apart_def)
  ultimately have "strcpy_loop (dest + 1) (src + 1) (m(dest := m src)) =
      Some (copied (dest + 1) (src + 1) (Suc (length xs)) (copied dest src 1 m))"
    using Cons.IH by (simp add: upd_copied)
  moreover have "\<not> (src < dest \<and> dest < src + (1 + Suc (length xs)))" using Cons.prems(2) by (auto simp: apart_def)
  note copied_copied_up [OF this, of m]
  ultimately show ?case using Cons.prems(1) by (subst strcpy_loop.simps) (simp add: Let_def)
qed

lemma cstr_copied:
  assumes "cstr m src xs"
  shows "cstr (copied dest src (Suc (length xs)) m) dest xs"
  by (rule cstrI) (use cstr_nth [OF assms] in \<open>auto simp: copied_def\<close>)

lemma strcpy_ok:
  assumes "cstr m src xs" and "apart dest (Suc (length xs)) src (Suc (length xs))"
  shows "strcpy dest src m = Some (dest, copied dest src (Suc (length xs)) m)"
  using strcpy_loop_ok [OF assms] by (simp add: strcpy_def)

lemma strcat_ok:
  assumes "cstr m dest xs" and "cstr m src ys" and "apart dest (length xs + Suc (length ys)) src (Suc (length ys))"
  shows "strcat dest src m = Some (dest, copied (dest + length xs) src (Suc (length ys)) m)"
    and "cstr (copied (dest + length xs) src (Suc (length ys)) m) dest (xs @ ys)"
proof -
  have ap: "apart (dest + length xs) (Suc (length ys)) src (Suc (length ys))" using assms(3) by (auto simp: apart_def)
  show "strcat dest src m = Some (dest, copied (dest + length xs) src (Suc (length ys)) m)"
    using skip_string_ok [OF assms(1)] strcpy_loop_ok [OF assms(2) ap] by (simp add: strcat_def)
  show "cstr (copied (dest + length xs) src (Suc (length ys)) m) dest (xs @ ys)"
    unfolding cstr_append using cstr_nth [OF assms(1)] cstr_copied [OF assms(2)] by (auto simp: copied_def)
qed

lemma strl_loop_ok:
  assumes "cstr m (src + i) xs" and "apart (dst + i) n (src + i) (Suc (length xs))"
  shows "strl_loop dst src i n m = (i + min n (length xs), copied (dst + i) (src + i) (min n (length xs)) m)"
  using assms
proof (induction n arbitrary: xs i m)
  case (Suc n)
  show ?case
  proof (cases xs)
    case Nil
    then show ?thesis using Suc.prems by simp
  next
    case (Cons y ys)
    let ?k = "min n (length ys)"
    have "cstr (m(dst + i := m (src + i))) (src + (i + 1)) ys"
      by (rule cstr_frame [of m]) (use Suc.prems Cons in \<open>auto simp: apart_def\<close>)
    moreover have "apart (dst + (i + 1)) n (src + (i + 1)) (Suc (length ys))"
      using Suc.prems(2) Cons by (auto simp: apart_def)
    ultimately have "strl_loop dst src (i + 1) n (m(dst + i := m (src + i))) =
        (i + 1 + ?k, copied (dst + (i + 1)) (src + (i + 1)) ?k (copied (dst + i) (src + i) 1 m))"
      using Suc.IH by (simp add: upd_copied)
    moreover have "\<not> (src + i < dst + i \<and> dst + i < src + i + (1 + ?k))" using Suc.prems(2) Cons by (auto simp: apart_def)
    note copied_copied_up [OF this, of m]
    ultimately show ?thesis using Suc.prems(1) Cons by (simp add: ac_simps)
  qed
qed simp

lemma cstr_take:
  assumes "cstr m src ys"
  shows "cstr ((copied d src (min n (length ys)) m)(d + min n (length ys) := 0)) d (take n ys)"
proof (rule cstrI)
  fix i assume "i < length (take n ys)"
  then show "((copied d src (min n (length ys)) m)(d + min n (length ys) := 0)) (d + i) = take n ys ! i"
    using cstr_nth(1) [OF assms, of i] by (auto simp: copied_def)
next
  show "0 \<notin> set (take n ys)" using cstr_nth(3) [OF assms] by (auto dest: in_set_takeD)
qed (simp add: min.commute)

lemma strlcpy_ok:
  assumes "cstr m src xs" and "0 < s" and "apart dst s src (Suc (length xs))"
  shows "\<exists>m'. strlcpy dst src s m = Some (length xs, m') \<and> cstr m' dst (take (s - 1) xs) \<and>
           (\<forall>a. a < dst \<or> dst + s \<le> a \<longrightarrow> m' a = m a)"
proof -
  let ?k = "min (s - 1) (length xs)"
  let ?m = "(copied dst src ?k m)(dst + ?k := 0)"
  have "apart (dst + 0) (s - 1) (src + 0) (Suc (length xs))" using assms(3) by (auto simp: apart_def)
  from strl_loop_ok [OF _ this, of m] have l: "strl_loop dst src 0 (s - 1) m = (?k, copied dst src ?k m)"
    using assms(1) by simp
  have "cstr m (src + ?k) (drop ?k xs)" using cstr_drop [OF assms(1), of ?k] by simp
  then have "cstr ?m (src + ?k) (drop ?k xs)"
    by (rule cstr_frame) (use assms(2,3) in \<open>auto simp: apart_def copied_def\<close>)
  from strlen_ok [OF this] have "strlcpy dst src s m = Some (length xs, ?m)"
    using assms(2) l by (simp add: strlcpy_def)
  moreover have "cstr ?m dst (take (s - 1) xs)" by (rule cstr_take [OF assms(1)])
  moreover have "\<forall>a. a < dst \<or> dst + s \<le> a \<longrightarrow> ?m a = m a" using assms(2) by (auto simp: copied_def)
  ultimately show ?thesis by blast
qed

lemma strlcat_ok:
  assumes "cstr m dst xs" and "cstr m src ys" and "length xs < s"
    and "apart dst (length xs + s) src (Suc (length ys))"
  shows "\<exists>m'. strlcat dst src s m = Some (length xs + length ys, m') \<and> cstr m' dst (xs @ take (s - 1) ys)"
proof -
  let ?d = "dst + length xs" and ?k = "min (s - 1) (length ys)"
  let ?m = "(copied ?d src ?k m)(?d + ?k := 0)"
  have "apart (?d + 0) (s - 1) (src + 0) (Suc (length ys))" using assms(4) by (auto simp: apart_def)
  from strl_loop_ok [OF _ this, of m] have l: "strl_loop ?d src 0 (s - 1) m = (?k, copied ?d src ?k m)"
    using assms(2) by simp
  have "cstr m (src + ?k) (drop ?k ys)" using cstr_drop [OF assms(2), of ?k] by simp
  then have "cstr ?m (src + ?k) (drop ?k ys)"
    by (rule cstr_frame) (use assms(3,4) in \<open>auto simp: apart_def copied_def\<close>)
  from strlen_ok [OF this] have "strlcat dst src s m = Some (length xs + length ys, ?m)"
    using assms(3) l strnlen_ok [OF assms(1), of s] by (simp add: strlcat_def Let_def)
  moreover have "cstr ?m ?d (take (s - 1) ys)" by (rule cstr_take [OF assms(2)])
  then have "cstr ?m dst (xs @ take (s - 1) ys)"
    unfolding cstr_append using cstr_nth [OF assms(1)] by (auto simp: copied_def)
  ultimately show ?thesis by blast
qed

lemma memcmp_prefix:
  assumes "cstr m p xs" and "cstr m q ys" and "length ys \<le> length xs"
  shows "memcmp p q (length ys) m = 0 \<longleftrightarrow> take (length ys) xs = ys"
  using cstr_nth(1) [OF assms(1)] cstr_nth(1) [OF assms(2)] assms(3)
  by (auto simp: memcmp_eq_0 list_eq_iff_nth_eq)

lemma strstr_loop_ok:
  assumes "cstr m p xs" and "cstr m q ys" and "ys \<noteq> []"
  shows "strstr_loop p q (int (length xs)) (int (length ys)) m =
    map_option (\<lambda>i. p + i) (find (\<lambda>i. take (length ys) (drop i xs) = ys) [0..<Suc (length xs)])"
  using assms(1)
proof (induction xs arbitrary: p)
  case Nil
  then show ?case using assms(3) by (subst strstr_loop.simps) simp
next
  case (Cons x xs)
  let ?P = "\<lambda>i. take (length ys) (drop i (x # xs)) = ys"
  show ?case
  proof (cases "length ys \<le> length (x # xs)")
    case True
    have "find ?P [0..<Suc (length (x # xs))] =
        (if ?P 0 then Some 0 else map_option Suc (find (\<lambda>i. ?P (Suc i)) [0..<Suc (length xs)]))"
      using find_map [of ?P Suc "[0..<Suc (length xs)]"] by (simp add: map_Suc_upt upt_conv_Cons del: upt_Suc)
    moreover have "strstr_loop (p + 1) q (int (length (x # xs)) - 1) (int (length ys)) m =
        map_option (\<lambda>i. p + 1 + i) (find (\<lambda>i. ?P (Suc i)) [0..<Suc (length xs)])"
      using Cons.IH [of "p + 1"] Cons.prems by simp
    moreover have "memcmp p q (length ys) m = 0 \<longleftrightarrow> ?P 0"
      using memcmp_prefix [OF Cons.prems assms(2) True] by simp
    ultimately show ?thesis using True
      by (subst strstr_loop.simps) (simp add: option.map_comp comp_def del: upt_Suc)
  next
    case False
    then have "\<not> ?P i" for i by (metis length_drop length_take min_less_iff_conj nat_neq_iff not_le diff_le_self le_trans)
    then have "find ?P [0..<Suc (length (x # xs))] = None" by (simp add: find_None_iff)
    then show ?thesis using False by (subst strstr_loop.simps) (simp del: upt_Suc)
  qed
qed

lemma strstr_ok:
  assumes "cstr m p xs" and "cstr m q ys" and "length xs < 2 ^ 31" and "length ys < 2 ^ 31"
  shows "strstr p q m = Some (map_option (\<lambda>i. p + i) (find (\<lambda>i. take (length ys) (drop i xs) = ys) [0..<Suc (length xs)]))"
proof (cases "ys = []")
  case True
  then show ?thesis using assms strlen_ok [OF assms(2)] by (simp add: strstr_def upt_conv_Cons del: upt_Suc)
next
  case False
  then show ?thesis
    using assms strlen_ok [OF assms(1)] strlen_ok [OF assms(2)] strstr_loop_ok [OF assms(1,2) False]
    by (simp add: strstr_def del: upt_Suc)
qed

text \<open>
  One call of \<^verbatim>\<open>strtok\<close>: \<open>ys\<close> is what is left of the string without the leading delimiters, the token is its
  longest prefix without a delimiter.
\<close>

lemma strtok_ok:
  assumes x: "cstr m p xs" and d: "cstr m ct ds" and ap: "apart p (Suc (length xs)) ct (Suc (length ds))"
    and s: "s = Some p \<or> s = None \<and> saved = Some p"
  defines "ys \<equiv> dropWhile (\<lambda>c. c \<in> set ds) xs"
  defines "tok \<equiv> takeWhile (\<lambda>c. c \<notin> set ds) ys"
  defines "q \<equiv> p + (length xs - length ys)"
  shows "if ys = [] then strtok s ct saved m = Some (None, None, m)
    else \<exists>saved' m'. strtok s ct saved m = Some (Some q, saved', m') \<and> cstr m' q tok \<and> cstr m' ct ds \<and>
      (if tok = ys then saved' = None
       else saved' = Some (q + length tok + 1) \<and> cstr m' (q + length tok + 1) (drop (length tok + 1) ys))"
proof -
  have n: "length (takeWhile (\<lambda>c. c \<in> set ds) xs) = length xs - length ys"
    using takeWhile_dropWhile_id [of "\<lambda>c. c \<in> set ds" xs] unfolding ys_def by (metis length_append add_diff_cancel_right')
  have "drop (length xs - length ys) xs = ys" using dropWhile_eq_drop [of "\<lambda>c. c \<in> set ds" xs] n by (simp add: ys_def)
  then have y: "cstr m q ys" using cstr_drop [OF x, of "length xs - length ys"] by (simp add: q_def)
  have le: "length ys \<le> length xs" by (simp add: ys_def length_dropWhile_le)
  have b: "strspn p ct m = Some (length xs - length ys)" using strspn_ok [OF x d] n by simp
  have e: "strpbrk q ct m = Some (if set ys \<inter> set ds = {} then None else Some (q + length tok))"
    using strpbrk_ok [OF y d] by (simp add: tok_def)
  have src: "(if s \<noteq> None then s else saved) = Some p" using s by auto
  have tk: "tok = ys \<longleftrightarrow> set ys \<inter> set ds = {}" by (auto simp: tok_def takeWhile_eq_all_conv)
  show ?thesis
  proof (cases "ys = []")
    case True
    then show ?thesis using y b src by (simp add: strtok_def q_def Let_def)
  next
    case False
    then have nz: "m q \<noteq> 0" using y by (cases ys) auto
    show ?thesis
    proof (cases "tok = ys")
      case True
      then have "strtok s ct saved m = Some (Some q, None, m)"
        using b e nz src tk by (simp add: strtok_def q_def Let_def)
      then show ?thesis using False True y d by simp
    next
      case f: False
      let ?m = "m(q + length tok := 0)"
      have t: "tok = take (length tok) ys" unfolding tok_def by (rule takeWhile_eq_take)
      have lt: "length tok < length ys" by (rule ccontr) (use t f in simp)
      then have "m (q + length tok) \<noteq> 0" using cstr_nth(1,3) [OF y] by (metis nth_mem)
      then have st: "strtok s ct saved m = Some (Some q, Some (q + length tok + 1), ?m)"
        using b e nz src tk f by (simp add: strtok_def q_def Let_def)
      have "cstr ?m q tok"
      proof (rule cstrI)
        fix i assume "i < length tok"
        then show "?m (q + i) = tok ! i" using lt cstr_nth(1) [OF y, of i] nth_take [of i "length tok" ys] t by simp
      next
        show "0 \<notin> set tok" using cstr_nth(3) [OF y] by (auto simp: tok_def dest: set_takeWhileD)
      qed simp
      moreover have "cstr ?m ct ds"
      proof (rule cstr_frame [OF d])
        fix i assume "i \<le> length ds"
        moreover have "q + length ys = p + length xs" using le by (simp add: q_def)
        ultimately have "ct + i \<noteq> q + length tok" using ap lt by (auto simp: apart_def q_def)
        then show "?m (ct + i) = m (ct + i)" by simp
      qed
      moreover have "cstr m (q + length tok + 1) (drop (length tok + 1) ys)"
        using cstr_drop [OF y, of "length tok + 1"] lt by (simp add: add.assoc)
      then have "cstr ?m (q + length tok + 1) (drop (length tok + 1) ys)" by (rule cstr_frame) simp
      ultimately show ?thesis using False f st by simp
    qed
  qed
qed

section \<open>Properties\<close>

text \<open>A string in otherwise zero memory.\<close>

primrec put_string :: "nat \<Rightarrow> string \<Rightarrow> mem \<Rightarrow> mem" where
  "put_string p [] m = m(p := 0)"
| "put_string p (c # cs) m = put_string (p + 1) cs (m(p := of_char c))"

text \<open>
  C26. \<^verbatim>\<open>strlcpy\<close> keeps to its buffer: with a size of at least one it leaves the longest prefix of the source
  that fits, terminated, changes no byte outside the buffer, and returns the length of the source.
\<close>

theorem strlcpy_bounded:
  assumes "cstr m src xs" and "0 < s" and "apart dst s src (Suc (length xs))"
  shows "\<exists>m'. strlcpy dst src s m = Some (length xs, m') \<and> cstr m' dst (take (s - 1) xs) \<and>
           (\<forall>a. a < dst \<or> dst + s \<le> a \<longrightarrow> m' a = m a)"
  using strlcpy_ok [OF assms] .

definition hello_mem :: mem where
  "hello_mem = put_string 100 ''hello, world'' (put_string 200 ''lo,'' (\<lambda>_. 0))"

lemma hello_mem_strings:
  "cstr hello_mem 100 [104, 101, 108, 108, 111, 44, 32, 119, 111, 114, 108, 100]" "cstr hello_mem 200 [108, 111, 44]"
  by (simp_all add: hello_mem_def)

theorem strlcpy_bounded_witness:
  "\<exists>m'. strlcpy 300 100 6 hello_mem = Some (12, m') \<and> cstr m' 300 [104, 101, 108, 108, 111]"
  using strlcpy_bounded [OF hello_mem_strings(1), of 6 300] by (auto simp: apart_def)

text \<open>
  C27. \<^verbatim>\<open>strlcat\<close> does not keep to its buffer: it bounds the bytes it appends by the size of the whole buffer, not
  by what is left of it. When there is a string in the buffer and the two together do not fit, the string it
  leaves is longer than the buffer.
\<close>

theorem strlcat_overflows:
  assumes "cstr m dst xs" and "cstr m src ys" and "xs \<noteq> []" and "length xs < s" and "s \<le> length xs + length ys"
    and "apart dst (length xs + s) src (Suc (length ys))"
  shows "\<exists>m' zs. strlcat dst src s m = Some (length xs + length ys, m') \<and> cstr m' dst zs \<and> s \<le> length zs"
proof -
  have "0 < length xs" using assms(3) by simp
  then have "s \<le> length (xs @ take (s - 1) ys)" using assms(4,5) unfolding length_append length_take by linarith
  then show ?thesis using strlcat_ok [OF assms(1,2,4,6)] by blast
qed

theorem strlcat_overflows_witness:
  "\<exists>m' zs. strlcat 200 100 8 hello_mem = Some (15, m') \<and> cstr m' 200 zs \<and> 8 \<le> length zs"
proof -
  let ?xs = "[108, 111, 44] :: u8 list" and ?ys = "[104, 101, 108, 108, 111, 44, 32, 119, 111, 114, 108, 100] :: u8 list"
  have h: "?xs \<noteq> []" "length ?xs < 8" "8 \<le> length ?xs + length ?ys" "apart 200 (length ?xs + 8) 100 (Suc (length ?ys))"
    by (simp_all add: apart_def)
  have "length ?xs + length ?ys = 15" by simp
  then show ?thesis using strlcat_overflows [OF hello_mem_strings(2,1) h] by (simp only:)
qed

text \<open>
  C28. \<^verbatim>\<open>strstr\<close> returns the first place at which the second string occurs in the first, and NULL when there is
  none, for strings of less than two gigabytes.
\<close>

theorem strstr_first:
  assumes "cstr m p xs" and "cstr m q ys" and "length xs < 2 ^ 31" and "length ys < 2 ^ 31"
  shows "case strstr p q m of
      None \<Rightarrow> False
    | Some None \<Rightarrow> \<forall>i. take (length ys) (drop i xs) \<noteq> ys
    | Some (Some r) \<Rightarrow> \<exists>i. r = p + i \<and> take (length ys) (drop i xs) = ys \<and> (\<forall>j<i. take (length ys) (drop j xs) \<noteq> ys)"
proof -
  let ?P = "\<lambda>i. take (length ys) (drop i xs) = ys"
  have past: "?P i \<Longrightarrow> \<exists>j\<le>length xs. ?P j" for i
    by (cases "i \<le> length xs") (auto intro: exI [of _ "length xs"])
  show ?thesis
  proof (cases "find ?P [0..<Suc (length xs)]")
    case None
    then have "\<not> ?P i" for i using past [of i] by (auto simp: find_None_iff less_Suc_eq_le simp del: upt_Suc)
    then show ?thesis using strstr_ok [OF assms] None by simp
  next
    case (Some i)
    then have "?P i" "\<forall>j<i. \<not> ?P j" by (auto simp: find_Some_iff simp del: upt_Suc)
    then show ?thesis using strstr_ok [OF assms] Some by (auto simp del: upt_Suc)
  qed
qed

theorem strstr_first_witness: "strstr 100 200 hello_mem = Some (Some 103)"
proof -
  have "strstr 100 200 hello_mem \<noteq> None" "strstr 100 200 hello_mem \<noteq> Some None"
    using strstr_first [OF hello_mem_strings] by (auto split: option.splits dest: spec [of _ 3])
  then show ?thesis using strstr_first [OF hello_mem_strings] strstr_ok [OF hello_mem_strings] by (simp add: upt_rec)
qed

text \<open>
  C25. One call of \<^verbatim>\<open>strtok\<close>: leading delimiters are skipped; when nothing is left it returns NULL and the saved
  position is cleared; otherwise the longest prefix without a delimiter is returned as a string of its own,
  and the saved position is the string after the delimiter that ended it, or cleared at the end.
\<close>

theorem strtok_splits:
  assumes "cstr m p xs" and "cstr m ct ds" and "apart p (Suc (length xs)) ct (Suc (length ds))"
    and "s = Some p \<or> s = None \<and> saved = Some p"
  shows "let ys = dropWhile (\<lambda>c. c \<in> set ds) xs; tok = takeWhile (\<lambda>c. c \<notin> set ds) ys; q = p + (length xs - length ys) in
    if ys = [] then strtok s ct saved m = Some (None, None, m)
    else \<exists>saved' m'. strtok s ct saved m = Some (Some q, saved', m') \<and> cstr m' q tok \<and> cstr m' ct ds \<and>
      (if tok = ys then saved' = None
       else saved' = Some (q + length tok + 1) \<and> cstr m' (q + length tok + 1) (drop (length tok + 1) ys))"
  unfolding Let_def using strtok_ok [OF assms] .

theorem strtok_splits_witness:
  "\<exists>m'. strtok (Some 100) 200 None hello_mem = Some (Some 100, Some 103, m') \<and> cstr m' 100 [104, 101]"
  using strtok_splits [OF hello_mem_strings, of "Some 100" None] by (simp add: apart_def Let_def) blast

end
