(* ===== verification/Cnum.thy ===== *)
theory Cnum
  imports Cstring "HOL-Library.Signed_Division"
begin

text \<open>
  The number parsers of \<^verbatim>\<open>lib/libc\<close> (\<^verbatim>\<open>strtol.c\<close>, \<^verbatim>\<open>strtoll.c\<close>, \<^verbatim>\<open>atoi.c\<close>), \<^verbatim>\<open>bsearch.c\<close> and the
  generator of \<^verbatim>\<open>rand.c\<close>. \<^verbatim>\<open>long\<close> has 64 bits. The accumulators of \<^verbatim>\<open>strtol\<close> are unbounded integers in the
  model: the proofs show that they stay in the range of a \<^verbatim>\<open>long\<close>. The unsigned accumulators are 64-bit
  words.

  The reference is the value of the longest run of digits, an unbounded integer, cut off at the limits.
\<close>

unbundle bit_operations_syntax

section \<open>Signed numbers\<close>

abbreviation (input) LONG_MAX :: int where "LONG_MAX \<equiv> 2 ^ 63 - 1"
abbreviation (input) LONG_MIN :: int where "LONG_MIN \<equiv> - (2 ^ 63)"
abbreviation (input) LLONG_MAX :: int where "LLONG_MAX \<equiv> 2 ^ 63 - 1"
abbreviation (input) LLONG_MIN :: int where "LLONG_MIN \<equiv> - (2 ^ 63)"

text \<open>\<^verbatim>\<open>do { c = (unsigned char) *s++; } while (isspace(c));\<close>\<close>

partial_function (option) skip_space :: "nat \<Rightarrow> mem \<Rightarrow> (int \<times> nat) option" where
  "skip_space s m = (let c = uint (m s) in if isspace c then skip_space (s + 1) m else Some (c, s + 1))"

definition digit_val :: "int \<Rightarrow> int option" where
  "digit_val c = (if isdigit c then Some (c - 48)
                  else if isalpha c then Some (c - (if isupper c then 65 - 10 else 97 - 10))
                  else None)"

text \<open>One digit: the accumulator, \<^verbatim>\<open>any\<close> and whether \<^verbatim>\<open>errno\<close> has been set to \<^verbatim>\<open>ERANGE\<close>.\<close>

definition add_digit :: "int \<Rightarrow> int \<Rightarrow> bool \<Rightarrow> int \<Rightarrow> int \<Rightarrow> int \<Rightarrow> int \<Rightarrow> int \<times> int \<times> bool \<Rightarrow> int \<times> int \<times> bool" where
  "add_digit lmin lmax neg base cutoff cutlim c st = (case st of (acc, any, erange) \<Rightarrow>
     if any < 0 then (acc, any, erange)
     else if neg then
       (if acc < cutoff \<or> acc = cutoff \<and> c > cutlim then (lmin, - 1, True) else (acc * base - c, 1, erange))
     else
       (if acc > cutoff \<or> acc = cutoff \<and> c > cutlim then (lmax, - 1, True) else (acc * base + c, 1, erange)))"

partial_function (option) strtol_loop ::
  "int \<Rightarrow> int \<Rightarrow> bool \<Rightarrow> int \<Rightarrow> int \<Rightarrow> int \<Rightarrow> int \<Rightarrow> nat \<Rightarrow> int \<times> int \<times> bool \<Rightarrow> mem \<Rightarrow> ((int \<times> int \<times> bool) \<times> nat) option" where
  "strtol_loop lmin lmax neg base cutoff cutlim c s st m =
     (case digit_val c of
        None \<Rightarrow> Some (st, s)
      | Some v \<Rightarrow>
          if v \<ge> base then Some (st, s)
          else strtol_loop lmin lmax neg base cutoff cutlim (uint (m s)) (s + 1)
                 (add_digit lmin lmax neg base cutoff cutlim v st) m)"

text \<open>
  The body shared by \<^verbatim>\<open>strtol\<close> and \<^verbatim>\<open>strtoll\<close>, which differ in the limits. The result is the number, the
  end pointer and whether \<^verbatim>\<open>errno\<close> is set.
\<close>

definition strtol_body :: "int \<Rightarrow> int \<Rightarrow> nat \<Rightarrow> int \<Rightarrow> mem \<Rightarrow> (int \<times> nat \<times> bool) option" where
  "strtol_body lmin lmax nptr base m = do {
     (c, s) \<leftarrow> skip_space nptr m;
     let (neg, c, s) = (if c = 45 then (True, sint (m s), s + 1)
                        else if c = 43 then (False, sint (m s), s + 1)
                        else (False, c, s));
     let (base, c, s) = (if (base = 0 \<or> base = 16) \<and> c = 48 \<and> (m s = 120 \<or> m s = 88)
                         then (16, sint (m (s + 1)), s + 2) else (base, c, s));
     let base = (if base = 0 then (if c = 48 then 8 else 10) else base);
     let cutoff = (if neg then lmin else lmax);
     let cutlim = cutoff smod base;
     let cutoff = cutoff sdiv base;
     let (cutoff, cutlim) = (if neg then
                               (let (cutoff, cutlim) = (if cutlim > 0 then (cutoff + 1, cutlim - base) else (cutoff, cutlim))
                                in (cutoff, - cutlim))
                             else (cutoff, cutlim));
     ((acc, any, erange), s) \<leftarrow> strtol_loop lmin lmax neg base cutoff cutlim c s (0, 0, False) m;
     Some (acc, if any \<noteq> 0 then s - 1 else nptr, erange) }"

definition strtol :: "nat \<Rightarrow> int \<Rightarrow> mem \<Rightarrow> (int \<times> nat \<times> bool) option" where
  "strtol nptr base m = strtol_body LONG_MIN LONG_MAX nptr base m"

definition strtoll :: "nat \<Rightarrow> int \<Rightarrow> mem \<Rightarrow> (int \<times> nat \<times> bool) option" where
  "strtoll nptr base m = strtol_body LLONG_MIN LLONG_MAX nptr base m"

section \<open>The other parsers\<close>

definition hexval :: "int \<Rightarrow> int" where
  "hexval c = (if c \<ge> 48 \<and> c \<le> 57 then c - 48
               else if c \<ge> 97 \<and> c \<le> 102 then c - 97 + 10
               else if c \<ge> 65 \<and> c \<le> 70 then c - 65 + 10
               else 0)"

partial_function (option) hex_loop :: "u64 \<Rightarrow> nat \<Rightarrow> mem \<Rightarrow> u64 option" where
  "hex_loop value num m =
     (if m num \<noteq> 0 \<and> isxdigit (sint (m num))
      then hex_loop (value * 16 + word_of_int (hexval (sint (m num)))) (num + 1) m else Some value)"

partial_function (option) dec_loop :: "u64 \<Rightarrow> nat \<Rightarrow> mem \<Rightarrow> u64 option" where
  "dec_loop value num m =
     (if m num \<noteq> 0 \<and> isdigit (sint (m num))
      then dec_loop (value * 10 + word_of_int (sint (m num)) - 48) (num + 1) m else Some value)"

partial_function (option) skip_blanks :: "nat \<Rightarrow> mem \<Rightarrow> nat option" where
  "skip_blanks num m = (if isspace (sint (m num)) then skip_blanks (num + 1) m else Some num)"

text \<open>The \<^verbatim>\<open>long long\<close> of \<^verbatim>\<open>atol\<close> is kept as its 64-bit pattern.\<close>

definition atol :: "nat \<Rightarrow> mem \<Rightarrow> int option" where
  "atol num m = do {
     num \<leftarrow> skip_blanks num m;
     (neg, value) \<leftarrow>
       (if m num = 48 \<and> m (num + 1) = 120 then do { v \<leftarrow> hex_loop 0 (num + 2) m; Some (False, v) }
        else do {
          let (neg, num) = (if m num = 45 then (True, num + 1) else if m num = 43 then (False, num + 1) else (False, num));
          v \<leftarrow> dec_loop 0 num m;
          Some (neg, v) });
     Some (sint (if neg then - value else value)) }"

definition atoul :: "nat \<Rightarrow> mem \<Rightarrow> u64 option" where
  "atoul num m = (if m num = 48 \<and> m (num + 1) = 120 then hex_loop 0 (num + 2) m else dec_loop 0 num m)"

definition atoull :: "nat \<Rightarrow> mem \<Rightarrow> u64 option" where
  "atoull num m = (if m num = 48 \<and> m (num + 1) = 120 then hex_loop 0 (num + 2) m else dec_loop 0 num m)"

definition atoi :: "nat \<Rightarrow> mem \<Rightarrow> int option" where
  "atoi num m = map_option (\<lambda>v. sint (word_of_int v :: u32)) (atol num m)"

definition atoui :: "nat \<Rightarrow> mem \<Rightarrow> u32 option" where
  "atoui num m = map_option ucast (atoul num m)"

definition strtoul_digit :: "int \<Rightarrow> int" where
  "strtoul_digit c = (if c \<ge> 65 \<and> c \<le> 90 then c - 65 + 10
                      else if c \<ge> 97 \<and> c \<le> 122 then c - 97 + 10
                      else if c \<ge> 48 \<and> c \<le> 57 then c - 48
                      else - 1)"

definition strtoul_add :: "int \<Rightarrow> int \<Rightarrow> u64 \<times> bool \<Rightarrow> u64 \<times> bool" where
  "strtoul_add base v st = (case st of (ret, erange) \<Rightarrow>
     (let new_ret = ret * word_of_int base
      in if new_ret div word_of_int base \<noteq> ret \<or> new_ret + word_of_int v < new_ret \<or> ret = - 1
         then (- 1, True) else (new_ret + word_of_int v, erange)))"

partial_function (option) strtoul_loop :: "int \<Rightarrow> nat \<Rightarrow> u64 \<times> bool \<Rightarrow> mem \<Rightarrow> ((u64 \<times> bool) \<times> nat) option" where
  "strtoul_loop base nptr st m =
     (let v = strtoul_digit (sint (m nptr))
      in if v < 0 \<or> v \<ge> base then Some (st, nptr) else strtoul_loop base (nptr + 1) (strtoul_add base v st) m)"

text \<open>The result is the number, the end pointer if it is written, and the error number, if one is set.\<close>

datatype errno = EINVAL | ERANGE

definition strtoul :: "nat \<Rightarrow> int \<Rightarrow> mem \<Rightarrow> (u64 \<times> nat option \<times> errno option) option" where
  "strtoul nptr base m =
     (if base < 0 \<or> base = 1 \<or> base > 36 then Some (0, None, Some EINVAL)
      else do {
        nptr \<leftarrow> skip_blanks nptr m;
        let (neg, nptr) = (if m nptr = 43 then (False, nptr + 1) else if m nptr = 45 then (True, nptr + 1) else (False, nptr));
        let (base, nptr) = (if (base = 0 \<or> base = 16) \<and> m nptr = 48 \<and> m (nptr + 1) = 120 then (16, nptr + 2)
                            else if base = 0 \<and> m nptr = 48 then (8, nptr + 1)
                            else if base = 0 then (10, nptr)
                            else (base, nptr));
        ((ret, erange), nptr) \<leftarrow> strtoul_loop base nptr (0, False) m;
        Some (if neg \<and> ret \<noteq> - 1 then - ret else ret, Some nptr, if erange then Some ERANGE else None) })"

section \<open>Binary search and random numbers\<close>

text \<open>
  The key and the array are the function \<open>cmp\<close>, the result of \<^verbatim>\<open>compare\<close> on the key and the element with
  that index; touching an element outside the array fails.
\<close>

partial_function (option) bsearch_loop :: "(nat \<Rightarrow> int) \<Rightarrow> nat \<Rightarrow> u64 \<Rightarrow> u64 \<Rightarrow> nat option option" where
  "bsearch_loop cmp num_elems low high = do {
     let mid = low + (high - low) div 2;
     chk (unat mid < num_elems);
     let r = cmp (unat mid);
     if r < 0 then (if mid = 0 then Some None else bsearch_loop cmp num_elems low (mid - 1))
     else if r > 0 then
       (let low = mid + 1
        in if low < mid \<or> low > high then Some None else bsearch_loop cmp num_elems low high)
     else Some (Some (unat mid)) }"

definition bsearch :: "(nat \<Rightarrow> int) \<Rightarrow> nat \<Rightarrow> nat option option" where
  "bsearch cmp num_elems = (if num_elems = 0 then Some None
     else bsearch_loop cmp num_elems 0 (word_of_nat num_elems - 1))"

type_synonym randseed = u32

definition srand :: "u32 \<Rightarrow> randseed \<Rightarrow> randseed" where
  "srand seed s = seed"

definition rand_add_entropy :: "u8 list \<Rightarrow> randseed \<Rightarrow> randseed" where
  "rand_add_entropy buf s =
     (if buf = [] then s
      else s XOR foldl (\<lambda>enp c. (push_bit 8 enp OR drop_bit 24 enp) XOR ucast c) 0 buf)"

definition rand :: "randseed \<Rightarrow> int \<times> randseed" where
  "rand s = (let s = s * 1664525 + 1013904223 in (sint s, s))"

declare skip_space.simps [code] strtol_loop.simps [code] hex_loop.simps [code] dec_loop.simps [code]
  skip_blanks.simps [code] strtoul_loop.simps [code] bsearch_loop.simps [code]

section \<open>What the signed parsers return\<close>

fun digit_run :: "int \<Rightarrow> u8 list \<Rightarrow> int list" where
  "digit_run base [] = []"
| "digit_run base (b # bs) =
     (case digit_val (uint b) of Some v \<Rightarrow> if v < base then v # digit_run base bs else [] | None \<Rightarrow> [])"

definition num_val :: "int \<Rightarrow> int list \<Rightarrow> int" where
  "num_val base ds = foldl (\<lambda>a d. a * base + d) 0 ds"

text \<open>The sign, the base and what follows the prefix.\<close>

definition scan :: "int \<Rightarrow> u8 list \<Rightarrow> bool \<times> int \<times> u8 list" where
  "scan base bs = (let
     r = dropWhile (\<lambda>b. isspace (uint b)) bs;
     (neg, r) = (case r of b # t \<Rightarrow> if b = 45 then (True, t) else if b = 43 then (False, t) else (False, r)
                         | [] \<Rightarrow> (False, r));
     (base, r) = (case r of a # b # t \<Rightarrow> if (base = 0 \<or> base = 16) \<and> a = 48 \<and> (b = 120 \<or> b = 88) then (16, t) else (base, r)
                          | _ \<Rightarrow> (base, r));
     base = (if base = 0 then (case r of a # _ \<Rightarrow> if a = 48 then 8 else 10 | [] \<Rightarrow> 10) else base)
   in (neg, base, r))"

lemma sint_uint_char: "sint (b :: u8) = (if uint b < 128 then uint b else uint b - 256)"
proof -
  have lt: "unat b < 256" using unsigned_less [of b, where ?'a = nat] by simp
  have iff: "uint b < 128 \<longleftrightarrow> unat b < 128" unfolding uint_nat by linarith
  show ?thesis
  proof (cases "unat b < 128")
    case True
    then show ?thesis using sint_of_small [where ?'a = 8, of "unat b"] iff by simp
  next
    case False
    then show ?thesis using sint_of_big [where ?'a = 8, of "unat b"] iff lt by simp
  qed
qed

lemma digit_val_sint: "digit_val (sint b) = digit_val (uint (b :: u8))"
  using unsigned_less [of b, where ?'a = int]
  by (auto simp: sint_uint_char digit_val_def isdigit_def isalpha_def isupper_def islower_def)

lemma digit_val_range: "digit_val c = Some v \<Longrightarrow> 0 \<le> v \<and> v < 36"
  by (auto simp: digit_val_def isdigit_def isalpha_def isupper_def islower_def split: if_splits)

lemma digit_run_range: "v \<in> set (digit_run base bs) \<Longrightarrow> 0 \<le> v \<and> v < base"
  by (induction bs) (auto dest: digit_val_range digit_val_range [OF sym] split: option.splits if_splits)

text \<open>The character \<open>c\<close> in hand, the pointer one past it, and the string that starts with \<open>c\<close>.\<close>

definition reading :: "mem \<Rightarrow> int \<Rightarrow> nat \<Rightarrow> u8 list \<Rightarrow> bool" where
  "reading m c s r \<longleftrightarrow> (\<exists>q. s = q + 1 \<and> cstr m q r \<and> (c = uint (m q) \<or> c = sint (m q)))"

lemma char_eq:
  assumes "c = uint (b :: u8) \<or> c = sint b" and "0 \<le> k" and "k < 128"
  shows "c = k \<longleftrightarrow> b = word_of_int k"
proof -
  have "uint (word_of_int k :: u8) = k" using assms(2,3) by (simp add: uint_word_of_int_eq take_bit_int_eq_self)
  then have "b = word_of_int k \<longleftrightarrow> uint b = k" by (metis word_of_int_uint)
  moreover have "0 \<le> uint b" "uint b < 256" using unsigned_less [of b, where ?'a = int] by simp_all
  ultimately show ?thesis using assms by (auto simp: sint_uint_char split: if_splits)
qed

lemma reading_is:
  assumes "reading m c s r" and "0 < k" and "k < 128"
  shows "c = k \<longleftrightarrow> (\<exists>t. r = word_of_int k # t)"
proof -
  obtain q where q: "cstr m q r" "c = uint (m q) \<or> c = sint (m q)" using assms(1) by (auto simp: reading_def)
  have "word_of_int k \<noteq> (0 :: u8)" using assms(2,3) char_eq [of 0 0 k] by auto
  then have "m q = word_of_int k \<longleftrightarrow> (\<exists>t. r = word_of_int k # t)" using q(1) by (cases r) auto
  then show ?thesis using char_eq [OF q(2), of k] assms(2,3) by simp
qed

lemma reading_next:
  assumes "reading m c s (b # t)"
  shows "reading m (sint (m s)) (s + 1) t" "reading m (uint (m s)) (s + 1) t" "cstr m s t"
  using assms by (auto simp: reading_def)

lemma reading_digit:
  assumes "reading m c s r"
  shows "digit_val c = (case r of [] \<Rightarrow> None | b # _ \<Rightarrow> digit_val (uint b))"
proof -
  obtain q where q: "cstr m q r" "c = uint (m q) \<or> c = sint (m q)" using assms by (auto simp: reading_def)
  then have "digit_val c = digit_val (uint (m q))" using digit_val_sint [of "m q"] by auto
  then show ?thesis using q(1)
    by (cases r) (auto simp: digit_val_def isdigit_def isalpha_def isupper_def islower_def)
qed

lemma skip_space_ok:
  assumes "cstr m s bs"
  defines "r \<equiv> dropWhile (\<lambda>b. isspace (uint b)) bs"
  shows "\<exists>c t. skip_space s m = Some (c, t) \<and> reading m c t r \<and> t + length r = s + length bs + 1"
  using assms(1) unfolding r_def
proof (induction bs arbitrary: s)
  case Nil
  then show ?case by (subst skip_space.simps) (simp add: isspace_def reading_def)
next
  case (Cons b bs)
  show ?case
  proof (cases "isspace (uint b)")
    case True
    then have "skip_space s m = skip_space (s + 1) m" using Cons.prems by (subst skip_space.simps) (simp add: Let_def)
    then show ?thesis using Cons.IH [of "s + 1"] Cons.prems True by simp
  next
    case False
    then show ?thesis using Cons.prems by (subst skip_space.simps) (auto simp: reading_def Let_def)
  qed
qed

lemma strtol_loop_ok:
  assumes "reading m c s bs"
  shows "strtol_loop lmin lmax neg base cutoff cutlim c s st m =
    Some (foldl (\<lambda>st v. add_digit lmin lmax neg base cutoff cutlim v st) st (digit_run base bs),
          s + length (digit_run base bs))"
  using assms
proof (induction bs arbitrary: c s st)
  case Nil
  then show ?case using reading_digit [OF Nil] by (subst strtol_loop.simps) simp
next
  case (Cons b bs)
  show ?case
    using Cons.IH [OF reading_next(2) [OF Cons.prems]] reading_digit [OF Cons.prems]
    by (subst strtol_loop.simps) (auto split: option.split)
qed

text \<open>The test against the cutoff is exact.\<close>

lemma cutoff_iff:
  assumes "0 < b" and "0 \<le> c" and "c < b"
  shows "K < V * b + c \<longleftrightarrow> K div b < V \<or> V = K div b \<and> K mod b < (c :: int)"
proof -
  define q r where "q = K div b" and "r = K mod b"
  have K: "K = q * b + r" "0 \<le> r" "r < b" using assms(1) by (simp_all add: q_def r_def)
  consider "V < q" | "V = q" | "q < V" by linarith
  then have "K < V * b + c \<longleftrightarrow> q < V \<or> V = q \<and> r < c"
  proof cases
    case 1
    then have "(V + 1) * b \<le> q * b" using assms(1) by (intro mult_right_mono) simp_all
    then have "V * b + b \<le> q * b" by (simp add: distrib_right)
    then show ?thesis using K(2) 1 assms(3) unfolding K(1) by linarith
  next
    case 2
    then show ?thesis unfolding K(1) by simp
  next
    case 3
    then have "(q + 1) * b \<le> V * b" using assms(1) by (intro mult_right_mono) simp_all
    then have "q * b + b \<le> V * b" by (simp add: distrib_right)
    then show ?thesis using K(3) 3 assms(2) unfolding K(1) by linarith
  qed
  then show ?thesis by (simp add: q_def r_def)
qed

text \<open>The accumulator holds the value of the digits so far, or is stuck at the limit.\<close>

definition acc_ok :: "int \<Rightarrow> int \<Rightarrow> bool \<Rightarrow> int \<Rightarrow> int \<times> int \<times> bool \<Rightarrow> bool" where
  "acc_ok lmin lmax neg V st = (case st of (acc, any, erange) \<Rightarrow>
     let K = (if neg then - lmin else lmax) in
     if K < V then any = - 1 \<and> acc = (if neg then lmin else lmax) \<and> erange
     else 0 \<le> any \<and> acc = (if neg then - V else V) \<and> \<not> erange)"

lemma add_digit_ok:
  assumes "acc_ok lmin lmax neg V st" and "0 < base" and "0 \<le> c" and "c < base" and "0 \<le> V"
  defines "K \<equiv> (if neg then - lmin else lmax)"
  defines "cutoff \<equiv> (if neg then - (K div base) else K div base)"
  shows "acc_ok lmin lmax neg (V * base + c) (add_digit lmin lmax neg base cutoff (K mod base) c st)"
    and "fst (snd (add_digit lmin lmax neg base cutoff (K mod base) c st)) \<noteq> 0"
proof -
  obtain acc any erange where st: "st = (acc, any, erange)" by (cases st)
  have "V \<le> V * base" using assms(2,5) by (simp add: mult_le_cancel_left1)
  then have mono: "K < V \<Longrightarrow> K < V * base + c" using assms(3) by linarith
  note cut = cutoff_iff [OF assms(2-4), of K V]
  have "acc_ok lmin lmax neg (V * base + c) (add_digit lmin lmax neg base cutoff (K mod base) c st) \<and>
      fst (snd (add_digit lmin lmax neg base cutoff (K mod base) c st)) \<noteq> 0"
  proof (cases neg)
    case True
    then have K: "lmin = - K" "cutoff = - (K div base)" by (simp_all add: K_def cutoff_def)
    show ?thesis using assms(1) mono cut True unfolding st K
      by (auto simp: acc_ok_def add_digit_def Let_def split: if_splits)
  next
    case False
    then have K: "lmax = K" "cutoff = K div base" by (simp_all add: K_def cutoff_def)
    show ?thesis using assms(1) mono cut False unfolding st K
      by (auto simp: acc_ok_def add_digit_def Let_def split: if_splits)
  qed
  then show "acc_ok lmin lmax neg (V * base + c) (add_digit lmin lmax neg base cutoff (K mod base) c st)"
      "fst (snd (add_digit lmin lmax neg base cutoff (K mod base) c st)) \<noteq> 0"
    by blast+
qed

lemma foldl_nonneg: "0 < base \<Longrightarrow> \<forall>v \<in> set ds. 0 \<le> v \<Longrightarrow> 0 \<le> V \<Longrightarrow> 0 \<le> foldl (\<lambda>a d. a * base + d) (V :: int) ds"
  by (induction ds arbitrary: V) auto

lemma add_digits_ok:
  assumes "acc_ok lmin lmax neg V st" and "0 < base" and "\<forall>v \<in> set ds. 0 \<le> v \<and> v < base" and "0 \<le> V"
  defines "K \<equiv> (if neg then - lmin else lmax)"
  defines "f \<equiv> add_digit lmin lmax neg base (if neg then - (K div base) else K div base) (K mod base)"
  shows "acc_ok lmin lmax neg (foldl (\<lambda>a d. a * base + d) V ds) (foldl (\<lambda>st v. f v st) st ds)"
    and "ds \<noteq> [] \<Longrightarrow> fst (snd (foldl (\<lambda>st v. f v st) st ds)) \<noteq> 0"
proof -
  have "acc_ok lmin lmax neg (foldl (\<lambda>a d. a * base + d) V ds) (foldl (\<lambda>st v. f v st) st ds) \<and>
      (ds \<noteq> [] \<longrightarrow> fst (snd (foldl (\<lambda>st v. f v st) st ds)) \<noteq> 0)"
    using assms(1,3,4)
  proof (induction ds arbitrary: V st rule: rev_induct)
    case (snoc d ds)
    let ?V = "foldl (\<lambda>a d. a * base + d) V ds"
    have "0 \<le> ?V" by (rule foldl_nonneg) (use snoc.prems assms(2) in auto)
    moreover have "acc_ok lmin lmax neg ?V (foldl (\<lambda>st v. f v st) st ds)" using snoc by simp
    ultimately show ?case
      using add_digit_ok [where base = base and c = d and V = ?V] assms(2) snoc.prems(2) unfolding f_def K_def by simp
  qed simp
  then show "acc_ok lmin lmax neg (foldl (\<lambda>a d. a * base + d) V ds) (foldl (\<lambda>st v. f v st) st ds)"
    and "ds \<noteq> [] \<Longrightarrow> fst (snd (foldl (\<lambda>st v. f v st) st ds)) \<noteq> 0"
    by blast+
qed

lemma sdiv_smod_pos:
  assumes "0 < b" and "0 \<le> (K :: int)"
  shows "K sdiv b = K div b" "K smod b = K mod b" "(- K) sdiv b = - (K div b)" "(- K) smod b = - (K mod b)"
  using assms by (auto simp: signed_divide_int_def signed_modulo_int_def sgn_if minus_div_mult_eq_mod abs_if
      algebra_simps minus_mult_div_eq_mod)

text \<open>The prefix of the number, in the code and in \<open>scan\<close>.\<close>

lemma scan_steps:
  assumes "reading m c t r0" and "r0 = dropWhile (\<lambda>b. isspace (uint b)) bs" and "base = 0 \<or> 2 \<le> base"
    and "scan base bs = (neg, b, r)"
  defines "x \<equiv> (if c = 45 then (True, sint (m t), t + 1) else if c = 43 then (False, sint (m t), t + 1) else (False, c, t))"
  defines "y \<equiv> (case x of (n, c, s) \<Rightarrow> if (base = 0 \<or> base = 16) \<and> c = 48 \<and> (m s = 120 \<or> m s = 88)
                   then (16, sint (m (s + 1)), s + 2) else (base, c, s))"
  shows "fst x = neg"
    and "case y of (b', c', s') \<Rightarrow> reading m c' s' r \<and> s' + length r = t + length r0 \<and>
           (if b' = 0 then (if c' = 48 then 8 else 10) else b') = b"
    and "2 \<le> b"
proof -
  obtain n c1 s1 where x: "x = (n, c1, s1)" by (cases x)
  define r1 where "r1 = (if c = 45 \<or> c = 43 then tl r0 else r0)"
  have is1: "c = 45 \<longleftrightarrow> (\<exists>u. r0 = 45 # u)" "c = 43 \<longleftrightarrow> (\<exists>u. r0 = 43 # u)"
    using reading_is [OF assms(1), of 45] reading_is [OF assms(1), of 43] by simp_all
  have r1: "reading m c1 s1 r1" "s1 + length r1 = t + length r0" "n = (\<exists>u. r0 = 45 # u)"
    using x is1 reading_next(1) [of m c t] assms(1) unfolding x_def r1_def by (auto split: if_splits)
  have sc1: "(case r0 of b # u \<Rightarrow> if b = 45 then (True, u) else if b = 43 then (False, u) else (False, r0) | [] \<Rightarrow> (False, r0)) = (n, r1)"
    using r1(3) is1 unfolding r1_def by (cases r0) auto
  have is0: "c1 = 48 \<longleftrightarrow> (\<exists>u. r1 = 48 # u)" using reading_is [OF r1(1), of 48] by simp
  have x2: "(base = 0 \<or> base = 16) \<and> c1 = 48 \<and> (m s1 = 120 \<or> m s1 = 88) \<longleftrightarrow>
      (\<exists>e u. r1 = 48 # e # u \<and> (base = 0 \<or> base = 16) \<and> (e = 120 \<or> e = 88))"
  proof (cases "c1 = 48")
    case True
    then obtain u where u: "r1 = 48 # u" using is0 by blast
    then have "cstr m s1 u" using reading_next(3) [of m c1 s1] r1(1) by simp
    then show ?thesis using True u by (cases u) auto
  next
    case False
    then show ?thesis using is0 by auto
  qed
  show "fst x = neg" "2 \<le> b" "case y of (b', c', s') \<Rightarrow> reading m c' s' r \<and> s' + length r = t + length r0 \<and>
           (if b' = 0 then (if c' = 48 then 8 else 10) else b') = b"
  proof (atomize (full), cases "(base = 0 \<or> base = 16) \<and> c1 = 48 \<and> (m s1 = 120 \<or> m s1 = 88)")
    case True
    then obtain e u where u: "r1 = 48 # e # u" "base = 0 \<or> base = 16" "e = 120 \<or> e = 88" using x2 by blast
    have "scan base bs = (n, 16, u)"
      using sc1 u unfolding scan_def assms(2) [symmetric] Let_def by auto
    moreover have "y = (16, sint (m (s1 + 1)), s1 + 2)" unfolding y_def x using True by simp
    moreover have "reading m (sint (m (s1 + 1))) (s1 + 2) u"
      using reading_next(1) [OF reading_next(1) [OF r1(1) [unfolded u(1)]]] by (simp add: numeral_2_eq_2)
    ultimately show "fst x = neg \<and> 2 \<le> b \<and> (case y of (b', c', s') \<Rightarrow> reading m c' s' r \<and> s' + length r = t + length r0 \<and>
           (if b' = 0 then (if c' = 48 then 8 else 10) else b') = b)"
      using x assms(4) r1(2) u(1) by simp
  next
    case False
    have "(case r1 of a # b # t \<Rightarrow> if (base = 0 \<or> base = 16) \<and> a = 48 \<and> (b = 120 \<or> b = 88) then (16, t) else (base, r1) | _ \<Rightarrow> (base, r1))
        = (base, r1)"
      using False x2 by (auto split: list.split)
    then have "scan base bs = (n, (if base = 0 then (case r1 of a # _ \<Rightarrow> if a = 48 then 8 else 10 | [] \<Rightarrow> 10) else base), r1)"
      using sc1 unfolding scan_def assms(2) [symmetric] Let_def by simp
    moreover have "y = (base, c1, s1)" unfolding y_def x using False by simp
    ultimately show "fst x = neg \<and> 2 \<le> b \<and> (case y of (b', c', s') \<Rightarrow> reading m c' s' r \<and> s' + length r = t + length r0 \<and>
           (if b' = 0 then (if c' = 48 then 8 else 10) else b') = b)"
      using x assms(3,4) r1 is0 by (auto split: list.splits if_splits)
  qed
qed

lemma scan_length:
  assumes "scan base bs = (neg, b, r)"
  shows "length r \<le> length bs"
proof -
  define r0 where "r0 = dropWhile (\<lambda>b. isspace (uint b)) bs"
  have "length r0 \<le> length bs" unfolding r0_def by (rule length_dropWhile_le)
  then show ?thesis using assms unfolding scan_def r0_def [symmetric] Let_def by (auto split: list.splits if_splits)
qed

lemma strtol_body_ok:
  assumes "cstr m p bs" and "base = 0 \<or> 2 \<le> base" and "lmin \<le> 0" and "0 \<le> lmax" and "scan base bs = (neg, b, r)"
  defines "ds \<equiv> digit_run b r"
  shows "strtol_body lmin lmax p base m =
    Some (if neg then max lmin (- num_val b ds) else min lmax (num_val b ds),
          if ds = [] then p else p + (length bs - length r) + length ds,
          if neg then num_val b ds > - lmin else num_val b ds > lmax)"
proof -
  let ?r0 = "dropWhile (\<lambda>b. isspace (uint b)) bs"
  obtain c t where c: "skip_space p m = Some (c, t)" "reading m c t ?r0" "t + length ?r0 = p + length bs + 1"
    using skip_space_ok [OF assms(1)] by blast
  define x where "x = (if c = 45 then (True, sint (m t), t + 1) else if c = 43 then (False, sint (m t), t + 1) else (False, c, t))"
  define y where "y = (case x of (n, c, s) \<Rightarrow> if (base = 0 \<or> base = 16) \<and> c = 48 \<and> (m s = 120 \<or> m s = 88)
                   then (16, sint (m (s + 1)), s + 2) else (base, c, s))"
  obtain c1 s1 where x: "x = (neg, c1, s1)"
    using scan_steps(1) [OF c(2) refl assms(2,5)] by (cases x) (auto simp: x_def)
  obtain b' c' s' where y: "y = (b', c', s')" by (cases y)
  have S: "reading m c' s' r" "s' + length r = t + length ?r0" "(if b' = 0 then (if c' = 48 then 8 else 10) else b') = b" "2 \<le> b"
    using scan_steps(2,3) [OF c(2) refl assms(2,5)] y unfolding y_def x_def by auto
  define K where "K = (if neg then - lmin else lmax)"
  have K: "0 \<le> K" using assms(3,4) by (simp add: K_def)
  have cut: "(if neg then lmin else lmax) sdiv b = (if neg then - (K div b) else K div b)"
      "(if neg then lmin else lmax) smod b = (if neg then - (K mod b) else K mod b)"
    using sdiv_smod_pos [of b K] K S(4) by (auto simp: K_def)
  have x': "(if c = 45 then (True, sint (m t), t + 1) else if c = 43 then (False, sint (m t), t + 1) else (False, c, t)) = (neg, c1, s1)"
    using x unfolding x_def .
  have y': "(if (base = 0 \<or> base = 16) \<and> c1 = 48 \<and> (m s1 = 120 \<or> m s1 = 88) then (16, sint (m (s1 + 1)), s1 + 2) else (base, c1, s1))
      = (b', c', s')"
    using y unfolding y_def x by simp
  let ?st = "foldl (\<lambda>st v. add_digit lmin lmax neg b (if neg then - (K div b) else K div b) (K mod b) v st) (0, 0, False) ds"
  have "\<forall>v \<in> set ds. 0 \<le> v \<and> v < b" using digit_run_range unfolding ds_def by blast
  then have ok: "acc_ok lmin lmax neg (num_val b ds) ?st" "ds \<noteq> [] \<Longrightarrow> fst (snd ?st) \<noteq> 0"
    using add_digits_ok [of lmin lmax neg 0 "(0, 0, False)" b ds] S(4) K
    by (auto simp: K_def num_val_def acc_ok_def Let_def)
  obtain acc any erange where st: "?st = (acc, any, erange)" by (cases ?st)
  have any: "any \<noteq> 0 \<longleftrightarrow> ds \<noteq> []" using ok(2) st by (cases "ds = []") auto
  have "strtol_loop lmin lmax neg b (if neg then - (K div b) else K div b) (K mod b) c' s' (0, 0, False) m =
      Some ((acc, any, erange), s' + length ds)"
    using strtol_loop_ok [OF S(1)] st unfolding ds_def by simp
  moreover have "0 \<le> K mod b" using S(4) by (intro pos_mod_sign) simp
  then have "\<not> (if neg then - (K mod b) else K mod b) > 0 \<or> \<not> neg" by auto
  ultimately have "strtol_body lmin lmax p base m = Some (acc, if any \<noteq> 0 then s' + length ds - 1 else p, erange)"
    unfolding strtol_body_def c(1) Option.bind.simps prod.case Let_def x' y' S(3) cut by (auto split: if_splits)
  moreover have "s' + length ds - 1 = p + (length bs - length r) + length ds"
  proof -
    have "s' \<noteq> 0" using S(1) by (auto simp: reading_def)
    moreover have "s' + length r = p + length bs + 1" using S(2) c(3) by simp
    moreover have "length r \<le> length bs" by (rule scan_length [OF assms(5)])
    ultimately show ?thesis by linarith
  qed
  ultimately show ?thesis using ok(1) st any by (auto simp: acc_ok_def Let_def split: if_splits)
qed

section \<open>What the unsigned parser returns\<close>

lemma strtoul_digit_eq:
  "strtoul_digit (sint (b :: u8)) = (case digit_val (uint b) of Some v \<Rightarrow> v | None \<Rightarrow> - 1)"
  unfolding digit_val_sint [symmetric]
  by (auto simp: strtoul_digit_def digit_val_def isdigit_def isalpha_def isupper_def islower_def)

lemma digit_val_0: "digit_val 0 = None"
  by (simp add: digit_val_def isdigit_def isalpha_def isupper_def islower_def)

lemma strtoul_loop_ok:
  assumes "cstr m p bs"
  shows "strtoul_loop base p st m =
    Some (foldl (\<lambda>st v. strtoul_add base v st) st (digit_run base bs), p + length (digit_run base bs))"
  using assms
proof (induction bs arbitrary: p st)
  case Nil
  have "strtoul_digit 0 = - 1" by (simp add: strtoul_digit_def)
  then show ?case using Nil by (subst strtoul_loop.simps) simp
next
  case (Cons b bs)
  have "strtoul_digit (sint b) = (case digit_val (uint b) of Some v \<Rightarrow> v | None \<Rightarrow> - 1)" by (rule strtoul_digit_eq)
  then show ?case using Cons.IH [of "p + 1"] Cons.prems digit_val_range [of "uint b"]
    by (subst strtoul_loop.simps) (auto simp: Let_def split: option.split)
qed

definition ul_ok :: "int \<Rightarrow> u64 \<times> bool \<Rightarrow> bool" where
  "ul_ok V st = (if 2 ^ 64 \<le> V then st = (- 1, True) else st = (word_of_int V, False))"

lemma uint_small64: "0 \<le> v \<Longrightarrow> v < 2 ^ 64 \<Longrightarrow> uint (word_of_int v :: u64) = v"
  by (simp add: uint_word_of_int_eq take_bit_int_eq_self)

lemma strtoul_add_ok:
  assumes "ul_ok V st" and "0 \<le> V" and "2 \<le> base" and "base \<le> 36" and "0 \<le> v" and "v < base"
  shows "ul_ok (V * base + v) (strtoul_add base v st)"
proof (cases "2 ^ 64 \<le> V")
  case True
  have "V \<le> V * base" using assms(2,3) by (simp add: mult_le_cancel_left1)
  then have "2 ^ 64 \<le> V * base + v" using True assms(5) by linarith
  then show ?thesis using True assms(1) by (simp add: ul_ok_def strtoul_add_def Let_def)
next
  case False
  define B R N X :: u64 where "B = word_of_int base" and "R = word_of_int V" and "N = R * B" and "X = word_of_int v"
  define n where "n = (V * base) mod 2 ^ 64"
  have n: "0 \<le> n" "n < 2 ^ 64" "n \<le> V * base" using assms(2,3) by (simp_all add: n_def zmod_le_nonneg_dividend)
  have "N = word_of_int (V * base)" by (simp add: N_def R_def B_def)
  then have N: "uint N = n" by (simp only: uint_word_of_int_eq take_bit_eq_mod n_def) simp
  have u: "uint R = V" "uint B = base" "uint X = v"
    using False assms by (simp_all add: R_def B_def X_def uint_small64)
  have "N div B = R \<longleftrightarrow> n div base = V" by (simp add: word_uint_eq_iff uint_div_distrib N u)
  also have "\<dots> \<longleftrightarrow> V * base < 2 ^ 64"
  proof (cases "V * base < 2 ^ 64")
    case True
    then show ?thesis using assms(2,3) by (simp add: n_def mod_pos_pos_trivial)
  next
    case f: False
    then have "n < V * base" using n(2) by linarith
    moreover have "V * base \<le> n" if "V \<le> n div base"
    proof -
      have "V * base \<le> n div base * base" using that assms(3) by (intro mult_right_mono) simp_all
      also have "\<dots> \<le> n" using div_mult_mod_eq [of n base] pos_mod_sign [of base n] assms(3) by linarith
      finally show ?thesis .
    qed
    ultimately have "n div base < V" by linarith
    then show ?thesis using f by simp
  qed
  finally have d: "N div B \<noteq> R \<longleftrightarrow> 2 ^ 64 \<le> V * base" by auto
  have "uint (N + X) = (n + v) mod 2 ^ 64" by (simp add: uint_word_ariths N u)
  moreover have "(n + v) mod 2 ^ 64 = (if n + v < 2 ^ 64 then n + v else n + v - 2 ^ 64)"
  proof (cases "n + v < 2 ^ 64")
    case f: False
    have "(n + v) mod 2 ^ 64 = (n + v - 2 ^ 64) mod 2 ^ 64" by simp
    also have "\<dots> = n + v - 2 ^ 64" by (rule mod_pos_pos_trivial) (use f n(2) assms(4-6) in simp_all)
    finally show ?thesis using f by simp
  qed (use n assms(5) in \<open>simp add: mod_pos_pos_trivial\<close>)
  ultimately have p: "N + X < N \<longleftrightarrow> 2 ^ 64 \<le> n + v"
    using N n(1,2) assms(4-6) by (auto simp: word_less_def)
  have p': "N + X = word_of_int (n + v)" by (simp add: X_def flip: N)
  have m: "R = - 1 \<Longrightarrow> 2 ^ 64 \<le> V * base"
  proof -
    assume "R = - 1"
    then have "V = 2 ^ 64 - 1" using u(1) by (simp add: unsigned_minus_1_eq_mask mask_eq_exp_minus_1)
    then show ?thesis using assms(3) by simp
  qed
  have nn: "n = V * base" if "\<not> 2 ^ 64 \<le> V * base" using that assms(2,3) by (simp add: n_def mod_pos_pos_trivial)
  have st: "st = (R, False)" using False assms(1) by (simp add: ul_ok_def R_def)
  have e: "strtoul_add base v st = (if N div B \<noteq> R \<or> N + X < N \<or> R = - 1 then (- 1, True) else (N + X, False))"
    unfolding st strtoul_add_def N_def B_def X_def Let_def prod.case ..
  show ?thesis
  proof (cases "2 ^ 64 \<le> V * base")
    case True
    then show ?thesis using d assms(5) unfolding e by (simp add: ul_ok_def)
  next
    case f: False
    then have "N div B = R" "R \<noteq> - 1" using d m by blast+
    then show ?thesis using p p' nn [OF f] unfolding e by (simp add: ul_ok_def)
  qed
qed

lemma strtoul_adds_ok:
  assumes "ul_ok V st" and "0 \<le> V" and "2 \<le> base" and "base \<le> 36" and "\<forall>v \<in> set ds. 0 \<le> v \<and> v < base"
  shows "ul_ok (foldl (\<lambda>a d. a * base + d) V ds) (foldl (\<lambda>st v. strtoul_add base v st) st ds)"
  using assms(1,2,5)
proof (induction ds arbitrary: V st)
  case (Cons d ds)
  show ?case using Cons.IH [of "V * base + d" "strtoul_add base d st"] Cons.prems assms(3,4) strtoul_add_ok [of V st base d] by simp
qed simp

text \<open>The sign, the base and the digits for \<^verbatim>\<open>strtoul\<close>, which knows only the small \<^verbatim>\<open>x\<close>.\<close>

definition uscan :: "int \<Rightarrow> u8 list \<Rightarrow> bool \<times> int \<times> u8 list" where
  "uscan base bs = (let
     r = dropWhile (\<lambda>b. isspace (uint b)) bs;
     (neg, r) = (case r of b # t \<Rightarrow> if b = 43 then (False, t) else if b = 45 then (True, t) else (False, r)
                         | [] \<Rightarrow> (False, r));
     (base, r) = (if base = 0 \<or> base = 16 then
                    (case r of a # t \<Rightarrow>
                       if a = 48 \<and> t \<noteq> [] \<and> hd t = 120 then (16, tl t)
                       else if base = 0 then (if a = 48 then (8, t) else (10, r))
                       else (base, r)
                     | [] \<Rightarrow> (if base = 0 then 10 else base, r))
                  else (base, r))
   in (neg, base, r))"

lemma isspace_sint: "isspace (sint (b :: u8)) = isspace (uint b)"
  using unsigned_less [of b, where ?'a = int] by (auto simp: sint_uint_char isspace_def)

lemma skip_blanks_ok:
  assumes "cstr m p bs"
  defines "r \<equiv> dropWhile (\<lambda>b. isspace (uint b)) bs"
  shows "\<exists>q. skip_blanks p m = Some q \<and> cstr m q r \<and> q + length r = p + length bs"
  using assms(1) unfolding r_def
proof (induction bs arbitrary: p)
  case Nil
  then show ?case by (subst skip_blanks.simps) (simp add: isspace_def)
next
  case (Cons b bs)
  show ?case
    using Cons.IH [of "p + 1"] Cons.prems
    by (subst skip_blanks.simps) (auto simp: isspace_sint)
qed

lemma uscan_steps:
  assumes "cstr m q r0" and "r0 = dropWhile (\<lambda>b. isspace (uint b)) bs" and "base = 0 \<or> 2 \<le> base"
    and "uscan base bs = (neg, b, r)"
  obtains q1 s where
    "(if m q = 43 then (False, q + 1) else if m q = 45 then (True, q + 1) else (False, q)) = (neg, q1)"
    "(if (base = 0 \<or> base = 16) \<and> m q1 = 48 \<and> m (q1 + 1) = 120 then (16, q1 + 2)
      else if base = 0 \<and> m q1 = 48 then (8, q1 + 1) else if base = 0 then (10, q1) else (base, q1)) = (b, s)"
    "cstr m s r" "s + length r = q + length r0" "2 \<le> b"
proof -
  define x where "x = (case r0 of b # t \<Rightarrow> if b = 43 then (False, t) else if b = 45 then (True, t) else (False, r0) | [] \<Rightarrow> (False, r0))"
  define q1 where "q1 = (if m q = 43 \<or> m q = 45 then q + 1 else q)"
  obtain n r1 where x: "x = (n, r1)" by (cases x)
  have n: "(if m q = 43 then (False, q + 1) else if m q = 45 then (True, q + 1) else (False, q)) = (n, q1)"
      "cstr m q1 r1" "q1 + length r1 = q + length r0"
    using x assms(1) unfolding x_def q1_def by (cases r0; auto split: if_splits)+
  have u: "uscan base bs = (case (if base = 0 \<or> base = 16 then
                    (case r1 of a # t \<Rightarrow>
                       if a = 48 \<and> t \<noteq> [] \<and> hd t = 120 then (16, tl t)
                       else if base = 0 then (if a = 48 then (8, t) else (10, r1))
                       else (base, r1)
                     | [] \<Rightarrow> (if base = 0 then 10 else base, r1))
                  else (base, r1)) of (base, r) \<Rightarrow> (n, base, r))"
    unfolding uscan_def Let_def assms(2) [symmetric] x_def [symmetric] x prod.case ..
  define y where "y = (if (base = 0 \<or> base = 16) \<and> m q1 = 48 \<and> m (q1 + 1) = 120 then (16, q1 + 2)
      else if base = 0 \<and> m q1 = 48 then (8, q1 + 1) else if base = 0 then (10, q1) else (base, q1))"
  obtain b' s where y: "y = (b', s)" by (cases y)
  have z: "n = neg \<and> b' = b \<and> cstr m s r \<and> s + length r = q1 + length r1 \<and> 2 \<le> b"
  proof (cases r1)
    case Nil
    then show ?thesis using u assms(3,4) n(2) y unfolding y_def by (auto split: if_splits)
  next
    case (Cons a t)
    then show ?thesis using u assms(3,4) n(2) y unfolding y_def by (cases t) (auto split: if_splits)
  qed
  show thesis by (rule that [of q1 s]) (use n y z in \<open>simp_all add: y_def\<close>)
qed

lemma strtoul_ok:
  assumes "cstr m p bs" and "base = 0 \<or> 2 \<le> base" and "base \<le> 36" and "uscan base bs = (neg, b, r)"
  defines "ds \<equiv> digit_run b r"
  defines "V \<equiv> num_val b ds"
  shows "strtoul p base m =
    Some (if 2 ^ 64 \<le> V then - 1 else if neg \<and> V \<noteq> 2 ^ 64 - 1 then - word_of_int V else word_of_int V,
          Some (p + (length bs - length r) + length ds),
          if 2 ^ 64 \<le> V then Some ERANGE else None)"
proof -
  let ?r0 = "dropWhile (\<lambda>b. isspace (uint b)) bs"
  obtain q where q: "skip_blanks p m = Some q" "cstr m q ?r0" "q + length ?r0 = p + length bs"
    using skip_blanks_ok [OF assms(1)] by blast
  obtain q1 s where s:
    "(if m q = 43 then (False, q + 1) else if m q = 45 then (True, q + 1) else (False, q)) = (neg, q1)"
    "(if (base = 0 \<or> base = 16) \<and> m q1 = 48 \<and> m (q1 + 1) = 120 then (16, q1 + 2)
      else if base = 0 \<and> m q1 = 48 then (8, q1 + 1) else if base = 0 then (10, q1) else (base, q1)) = (b, s)"
    "cstr m s r" "s + length r = q + length ?r0" "2 \<le> b"
    using uscan_steps [OF q(2) refl assms(2,4)] by blast
  have b36: "b \<le> 36" using s(2) assms(3) by (auto split: if_splits)
  have V0: "0 \<le> V" unfolding V_def num_val_def ds_def
    by (rule foldl_nonneg) (use s(5) digit_run_range [of _ b r] in auto)
  obtain ret e where re: "foldl (\<lambda>st v. strtoul_add b v st) (0, False) ds = (ret, e)"
    by (cases "foldl (\<lambda>st v. strtoul_add b v st) (0, False) ds")
  have "ul_ok V (ret, e)" unfolding re [symmetric] V_def num_val_def
    by (rule strtoul_adds_ok) (use s(5) b36 digit_run_range [of _ b r] in \<open>auto simp: ul_ok_def ds_def\<close>)
  then have ret: "ret = (if 2 ^ 64 \<le> V then - 1 else word_of_int V)" "e = (2 ^ 64 \<le> V)"
    by (auto simp: ul_ok_def split: if_splits)
  have m1: "word_of_int V = (- 1 :: u64) \<longleftrightarrow> V = 2 ^ 64 - 1" if "\<not> 2 ^ 64 \<le> V"
  proof -
    have "uint (- 1 :: u64) = 2 ^ 64 - 1" by (simp add: unsigned_minus_1_eq_mask mask_eq_exp_minus_1)
    then show ?thesis using uint_small64 [of V] that V0 by (metis not_le word_uint_eq_iff)
  qed
  have "strtoul_loop b s (0, False) m = Some ((ret, e), s + length ds)"
    using strtoul_loop_ok [OF s(3)] re unfolding ds_def by simp
  moreover have "s = p + (length bs - length r)"
  proof -
    have "cstr m p bs" "s + length r = p + length bs" using assms(1) s(4) q(3) by simp_all
    moreover have "p \<le> q" "q \<le> q1" "q1 \<le> s" 
      using q(3) length_dropWhile_le [of "\<lambda>b. isspace (uint b)" bs] s(1,2) by (auto split: if_splits)
    ultimately show ?thesis by linarith
  qed
  ultimately show ?thesis
    unfolding strtoul_def using assms(2,3) q(1) s(1,2) ret m1 by auto
qed

section \<open>What binary search finds\<close>

text \<open>The elements are in the order of the comparison.\<close>

definition cmp_sorted :: "(nat \<Rightarrow> int) \<Rightarrow> nat \<Rightarrow> bool" where
  "cmp_sorted cmp n \<longleftrightarrow> (\<forall>j < n. \<forall>i < j. sgn (cmp j) \<le> sgn (cmp i))"

lemma unat_of_nat64: "k < 2 ^ 64 \<Longrightarrow> unat (word_of_nat k :: u64) = k"
  by (simp add: unat_of_nat take_bit_nat_eq_self)

lemma word64_mid:
  assumes "lo \<le> hi" and "hi < 2 ^ 64"
  shows "word_of_nat lo + (word_of_nat hi - word_of_nat lo) div 2 = (word_of_nat (lo + (hi - lo) div 2) :: u64)"
proof -
  have "(word_of_nat hi - word_of_nat lo) div 2 = (word_of_nat ((hi - lo) div 2) :: u64)"
    using assms by (simp add: word_unat_eq_iff unat_div unat_of_nat64 flip: of_nat_diff)
  then show ?thesis by simp
qed

lemma bsearch_loop_step:
  assumes "lo \<le> hi" and "hi < n" and "n < 2 ^ 64"
  defines "mid \<equiv> lo + (hi - lo) div 2"
  shows "bsearch_loop cmp n (word_of_nat lo) (word_of_nat hi) =
    (if cmp mid < 0 then (if mid = 0 then Some None else bsearch_loop cmp n (word_of_nat lo) (word_of_nat (mid - 1)))
     else if cmp mid > 0 then (if mid = hi then Some None else bsearch_loop cmp n (word_of_nat (mid + 1)) (word_of_nat hi))
     else Some (Some mid))"
proof -
  have mid: "lo \<le> mid" "mid \<le> hi" using assms(1) by (simp_all add: mid_def)
  have m: "word_of_nat lo + (word_of_nat hi - word_of_nat lo) div 2 = (word_of_nat mid :: u64)"
    using word64_mid [of lo hi] assms by (simp add: mid_def)
  have u: "unat (word_of_nat mid :: u64) = mid" "unat (word_of_nat (mid + 1) :: u64) = mid + 1" "unat (word_of_nat hi :: u64) = hi"
    using mid assms by (simp_all only: unat_of_nat64)
  have z: "word_of_nat mid = (0 :: u64) \<longleftrightarrow> mid = 0" unfolding word_unat_eq_iff u(1) by simp
  have s: "word_of_nat mid + 1 = (word_of_nat (mid + 1) :: u64)" by simp
  have p: "mid \<noteq> 0 \<Longrightarrow> word_of_nat mid - 1 = (word_of_nat (mid - 1) :: u64)" by (cases mid) simp_all
  have c: "\<not> word_of_nat (mid + 1) < (word_of_nat mid :: u64)" "word_of_nat hi < (word_of_nat (mid + 1) :: u64) \<longleftrightarrow> mid = hi"
    using u mid by (auto simp: word_less_nat_alt)
  show ?thesis using mid assms(2) p
    by (subst bsearch_loop.simps) (simp only: Let_def m u(1) z s c chk_def, auto)
qed

lemma bsearch_loop_present:
  assumes "cmp_sorted cmp n" and "n < 2 ^ 64" and "cmp k = 0" and "lo \<le> k" and "k \<le> hi" and "hi < n"
  shows "\<exists>j < n. bsearch_loop cmp n (word_of_nat lo) (word_of_nat hi) = Some (Some j) \<and> cmp j = 0"
  using assms(4-6)
proof (induction "hi - lo" arbitrary: lo hi rule: less_induct)
  case less
  define mid where "mid = lo + (hi - lo) div 2"
  have mid: "lo \<le> mid" "mid \<le> hi" using less.prems by (simp_all add: mid_def)
  note step = bsearch_loop_step [of lo hi n cmp, folded mid_def]
  have sgn: "j < n \<Longrightarrow> i < j \<Longrightarrow> sgn (cmp j) \<le> sgn (cmp i)" for i j using assms(1) by (simp add: cmp_sorted_def)
  consider "cmp mid < 0" | "cmp mid > 0" | "cmp mid = 0" by linarith
  then show ?case
  proof cases
    case 1
    then have "k < mid" using sgn [of k mid] assms(3) less.prems(2,3) by (cases mid k rule: linorder_cases) auto
    then show ?thesis using step less.hyps [of "mid - 1" lo] less.prems assms(2) 1 mid by simp
  next
    case 2
    then have "mid < k" using sgn [of mid k] assms(3) less.prems mid by (cases mid k rule: linorder_cases) auto
    then show ?thesis using step less.hyps [of hi "mid + 1"] less.prems assms(2) 2 mid by simp
  next
    case 3
    then show ?thesis using step less.prems assms(2) mid by simp
  qed
qed


section \<open>Properties\<close>

text \<open>
  C21. \<^verbatim>\<open>strtol\<close> returns, for every terminated string and every base a caller may pass, the value of the longest
  run of digits after the white space, the sign and the prefix, cut off at \<^verbatim>\<open>LONG_MIN\<close> and \<^verbatim>\<open>LONG_MAX\<close>; it sets
  \<^verbatim>\<open>ERANGE\<close> exactly when the value was cut off, and the end pointer is just behind the digits or, when there is
  none, the start of the string.
\<close>

theorem strtol_exact:
  assumes "cstr m p bs" and "base = 0 \<or> 2 \<le> base" and "scan base bs = (neg, b, r)"
  shows "strtol p base m =
    Some (if neg then max LONG_MIN (- num_val b (digit_run b r)) else min LONG_MAX (num_val b (digit_run b r)),
          if digit_run b r = [] then p else p + (length bs - length r) + length (digit_run b r),
          if neg then num_val b (digit_run b r) > - LONG_MIN else num_val b (digit_run b r) > LONG_MAX)"
  unfolding strtol_def by (rule strtol_body_ok) (use assms in simp_all)

definition text_mem :: "u8 list \<Rightarrow> mem" where
  "text_mem bs a = (if a < length bs then bs ! a else 0)"

theorem strtol_exact_witness:
  "strtol 0 0 (text_mem [32, 45, 48, 120, 49, 70, 103]) = Some (- 31, 6, False)"
proof -
  have c: "cstr (text_mem [32, 45, 48, 120, 49, 70, 103]) 0 [32, 45, 48, 120, 49, 70, 103]"
    by (simp add: text_mem_def)
  have s: "scan 0 [32, 45, 48, 120, 49, 70, 103] = (True, 16, [49, 70, 103])"
    by (simp add: scan_def isspace_def)
  have d: "digit_run 16 [49, 70, 103] = [1, 15]"
    by (simp add: digit_val_def isdigit_def isalpha_def isupper_def islower_def)
  show ?thesis unfolding strtol_exact [OF c disjI1 [OF refl] s, unfolded d] by (simp add: num_val_def)
qed

text \<open>
  C22. \<^verbatim>\<open>strtoul\<close> detects overflow exactly: the test by division and the test for a carry set \<^verbatim>\<open>ERANGE\<close> and
  saturate if and only if the value of the digits does not fit in 64 bits, and otherwise the result is that value,
  negated modulo the word size after a minus sign.
\<close>

theorem strtoul_exact:
  assumes "cstr m p bs" and "base = 0 \<or> 2 \<le> base" and "base \<le> 36" and "uscan base bs = (neg, b, r)"
    and "V = num_val b (digit_run b r)"
  shows "strtoul p base m =
    Some (if 2 ^ 64 \<le> V then - 1 else if neg \<and> V \<noteq> 2 ^ 64 - 1 then - word_of_int V else word_of_int V,
          Some (p + (length bs - length r) + length (digit_run b r)),
          if 2 ^ 64 \<le> V then Some ERANGE else None)"
  unfolding assms(5) by (rule strtoul_ok) (rule assms)+

theorem strtoul_exact_witness:
  "strtoul 0 10 (text_mem [45, 52, 50, 32]) = Some (- 42, Some 3, None)"
proof -
  have c: "cstr (text_mem [45, 52, 50, 32]) 0 [45, 52, 50, 32]" by (simp add: text_mem_def)
  have s: "uscan 10 [45, 52, 50, 32] = (True, 10, [52, 50, 32])" by (simp add: uscan_def isspace_def)
  have d: "digit_run 10 [52, 50, 32] = [4, 2]"
    by (simp add: digit_val_def isdigit_def isalpha_def isupper_def islower_def)
  have n: "42 = num_val 10 (digit_run 10 [52, 50, 32])" unfolding d by (simp add: num_val_def)
  have b: "(10 :: int) = 0 \<or> 2 \<le> (10 :: int)" "(10 :: int) \<le> 36" by simp_all
  show ?thesis unfolding strtoul_exact [OF c b s n, unfolded d] by simp
qed

text \<open>
  C29. \<^verbatim>\<open>bsearch\<close> finds a key that is in the sorted array: it ends, touches only elements of the array and returns
  one that compares equal.
\<close>

theorem bsearch_finds:
  assumes "cmp_sorted cmp n" and "n < 2 ^ 64" and "k < n" and "cmp k = 0"
  shows "\<exists>j < n. bsearch cmp n = Some (Some j) \<and> cmp j = 0"
proof -
  have "word_of_nat n - 1 = (word_of_nat (n - 1) :: u64)" using assms(3) by (cases n) simp_all
  then have "bsearch cmp n = bsearch_loop cmp n (word_of_nat 0) (word_of_nat (n - 1))"
    using assms(3) by (simp add: bsearch_def)
  then show ?thesis using bsearch_loop_present [OF assms(1,2,4), of 0 "n - 1"] assms(3) by simp
qed

theorem bsearch_finds_witness:
  "\<exists>j < 5. bsearch (\<lambda>i. 3 - int i) 5 = Some (Some j) \<and> 3 - int j = 0"
proof -
  have "cmp_sorted (\<lambda>i. 3 - int i) 5" by (auto simp: cmp_sorted_def sgn_if)
  then show ?thesis using bsearch_finds [of "\<lambda>i. 3 - int i" 5 3] by simp
qed



end
