(* ===== verification/Fifo.thy ===== *)
theory Fifo
  imports Prelude
begin

text \<open>
  What the clients of a queue rely on: the circular buffer of \<^verbatim>\<open>lib/cbuf\<close> and the packet buffer of
  \<^verbatim>\<open>kernel/port.c\<close> both promise it, in \<open>Cbuf\<close> and \<open>Port\<close>.

  A queue is given by its invariant, its content, oldest first, and the two relations between the state before
  and the state after a call that put \<open>xs\<close> in or took \<open>ys\<close> out. The lemma \<open>in_order\<close> of the locale is what follows
  for a whole sequence of calls: nothing is lost, duplicated or reordered.
\<close>

datatype 'a transfer = Put "'a list" | Got "'a list"

fun put_in :: "'a transfer list \<Rightarrow> 'a list" where
  "put_in [] = []"
| "put_in (Put xs # es) = xs @ put_in es"
| "put_in (Got ys # es) = put_in es"

fun got_out :: "'a transfer list \<Rightarrow> 'a list" where
  "got_out [] = []"
| "got_out (Put xs # es) = got_out es"
| "got_out (Got ys # es) = ys @ got_out es"

text \<open>A sequence of calls.\<close>

inductive transfers :: "('a list \<Rightarrow> 's \<Rightarrow> 's \<Rightarrow> bool) \<Rightarrow> ('a list \<Rightarrow> 's \<Rightarrow> 's \<Rightarrow> bool) \<Rightarrow> 's \<Rightarrow> 'a transfer list \<Rightarrow> 's \<Rightarrow> bool"
  for put get where
  idle: "transfers put get s [] s"
| put: "put xs s s' \<Longrightarrow> transfers put get s' es s'' \<Longrightarrow> transfers put get s (Put xs # es) s''"
| get: "get ys s s' \<Longrightarrow> transfers put get s' es s'' \<Longrightarrow> transfers put get s (Got ys # es) s''"

locale fifo =
  fixes ok :: "'s \<Rightarrow> bool"
    and items :: "'s \<Rightarrow> 'a list"
    and limit :: "'s \<Rightarrow> nat"
    and put :: "'a list \<Rightarrow> 's \<Rightarrow> 's \<Rightarrow> bool"
    and get :: "'a list \<Rightarrow> 's \<Rightarrow> 's \<Rightarrow> bool"
  assumes bounded: "ok s \<Longrightarrow> length (items s) \<le> limit s"
    and put_ok: "ok s \<Longrightarrow> put xs s s' \<Longrightarrow> ok s'"
    and put_items: "ok s \<Longrightarrow> put xs s s' \<Longrightarrow> items s' = items s @ xs"
    and put_limit: "ok s \<Longrightarrow> put xs s s' \<Longrightarrow> limit s' = limit s"
    and get_ok: "ok s \<Longrightarrow> get ys s s' \<Longrightarrow> ok s'"
    and get_items: "ok s \<Longrightarrow> get ys s s' \<Longrightarrow> ys @ items s' = items s"
    and get_limit: "ok s \<Longrightarrow> get ys s s' \<Longrightarrow> limit s' = limit s"
begin

lemma in_order:
  assumes "transfers put get s es s'" and "ok s"
  shows "ok s' \<and> items s @ put_in es = got_out es @ items s' \<and> length (items s') \<le> limit s"
  using assms
proof induction
  case (idle s)
  then show ?case by (simp add: bounded)
next
  case (put xs s s' es s'')
  then show ?case using put_ok [of s xs s'] put_items [of s xs s'] put_limit [of s xs s'] by simp
next
  case (get ys s s' es s'')
  then show ?case using get_ok [of s ys s'] get_items [of s ys s', symmetric] get_limit [of s ys s'] by simp
qed

lemma from_empty:
  assumes "transfers put get s es s'" and "ok s" and "items s = []"
  shows "\<exists>zs. put_in es = got_out es @ zs \<and> length zs \<le> limit s"
  using in_order [OF assms(1,2)] assms(3) by auto

end

end
