(* ===== verification/Cbuf.thy ===== *)
theory Cbuf
  imports Scenario Pow2 Memory Fifo
begin

text \<open>
  The circular buffer of \<^verbatim>\<open>lib/cbuf/cbuf.c\<close>, on the byte memory of \<open>Memory\<close> and the events of \<open>Sync\<close>.

  The fields keep their width: \<^verbatim>\<open>head\<close> and \<^verbatim>\<open>tail\<close> are 32-bit words, sizes are \<^verbatim>\<open>size_t\<close> values. The event inside
  the structure is the event with index \<open>cb_event\<close> of the kernel state. A null pointer is \<^term>\<open>None\<close>. A read that
  blocks is split at its context switch: \<open>cbuf_read_resume\<close> is the rest of the call.
\<close>

unbundle bit_operations_syntax

section \<open>The operations\<close>

record cbuf =
  cb_head :: u32
  cb_tail :: u32
  cb_len_pow2 :: nat
  cb_buf :: "nat option"
  cb_event :: nat

definition INC_POINTER :: "cbuf \<Rightarrow> u32 \<Rightarrow> nat \<Rightarrow> u32" where
  "INC_POINTER cb ptr inc = modpow2 (ptr + word_of_nat inc) (cb_len_pow2 cb)"

definition cbuf_initialize_etc :: "nat \<Rightarrow> nat \<Rightarrow> nat option \<Rightarrow> 'x sync_scheme \<Rightarrow> (cbuf \<times> 'x sync_scheme) option" where
  "cbuf_initialize_etc e len buf s = do {
     chk (len > 0);
     chk (ispow2 (word_of_nat len));
     Some (\<lparr>cb_head = 0, cb_tail = 0, cb_len_pow2 = log2_uint (word_of_nat len), cb_buf = buf, cb_event = e\<rparr>,
           event_init e False 0 s) }"

text \<open>\<open>malloc\<close> is the allocator.\<close>

definition cbuf_initialize :: "(nat \<Rightarrow> nat option) \<Rightarrow> nat \<Rightarrow> nat \<Rightarrow> 'x sync_scheme \<Rightarrow> (cbuf \<times> 'x sync_scheme) option" where
  "cbuf_initialize malloc e len s = cbuf_initialize_etc e len (malloc len) s"

definition cbuf_space_avail :: "cbuf \<Rightarrow> nat" where
  "cbuf_space_avail cb =
     (let consumed = modpow2 (cb_head cb - cb_tail cb) (cb_len_pow2 cb)
      in unat (valpow2 (cb_len_pow2 cb) - consumed - 1))"

definition cbuf_space_used :: "cbuf \<Rightarrow> nat" where
  "cbuf_space_used cb = unat (modpow2 (cb_head cb - cb_tail cb) (cb_len_pow2 cb))"

definition cbuf_size :: "cbuf \<Rightarrow> nat" where
  "cbuf_size cb = unat (push_bit (cb_len_pow2 cb) (1 :: u64))"

text \<open>The number of bytes the next pass of \<^verbatim>\<open>cbuf_write\<close> copies, when \<open>n\<close> bytes are left.\<close>

definition write_len :: "cbuf \<Rightarrow> nat \<Rightarrow> nat" where
  "write_len cb n =
     (if cb_head cb \<ge> cb_tail cb then
        (if cb_tail cb = 0 then min (unat (valpow2 (cb_len_pow2 cb) - cb_head cb - 1)) n
         else min (unat (valpow2 (cb_len_pow2 cb) - cb_head cb)) n)
      else min (unat (cb_tail cb - cb_head cb - 1)) n)"

partial_function (option) cbuf_write_loop :: "nat option \<Rightarrow> nat \<Rightarrow> nat \<Rightarrow> cbuf \<Rightarrow> mem \<Rightarrow> (nat \<times> cbuf \<times> mem) option" where
  "cbuf_write_loop buf len pos cb m =
     (if pos < len \<and> cbuf_space_avail cb > 0 then
        (let n = write_len cb (len - pos) in
         if n = 0 then Some (pos, cb, m)
         else do {
           p \<leftarrow> cb_buf cb;
           (_, m) \<leftarrow> (case buf of None \<Rightarrow> memset (p + unat (cb_head cb)) 0 n m
                              | Some b \<Rightarrow> memcpy (p + unat (cb_head cb)) (b + pos) n m);
           cbuf_write_loop buf len (pos + n) (cb\<lparr>cb_head := INC_POINTER cb (cb_head cb) n\<rparr>) m })
      else Some (pos, cb, m))"

definition cbuf_write :: "nat option \<Rightarrow> nat \<Rightarrow> bool \<Rightarrow> nat \<Rightarrow> cbuf \<Rightarrow> mem \<Rightarrow> 'x sync_scheme \<Rightarrow>
    (nat \<times> cbuf \<times> mem \<times> 'x sync_scheme) option" where
  "cbuf_write buf len canreschedule cpu cb m s = do {
     chk (len < unat (valpow2 (cb_len_pow2 cb)));
     (pos, cb, m) \<leftarrow> cbuf_write_loop buf len 0 cb m;
     (_, s) \<leftarrow> (if cb_head cb \<noteq> cb_tail cb then event_signal (cb_event cb) False cpu s else Some (NO_ERROR, s));
     s \<leftarrow> (if canreschedule then thread_preempt cpu s else Some s);
     Some (pos, cb, m, s) }"

text \<open>The number of bytes the next pass of \<^verbatim>\<open>cbuf_read\<close> copies.\<close>

definition read_len :: "cbuf \<Rightarrow> nat \<Rightarrow> nat" where
  "read_len cb n =
     (if cb_head cb > cb_tail cb then min (unat (cb_head cb - cb_tail cb)) n
      else min (unat (valpow2 (cb_len_pow2 cb) - cb_tail cb)) n)"

partial_function (option) cbuf_read_loop :: "nat option \<Rightarrow> nat \<Rightarrow> nat \<Rightarrow> cbuf \<Rightarrow> mem \<Rightarrow> (nat \<times> cbuf \<times> mem) option" where
  "cbuf_read_loop buf buflen pos cb m =
     (if pos < buflen \<and> cb_tail cb \<noteq> cb_head cb then
        (let n = read_len cb (buflen - pos) in do {
           m \<leftarrow> (case buf of None \<Rightarrow> Some m
                 | Some b \<Rightarrow> do { p \<leftarrow> cb_buf cb; (_, m) \<leftarrow> memcpy (b + pos) (p + unat (cb_tail cb)) n m; Some m });
           cbuf_read_loop buf buflen (pos + n) (cb\<lparr>cb_tail := INC_POINTER cb (cb_tail cb) n\<rparr>) m })
      else Some (pos, cb, m))"

text \<open>The part of \<^verbatim>\<open>cbuf_read\<close> under the lock.\<close>

definition cbuf_read_locked :: "nat option \<Rightarrow> nat \<Rightarrow> cbuf \<Rightarrow> mem \<Rightarrow> 'x sync_scheme \<Rightarrow>
    (nat \<times> cbuf \<times> mem \<times> 'x sync_scheme) option" where
  "cbuf_read_locked buf buflen cb m s =
     (if cb_tail cb \<noteq> cb_head cb then do {
        (pos, cb, m) \<leftarrow> cbuf_read_loop buf buflen 0 cb m;
        (_, s) \<leftarrow> (if cb_tail cb = cb_head cb then do { chk (pos > 0); event_unsignal (cb_event cb) s } else Some (NO_ERROR, s));
        Some (pos, cb, m, s) }
      else Some (0, cb, m, s))"

partial_function (option) cbuf_read :: "nat option \<Rightarrow> nat \<Rightarrow> bool \<Rightarrow> nat \<Rightarrow> cbuf \<Rightarrow> mem \<Rightarrow> 'x sync_scheme \<Rightarrow>
    (nat outcome \<times> cbuf \<times> mem \<times> 'x sync_scheme) option" where
  "cbuf_read buf buflen block cpu cb m s = do {
     (r, s) \<leftarrow> (if block then event_wait (cb_event cb) cpu s else Some (Returns NO_ERROR, s));
     if r = Switches then Some (Switches, cb, m, s)
     else do {
       (ret, cb, m, s) \<leftarrow> cbuf_read_locked buf buflen cb m s;
       if block \<and> ret = 0 then cbuf_read buf buflen block cpu cb m s else Some (Returns ret, cb, m, s) } }"

definition cbuf_read_resume :: "nat option \<Rightarrow> nat \<Rightarrow> nat \<Rightarrow> cbuf \<Rightarrow> mem \<Rightarrow> 'x sync_scheme \<Rightarrow>
    (nat outcome \<times> cbuf \<times> mem \<times> 'x sync_scheme) option" where
  "cbuf_read_resume buf buflen cpu cb m s = do {
     (_, s) \<leftarrow> event_wait_timeout_resume (cb_event cb) INFINITE_TIME cpu s;
     (ret, cb, m, s) \<leftarrow> cbuf_read_locked buf buflen cb m s;
     if ret = 0 then cbuf_read buf buflen True cpu cb m s else Some (Returns ret, cb, m, s) }"

text \<open>The two regions are pairs of a base and a length.\<close>

definition cbuf_peek :: "cbuf \<Rightarrow> (nat \<times> (nat option \<times> nat) \<times> (nat option \<times> nat)) option" where
  "cbuf_peek cb = do {
     let ret = cbuf_space_used cb;
     let sz = cbuf_size cb;
     chk (unat (cb_tail cb) < sz);
     chk (ret \<le> sz);
     let base0 = (if ret \<noteq> 0 then map_option (\<lambda>p. p + unat (cb_tail cb)) (cb_buf cb) else None);
     if ret + unat (cb_tail cb) > sz
     then Some (ret, (base0, sz - unat (cb_tail cb)), (cb_buf cb, ret - (sz - unat (cb_tail cb))))
     else Some (ret, (base0, ret), (None, 0)) }"

definition cbuf_write_char :: "u8 \<Rightarrow> bool \<Rightarrow> nat \<Rightarrow> cbuf \<Rightarrow> mem \<Rightarrow> 'x sync_scheme \<Rightarrow>
    (nat \<times> cbuf \<times> mem \<times> 'x sync_scheme) option" where
  "cbuf_write_char c canreschedule cpu cb m s =
     (if cbuf_space_avail cb > 0 then do {
        p \<leftarrow> cb_buf cb;
        let m = m(p + unat (cb_head cb) := c);
        let cb = cb\<lparr>cb_head := INC_POINTER cb (cb_head cb) 1\<rparr>;
        (_, s) \<leftarrow> (if cb_head cb \<noteq> cb_tail cb then event_signal (cb_event cb) canreschedule cpu s else Some (NO_ERROR, s));
        Some (1, cb, m, s) }
      else Some (0, cb, m, s))"

text \<open>The character read is returned with the count: \<^term>\<open>None\<close> when \<^verbatim>\<open>*c\<close> is not written.\<close>

definition cbuf_read_char_locked :: "cbuf \<Rightarrow> mem \<Rightarrow> 'x sync_scheme \<Rightarrow> (u8 option \<times> cbuf \<times> 'x sync_scheme) option" where
  "cbuf_read_char_locked cb m s =
     (if cb_tail cb \<noteq> cb_head cb then do {
        p \<leftarrow> cb_buf cb;
        let c = m (p + unat (cb_tail cb));
        let cb = cb\<lparr>cb_tail := INC_POINTER cb (cb_tail cb) 1\<rparr>;
        (_, s) \<leftarrow> (if cb_tail cb = cb_head cb then event_unsignal (cb_event cb) s else Some (NO_ERROR, s));
        Some (Some c, cb, s) }
      else Some (None, cb, s))"

partial_function (option) cbuf_read_char :: "bool \<Rightarrow> nat \<Rightarrow> cbuf \<Rightarrow> mem \<Rightarrow> 'x sync_scheme \<Rightarrow>
    (u8 option outcome \<times> cbuf \<times> 'x sync_scheme) option" where
  "cbuf_read_char block cpu cb m s = do {
     (r, s) \<leftarrow> (if block then event_wait (cb_event cb) cpu s else Some (Returns NO_ERROR, s));
     if r = Switches then Some (Switches, cb, s)
     else do {
       (c, cb, s) \<leftarrow> cbuf_read_char_locked cb m s;
       if block \<and> c = None then cbuf_read_char block cpu cb m s else Some (Returns c, cb, s) } }"

definition cbuf_read_char_resume :: "nat \<Rightarrow> cbuf \<Rightarrow> mem \<Rightarrow> 'x sync_scheme \<Rightarrow>
    (u8 option outcome \<times> cbuf \<times> 'x sync_scheme) option" where
  "cbuf_read_char_resume cpu cb m s = do {
     (_, s) \<leftarrow> event_wait_timeout_resume (cb_event cb) INFINITE_TIME cpu s;
     (c, cb, s) \<leftarrow> cbuf_read_char_locked cb m s;
     if c = None then cbuf_read_char True cpu cb m s else Some (Returns c, cb, s) }"

definition cbuf_reset :: "nat \<Rightarrow> cbuf \<Rightarrow> mem \<Rightarrow> 'x sync_scheme \<Rightarrow> (nat outcome \<times> cbuf \<times> mem \<times> 'x sync_scheme) option" where
  "cbuf_reset cpu cb m s = cbuf_read None (cbuf_size cb) False cpu cb m s"

declare cbuf_write_loop.simps [code] cbuf_read_loop.simps [code] cbuf_read.simps [code] cbuf_read_char.simps [code]

section \<open>The content of the ring\<close>

definition ring_ok :: "cbuf \<Rightarrow> nat \<Rightarrow> bool" where
  "ring_ok cb p \<longleftrightarrow> cb_len_pow2 cb < 32 \<and> unat (cb_head cb) < 2 ^ cb_len_pow2 cb \<and> unat (cb_tail cb) < 2 ^ cb_len_pow2 cb
     \<and> cb_buf cb = Some p"

definition ring_used :: "cbuf \<Rightarrow> nat" where
  "ring_used cb = (unat (cb_head cb) + 2 ^ cb_len_pow2 cb - unat (cb_tail cb)) mod 2 ^ cb_len_pow2 cb"

definition ring_items :: "cbuf \<Rightarrow> nat \<Rightarrow> mem \<Rightarrow> u8 list" where
  "ring_items cb p m = map (\<lambda>i. m (p + (unat (cb_tail cb) + i) mod 2 ^ cb_len_pow2 cb)) [0..<ring_used cb]"

lemma length_ring_items [simp]: "length (ring_items cb p m) = ring_used cb"
  by (simp add: ring_items_def)

lemma ring_used_less: "ring_used cb < 2 ^ cb_len_pow2 cb"
  by (simp add: ring_used_def)

lemma ring_distance:
  assumes "h < N" and "t < (N :: nat)"
  shows "(h + N - t) mod N = (if t \<le> h then h - t else h + N - t)"
proof (cases "t \<le> h")
  case True
  then have e: "h + N - t = (h - t) + N" by simp
  have "(h + N - t) mod N = (h - t) mod N" unfolding e by (rule mod_add_self2)
  then show ?thesis using True assms by simp
next
  case False
  then show ?thesis using assms by simp
qed

lemma ring_used_eq:
  "ring_ok cb p \<Longrightarrow> ring_used cb = (if unat (cb_tail cb) \<le> unat (cb_head cb) then unat (cb_head cb) - unat (cb_tail cb)
     else unat (cb_head cb) + 2 ^ cb_len_pow2 cb - unat (cb_tail cb))"
  by (simp add: ring_ok_def ring_used_def ring_distance)

lemma ring_used_0: "ring_ok cb p \<Longrightarrow> ring_used cb = 0 \<longleftrightarrow> cb_tail cb = cb_head cb"
  by (auto simp: ring_used_eq ring_ok_def word_unat_eq_iff)

lemma unat_sub_mod:
  assumes "k < 32" and "unat (h :: u32) < 2 ^ k" and "unat t < 2 ^ k"
  shows "unat (h - t) mod 2 ^ k = (unat h + 2 ^ k - unat t) mod 2 ^ k"
proof -
  have d: "(2 :: nat) ^ k dvd 2 ^ 32" using assms(1) by (intro le_imp_power_dvd) simp
  have le: "(2 :: nat) ^ k \<le> 2 ^ 32" by (rule dvd_imp_le [OF d]) simp
  have lt: "unat h < 2 ^ 32" "unat t < 2 ^ 32"
    using unsigned_less [of h, where ?'a = nat] unsigned_less [of t, where ?'a = nat] by simp_all
  have "unat (h - t) = (unat h + 2 ^ 32 - unat t) mod 2 ^ 32"
    using ring_distance [OF lt] by (simp add: unat_sub_if_size word_size)
  then have "unat (h - t) mod 2 ^ k = (unat h + 2 ^ 32 - unat t) mod 2 ^ k"
    by (simp only: mod_mod_cancel [OF d])
  also have "unat h + 2 ^ 32 - unat t = unat h + 2 ^ k - unat t + (2 ^ 32 - 2 ^ k)" using le assms by linarith
  also have "(unat h + 2 ^ k - unat t + (2 ^ 32 - 2 ^ k)) mod 2 ^ k = (unat h + 2 ^ k - unat t) mod 2 ^ k"
  proof -
    obtain q where q: "2 ^ 32 - 2 ^ k = 2 ^ k * (q :: nat)" using dvd_diff_nat [OF d dvd_refl] by blast
    show ?thesis unfolding q by (rule mod_mult_self2)
  qed
  finally show ?thesis .
qed

lemma cbuf_space_used_eq: "ring_ok cb p \<Longrightarrow> cbuf_space_used cb = ring_used cb"
  by (simp add: ring_ok_def cbuf_space_used_def ring_used_def unat_modpow2 unat_sub_mod)

lemma cbuf_space_avail_eq: "ring_ok cb p \<Longrightarrow> cbuf_space_avail cb = 2 ^ cb_len_pow2 cb - 1 - ring_used cb"
proof -
  assume ok: "ring_ok cb p"
  let ?v = "valpow2 (cb_len_pow2 cb)" and ?c = "modpow2 (cb_head cb - cb_tail cb) (cb_len_pow2 cb)"
  have v: "unat ?v = 2 ^ cb_len_pow2 cb" using ok by (simp add: ring_ok_def unat_valpow2)
  have c: "unat ?c = ring_used cb" using cbuf_space_used_eq [OF ok] by (simp add: cbuf_space_used_def)
  have "unat (?v - ?c) = 2 ^ cb_len_pow2 cb - ring_used cb"
    using v c ring_used_less [of cb] by (simp add: unat_sub word_le_nat_alt)
  then show ?thesis
    using ring_used_less [of cb] unfolding cbuf_space_avail_def Let_def
    by (subst unat_sub) (simp_all add: word_le_nat_alt)
qed

lemma cbuf_size_eq: "ring_ok cb p \<Longrightarrow> cbuf_size cb = 2 ^ cb_len_pow2 cb"
proof -
  assume "ring_ok cb p"
  then have "(2 :: nat) ^ cb_len_pow2 cb < 2 ^ 64" by (intro power_strict_increasing) (simp_all add: ring_ok_def)
  then show ?thesis
    using unat_of_nat [of "2 ^ cb_len_pow2 cb", where 'a = 64] by (simp add: cbuf_size_def push_bit_eq_mult take_bit_nat_eq_self)
qed

lemma INC_POINTER_eq:
  assumes "ring_ok cb p"
  shows "unat (INC_POINTER cb ptr n) = (unat ptr + n) mod 2 ^ cb_len_pow2 cb"
proof -
  have k: "cb_len_pow2 cb < 32" using assms by (simp add: ring_ok_def)
  then have d: "(2 :: nat) ^ cb_len_pow2 cb dvd 2 ^ 32" by (intro le_imp_power_dvd) simp
  have "unat (ptr + word_of_nat n) = (unat ptr + n) mod 2 ^ 32"
    by (simp add: unat_word_ariths unat_of_nat mod_add_right_eq)
  then show ?thesis using k d unfolding INC_POINTER_def by (simp add: unat_modpow2 mod_mod_cancel)
qed

text \<open>One pass of the loops: a contiguous piece is put in at the head, or taken out at the tail.\<close>

lemma ring_put:
  assumes "h < N" and "t < N" and "0 < n" and "h + n \<le> N" and "(h + N - t) mod N + n < (N :: nat)"
  defines "u \<equiv> (h + N - t) mod N"
  shows "((h + n) mod N + N - t) mod N = u + n"
    and "\<And>i. i < u \<Longrightarrow> (t + i) mod N < h \<or> h + n \<le> (t + i) mod N"
    and "\<And>i. i < n \<Longrightarrow> (t + (u + i)) mod N = h + i"
proof -
  have u: "u = (if t \<le> h then h - t else h + N - t)" unfolding u_def by (rule ring_distance [OF assms(1,2)])
  have h': "(h + n) mod N = (if h + n = N then 0 else h + n)" using assms(4) by simp
  have wrap: "N \<le> x \<Longrightarrow> x < 2 * N \<Longrightarrow> x mod N = x - N" for x by (simp add: mod_if)
  have "(h + n) mod N < N" using assms(1) by simp
  then show "((h + n) mod N + N - t) mod N = u + n"
    using ring_distance [of "(h + n) mod N" N t] assms(2-5) u h' unfolding u_def [symmetric] by (auto split: if_splits)
  show "(t + i) mod N < h \<or> h + n \<le> (t + i) mod N" if "i < u" for i
  proof (cases "t + i < N")
    case True
    then show ?thesis using that u assms(5) unfolding u_def [symmetric] by (auto split: if_splits)
  next
    case False
    then show ?thesis using that u wrap [of "t + i"] assms(1,2) by (auto split: if_splits)
  qed
  show "(t + (u + i)) mod N = h + i" if "i < n" for i
  proof (cases "t \<le> h")
    case True
    then show ?thesis using that u assms(4) by simp
  next
    case False
    then have e: "t + (u + i) = h + i + N" using u assms(2) by simp
    show ?thesis unfolding e using that assms(4) by simp
  qed
qed

lemma ring_get:
  assumes "h < N" and "t < N" and "t + n \<le> N" and "n \<le> (h + N - t) mod (N :: nat)"
  defines "u \<equiv> (h + N - t) mod N"
  shows "(h + N - (t + n) mod N) mod N = u - n" and "((t + n) mod N + i) mod N = (t + (n + i)) mod N"
proof -
  have u: "u = (if t \<le> h then h - t else h + N - t)" unfolding u_def by (rule ring_distance [OF assms(1,2)])
  have t': "(t + n) mod N = (if t + n = N then 0 else t + n)" using assms(3) by simp
  have "(t + n) mod N < N" using assms(1) by simp
  then show "(h + N - (t + n) mod N) mod N = u - n"
    using ring_distance [of h N "(t + n) mod N"] assms(1-4) u t' unfolding u_def [symmetric] by (auto split: if_splits)
  show "((t + n) mod N + i) mod N = (t + (n + i)) mod N" by (simp add: mod_add_left_eq add.assoc)
qed

lemma upt_split: "[0..<a + n] = [0..<a] @ map (\<lambda>i. a + i) [0..<n]"
  by (induction n) simp_all

lemma ring_items_put:
  assumes "ring_ok cb p" and "0 < n" and "unat (cb_head cb) + n \<le> 2 ^ cb_len_pow2 cb" and "ring_used cb + n < 2 ^ cb_len_pow2 cb"
    and "\<And>a. a < p + unat (cb_head cb) \<or> p + unat (cb_head cb) + n \<le> a \<Longrightarrow> m' a = m a"
    and "\<And>i. i < n \<Longrightarrow> m' (p + unat (cb_head cb) + i) = f i"
  defines "cb' \<equiv> cb\<lparr>cb_head := INC_POINTER cb (cb_head cb) n\<rparr>"
  shows "ring_ok cb' p" and "ring_used cb' = ring_used cb + n" and "ring_items cb' p m' = ring_items cb p m @ map f [0..<n]"
proof -
  let ?N = "2 ^ cb_len_pow2 cb :: nat"
  have ok: "unat (cb_head cb) < ?N" "unat (cb_tail cb) < ?N" using assms(1) by (simp_all add: ring_ok_def)
  have inc: "unat (cb_head cb') = (unat (cb_head cb) + n) mod ?N" "cb_tail cb' = cb_tail cb" "cb_len_pow2 cb' = cb_len_pow2 cb"
    using INC_POINTER_eq [OF assms(1)] by (simp_all add: cb'_def)
  note put = ring_put [OF ok assms(2,3), folded ring_used_def, OF assms(4)]
  show "ring_ok cb' p" using assms(1) inc unfolding ring_ok_def cb'_def by simp
  show u: "ring_used cb' = ring_used cb + n" unfolding ring_used_def [of cb'] inc by (rule put(1))
  have "map (\<lambda>i. m' (p + (unat (cb_tail cb) + i) mod ?N)) [0..<ring_used cb] = ring_items cb p m"
    unfolding ring_items_def
  proof (intro map_cong refl)
    fix i assume "i \<in> set [0..<ring_used cb]"
    then have "(unat (cb_tail cb) + i) mod ?N < unat (cb_head cb) \<or> unat (cb_head cb) + n \<le> (unat (cb_tail cb) + i) mod ?N"
      using put(2) by simp
    then show "m' (p + (unat (cb_tail cb) + i) mod ?N) = m (p + (unat (cb_tail cb) + i) mod ?N)"
      by (intro assms(5)) (elim disjE; simp)
  qed
  moreover have "map (\<lambda>i. m' (p + (unat (cb_tail cb) + (ring_used cb + i)) mod ?N)) [0..<n] = map f [0..<n]"
    using put(3) assms(6) by (simp add: add.assoc)
  moreover have "[0..<ring_used cb + n] = [0..<ring_used cb] @ map (\<lambda>i. ring_used cb + i) [0..<n]"
    by (rule upt_split)
  ultimately show "ring_items cb' p m' = ring_items cb p m @ map f [0..<n]"
    unfolding ring_items_def [of cb'] u inc by (simp add: comp_def)
qed

lemma ring_items_get:
  assumes "ring_ok cb p" and "unat (cb_tail cb) + n \<le> 2 ^ cb_len_pow2 cb" and "n \<le> ring_used cb"
  defines "cb' \<equiv> cb\<lparr>cb_tail := INC_POINTER cb (cb_tail cb) n\<rparr>"
  shows "ring_ok cb' p" and "ring_used cb' = ring_used cb - n" and "ring_items cb' p m = drop n (ring_items cb p m)"
proof -
  let ?N = "2 ^ cb_len_pow2 cb :: nat"
  have ok: "unat (cb_head cb) < ?N" "unat (cb_tail cb) < ?N" using assms(1) by (simp_all add: ring_ok_def)
  have inc: "unat (cb_tail cb') = (unat (cb_tail cb) + n) mod ?N" "cb_head cb' = cb_head cb" "cb_len_pow2 cb' = cb_len_pow2 cb"
    using INC_POINTER_eq [OF assms(1)] by (simp_all add: cb'_def)
  note get = ring_get [OF ok assms(2), folded ring_used_def, OF assms(3)]
  show "ring_ok cb' p" using assms(1) inc unfolding ring_ok_def cb'_def by simp
  show u: "ring_used cb' = ring_used cb - n" unfolding ring_used_def [of cb'] inc by (rule get(1))
  show "ring_items cb' p m = drop n (ring_items cb p m)"
    unfolding ring_items_def u inc get(2) by (rule nth_equalityI) (auto simp: less_diff_conv add.commute)
qed

lemma take_ring_items:
  assumes "ring_ok cb p" and "unat (cb_tail cb) + n \<le> 2 ^ cb_len_pow2 cb" and "n \<le> ring_used cb"
  shows "take n (ring_items cb p m) = map (\<lambda>i. m (p + unat (cb_tail cb) + i)) [0..<n]"
proof (rule nth_equalityI)
  fix i assume "i < length (take n (ring_items cb p m))"
  then show "take n (ring_items cb p m) ! i = map (\<lambda>i. m (p + unat (cb_tail cb) + i)) [0..<n] ! i"
    using assms by (simp add: ring_items_def add.assoc)
qed (use assms(3) in simp)

section \<open>What a write and a read do\<close>

text \<open>Byte \<open>i\<close> of what is written: zero for a null source.\<close>

definition payload :: "nat option \<Rightarrow> mem \<Rightarrow> nat \<Rightarrow> u8" where
  "payload buf m i = (case buf of None \<Rightarrow> 0 | Some b \<Rightarrow> m (b + i))"

definition clear_of :: "nat option \<Rightarrow> nat \<Rightarrow> nat \<Rightarrow> nat \<Rightarrow> bool" where
  "clear_of buf len p N \<longleftrightarrow> (case buf of None \<Rightarrow> True | Some b \<Rightarrow> b + len \<le> p \<or> p + N \<le> b)"

lemma write_len_eq:
  assumes "ring_ok cb p"
  shows "write_len cb n = min (if cb_tail cb \<le> cb_head cb
      then 2 ^ cb_len_pow2 cb - unat (cb_head cb) - (if cb_tail cb = 0 then 1 else 0)
      else unat (cb_tail cb) - unat (cb_head cb) - 1) n"
proof -
  have k: "cb_len_pow2 cb < 32" "unat (cb_head cb) < 2 ^ cb_len_pow2 cb" using assms by (simp_all add: ring_ok_def)
  have a: "unat (valpow2 (cb_len_pow2 cb) - cb_head cb) = 2 ^ cb_len_pow2 cb - unat (cb_head cb)"
    using k by (simp add: unat_sub word_le_nat_alt unat_valpow2)
  have b: "unat (valpow2 (cb_len_pow2 cb) - cb_head cb - 1) = 2 ^ cb_len_pow2 cb - unat (cb_head cb) - 1"
    using a k(2) by (subst unat_sub) (simp_all add: word_le_nat_alt)
  have c: "unat (cb_tail cb - cb_head cb - 1) = unat (cb_tail cb) - unat (cb_head cb) - 1" if "cb_head cb < cb_tail cb"
  proof -
    have "unat (cb_tail cb - cb_head cb) = unat (cb_tail cb) - unat (cb_head cb)"
      using that by (simp add: unat_sub order_less_imp_le)
    then show ?thesis using that by (subst unat_sub) (simp_all add: word_le_nat_alt word_less_nat_alt)
  qed
  show ?thesis using a b c unfolding write_len_def by (auto simp: not_le)
qed

lemma write_len_bounds:
  assumes "ring_ok cb p" and "ring_used cb < 2 ^ cb_len_pow2 cb - 1" and "0 < n"
  shows "0 < write_len cb n" and "write_len cb n \<le> n" and "unat (cb_head cb) + write_len cb n \<le> 2 ^ cb_len_pow2 cb"
    and "ring_used cb + write_len cb n < 2 ^ cb_len_pow2 cb"
proof -
  have le: "cb_tail cb \<le> cb_head cb \<longleftrightarrow> unat (cb_tail cb) \<le> unat (cb_head cb)" by (simp add: word_le_nat_alt)
  have z: "cb_tail cb = 0 \<longleftrightarrow> unat (cb_tail cb) = 0" by (simp add: unat_eq_0)
  have b: "unat (cb_head cb) < 2 ^ cb_len_pow2 cb" "unat (cb_tail cb) < 2 ^ cb_len_pow2 cb"
    using assms(1) by (simp_all add: ring_ok_def)
  note facts = write_len_eq [OF assms(1), of n, unfolded le z] ring_used_eq [OF assms(1)] b assms(2,3)
  show "write_len cb n \<le> n" using facts(1) by simp
  show "0 < write_len cb n" "unat (cb_head cb) + write_len cb n \<le> 2 ^ cb_len_pow2 cb"
    "ring_used cb + write_len cb n < 2 ^ cb_len_pow2 cb"
    using facts by (auto split: if_splits simp: min_def)
qed

lemma read_len_bounds:
  assumes "ring_ok cb p" and "0 < ring_used cb" and "0 < n"
  shows "0 < read_len cb n" and "read_len cb n \<le> n" and "unat (cb_tail cb) + read_len cb n \<le> 2 ^ cb_len_pow2 cb"
    and "read_len cb n \<le> ring_used cb"
proof -
  have k: "cb_len_pow2 cb < 32" "unat (cb_tail cb) < 2 ^ cb_len_pow2 cb" "unat (cb_head cb) < 2 ^ cb_len_pow2 cb"
    using assms(1) by (simp_all add: ring_ok_def)
  have a: "unat (valpow2 (cb_len_pow2 cb) - cb_tail cb) = 2 ^ cb_len_pow2 cb - unat (cb_tail cb)"
    using k by (simp add: unat_sub word_le_nat_alt unat_valpow2)
  have b: "cb_tail cb < cb_head cb \<Longrightarrow> unat (cb_head cb - cb_tail cb) = unat (cb_head cb) - unat (cb_tail cb)"
    by (simp add: unat_sub order_less_imp_le)
  have l: "cb_tail cb < cb_head cb \<longleftrightarrow> unat (cb_tail cb) < unat (cb_head cb)" by (simp add: word_less_nat_alt)
  have r: "read_len cb n = (if unat (cb_tail cb) < unat (cb_head cb) then min (unat (cb_head cb) - unat (cb_tail cb)) n
      else min (2 ^ cb_len_pow2 cb - unat (cb_tail cb)) n)"
    using b unfolding read_len_def a l by simp
  note facts = r ring_used_eq [OF assms(1)] k(2,3) assms(2,3)
  show "0 < read_len cb n" "read_len cb n \<le> n" "unat (cb_tail cb) + read_len cb n \<le> 2 ^ cb_len_pow2 cb" "read_len cb n \<le> ring_used cb"
    using facts by (auto split: if_splits simp: min_def)
qed

text \<open>One pass of the write loop.\<close>

lemma write_pass_ok:
  assumes "ring_ok cb p" and "clear_of buf len p (2 ^ cb_len_pow2 cb)" and "pos + n \<le> len" and "0 < n"
    and "unat (cb_head cb) + n \<le> 2 ^ cb_len_pow2 cb" and "ring_used cb + n < 2 ^ cb_len_pow2 cb"
  defines "cb' \<equiv> cb\<lparr>cb_head := INC_POINTER cb (cb_head cb) n\<rparr>"
  shows "\<exists>m'. (case buf of None \<Rightarrow> memset (p + unat (cb_head cb)) 0 n m
                  | Some b \<Rightarrow> memcpy (p + unat (cb_head cb)) (b + pos) n m) = Some (p + unat (cb_head cb), m')
    \<and> ring_ok cb' p \<and> ring_used cb' = ring_used cb + n
    \<and> ring_items cb' p m' = ring_items cb p m @ map (payload buf m) [pos..<pos + n]
    \<and> (\<forall>a. a < p \<or> p + 2 ^ cb_len_pow2 cb \<le> a \<longrightarrow> m' a = m a)"
proof -
  let ?h = "p + unat (cb_head cb)"
  define m' where "m' = (\<lambda>a. if ?h \<le> a \<and> a < ?h + n then payload buf m (pos + (a - ?h)) else m a)"
  have "(2 :: nat) ^ cb_len_pow2 cb \<le> 2 ^ 31" using assms(1) by (intro power_increasing) (simp_all add: ring_ok_def)
  then have n: "n < 2 ^ 31" using assms(6) by linarith
  have "(case buf of None \<Rightarrow> memset ?h 0 n m | Some b \<Rightarrow> memcpy ?h (b + pos) n m) = Some (?h, m')"
  proof (cases buf)
    case None
    then show ?thesis unfolding m'_def by (auto simp: memset_ok filled_def payload_def fun_eq_iff)
  next
    case (Some b)
    then have "\<not> (b + pos < ?h \<and> ?h < b + pos + n)" using assms(2,3,5) by (auto simp: clear_of_def)
    then show ?thesis using memcpy_ok [OF n, of "b + pos" ?h m] Some unfolding m'_def
      by (simp add: copied_def payload_def fun_eq_iff add.assoc)
  qed
  moreover have m': "\<And>a. a < ?h \<or> ?h + n \<le> a \<Longrightarrow> m' a = m a" "\<And>i. i < n \<Longrightarrow> m' (?h + i) = payload buf m (pos + i)"
    by (auto simp: m'_def)
  moreover have "map (\<lambda>i. payload buf m (pos + i)) [0..<n] = map (payload buf m) [pos..<pos + n]"
    by (rule nth_equalityI) simp_all
  moreover have "\<forall>a. a < p \<or> p + 2 ^ cb_len_pow2 cb \<le> a \<longrightarrow> m' a = m a"
    using assms(5) by (auto intro!: m'(1))
  moreover note put = ring_items_put [where m' = m' and m = m and f = "\<lambda>i. payload buf m (pos + i)", OF assms(1,4-6) m', simplified]
  ultimately show ?thesis unfolding cb'_def by (intro exI [of _ m']) simp
qed

lemma payload_frame:
  assumes "clear_of buf len p N" and "\<forall>a. a < p \<or> p + N \<le> a \<longrightarrow> m' a = m a" and "hi \<le> len"
  shows "map (payload buf m') [lo..<hi] = map (payload buf m) [lo..<hi]"
  using assms by (intro map_cong refl) (auto simp: payload_def clear_of_def split: option.splits)

lemma min_step: "(n :: nat) \<le> a \<Longrightarrow> n \<le> b \<Longrightarrow> min a b = n + min (a - n) (b - n)"
  by auto

lemma cbuf_write_loop_ok:
  fixes pos :: nat
  assumes "ring_ok cb p" and "clear_of buf len p (2 ^ cb_len_pow2 cb)"
  defines "k \<equiv> min (len - pos) (2 ^ cb_len_pow2 cb - 1 - ring_used cb)"
  shows "\<exists>h m'. cbuf_write_loop buf len pos cb m = Some (pos + k, cb\<lparr>cb_head := h\<rparr>, m') \<and> ring_ok (cb\<lparr>cb_head := h\<rparr>) p
    \<and> ring_items (cb\<lparr>cb_head := h\<rparr>) p m' = ring_items cb p m @ map (payload buf m) [pos..<pos + k]
    \<and> (\<forall>a. a < p \<or> p + 2 ^ cb_len_pow2 cb \<le> a \<longrightarrow> m' a = m a)"
  using assms(1,2) unfolding k_def
proof (induction "len - pos" arbitrary: pos cb m rule: less_induct)
  case less
  let ?N = "2 ^ cb_len_pow2 cb :: nat"
  note av = cbuf_space_avail_eq [OF less.prems(1)]
  show ?case
  proof (cases "pos < len \<and> ring_used cb < ?N - 1")
    case False
    then have "min (len - pos) (?N - 1 - ring_used cb) = 0" by auto
    moreover have "cbuf_write_loop buf len pos cb m = Some (pos, cb\<lparr>cb_head := cb_head cb\<rparr>, m)"
      using False by (subst cbuf_write_loop.simps) (auto simp: av)
    ultimately show ?thesis using less.prems(1) by (intro exI [of _ "cb_head cb"] exI [of _ m]) simp
  next
    case True
    let ?n = "write_len cb (len - pos)"
    let ?cb = "cb\<lparr>cb_head := INC_POINTER cb (cb_head cb) ?n\<rparr>"
    have n: "0 < ?n" "?n \<le> len - pos" "unat (cb_head cb) + ?n \<le> ?N" "ring_used cb + ?n < ?N"
      using write_len_bounds [OF less.prems(1), of "len - pos"] True by simp_all
    then have "pos + ?n \<le> len" using True by linarith
    then obtain m1 where m1: "(case buf of None \<Rightarrow> memset (p + unat (cb_head cb)) 0 ?n m
          | Some b \<Rightarrow> memcpy (p + unat (cb_head cb)) (b + pos) ?n m) = Some (p + unat (cb_head cb), m1)"
        "ring_ok ?cb p" "ring_used ?cb = ring_used cb + ?n"
        "ring_items ?cb p m1 = ring_items cb p m @ map (payload buf m) [pos..<pos + ?n]"
        "\<forall>a. a < p \<or> p + ?N \<le> a \<longrightarrow> m1 a = m a"
      using write_pass_ok [OF less.prems(1,2) _ n(1,3,4), of pos m] by blast
    have go: "pos < len \<and> 0 < cbuf_space_avail cb" unfolding av using True by linarith
    define k where "k = min (len - (pos + ?n)) (?N - 1 - ring_used ?cb)"
    have "?n \<le> ?N - 1 - ring_used cb" using n(4) by linarith
    then have k: "min (len - pos) (?N - 1 - ring_used cb) = ?n + k"
      unfolding k_def m1(3) by (subst min_step [OF n(2)]) (simp_all add: diff_diff_left)
    have "len - (pos + ?n) < len - pos" using n True by linarith
    then obtain h m' where ih: "cbuf_write_loop buf len (pos + ?n) ?cb m1 = Some (pos + ?n + k, cb\<lparr>cb_head := h\<rparr>, m')"
        "ring_ok (cb\<lparr>cb_head := h\<rparr>) p"
        "ring_items (cb\<lparr>cb_head := h\<rparr>) p m' = ring_items ?cb p m1 @ map (payload buf m1) [pos + ?n..<pos + ?n + k]"
        "\<forall>a. a < p \<or> p + ?N \<le> a \<longrightarrow> m' a = m1 a"
      using less.hyps [of "pos + ?n" ?cb m1] less.prems(2) m1(2) unfolding k_def by auto
    have "cbuf_write_loop buf len pos cb m = Some (pos + (?n + k), cb\<lparr>cb_head := h\<rparr>, m')"
      using go n(1) m1(1) ih(1) less.prems(1)
      by (subst cbuf_write_loop.simps) (simp add: Let_def ring_ok_def add.assoc)
    moreover have "map (payload buf m1) [pos + ?n..<pos + ?n + k] = map (payload buf m) [pos + ?n..<pos + ?n + k]"
      by (rule payload_frame [OF less.prems(2) m1(5)]) (use True n k_def in linarith)
    moreover have "[pos..<pos + (?n + k)] = [pos..<pos + ?n] @ [pos + ?n..<pos + ?n + k]"
      using upt_add_eq_append [of pos "pos + ?n" k] by (simp add: add.assoc)
    ultimately show ?thesis unfolding k using ih m1(4,5)
      by (intro exI [of _ h] exI [of _ m']) simp
  qed
qed

text \<open>One pass of the read loop.\<close>

lemma read_pass_ok:
  assumes "ring_ok cb p" and "clear_of buf buflen p (2 ^ cb_len_pow2 cb)" and "pos + n \<le> buflen"
    and "unat (cb_tail cb) + n \<le> 2 ^ cb_len_pow2 cb" and "n \<le> ring_used cb"
  defines "cb' \<equiv> cb\<lparr>cb_tail := INC_POINTER cb (cb_tail cb) n\<rparr>"
  shows "\<exists>m'. (case buf of None \<Rightarrow> Some m
                 | Some b \<Rightarrow> do { p \<leftarrow> cb_buf cb; (_, m) \<leftarrow> memcpy (b + pos) (p + unat (cb_tail cb)) n m; Some m }) = Some m'
    \<and> ring_items cb' p m' = drop n (ring_items cb p m)
    \<and> (\<forall>a. (case buf of None \<Rightarrow> True | Some b \<Rightarrow> a < b + pos \<or> b + pos + n \<le> a) \<longrightarrow> m' a = m a)
    \<and> (\<forall>b. buf = Some b \<longrightarrow> map (\<lambda>i. m' (b + pos + i)) [0..<n] = take n (ring_items cb p m))"
proof (cases buf)
  case None
  then show ?thesis using ring_items_get(3) [OF assms(1,4,5)] unfolding cb'_def by simp
next
  case (Some b)
  let ?t = "p + unat (cb_tail cb)" and ?N = "2 ^ cb_len_pow2 cb :: nat"
  define m' where "m' = copied (b + pos) ?t n m"
  have "?N \<le> 2 ^ 31" using assms(1) by (intro power_increasing) (simp_all add: ring_ok_def)
  then have n: "n < 2 ^ 31" using assms(5) ring_used_less [of cb] by linarith
  have off: "b + buflen \<le> p \<or> p + ?N \<le> b" using assms(2) Some by (simp add: clear_of_def)
  then have "\<not> (?t < b + pos \<and> b + pos < ?t + n)" using assms(3,4) by auto
  then have e: "memcpy (b + pos) ?t n m = Some (b + pos, m')" unfolding m'_def by (rule memcpy_ok [OF n])
  have ring: "m' a = m a" if "p \<le> a" "a < p + ?N" for a
    using that off assms(3) by (auto simp: m'_def copied_def)
  have "ring_items cb' p m' = ring_items cb' p m"
    unfolding ring_items_def cb'_def by (intro map_cong refl ring) simp_all
  then have "ring_items cb' p m' = drop n (ring_items cb p m)"
    using ring_items_get(3) [OF assms(1,4,5)] unfolding cb'_def by simp
  moreover have "map (\<lambda>i. m' (b + pos + i)) [0..<n] = take n (ring_items cb p m)"
    unfolding take_ring_items [OF assms(1,4,5)] by (simp add: m'_def copied_def)
  moreover have "cb_buf cb = Some p" using assms(1) by (simp add: ring_ok_def)
  ultimately show ?thesis using Some e by (intro exI [of _ m']) (auto simp: m'_def copied_def)
qed

lemma cbuf_read_loop_ok:
  fixes pos :: nat
  assumes "ring_ok cb p" and "clear_of buf buflen p (2 ^ cb_len_pow2 cb)"
  defines "k \<equiv> min (buflen - pos) (ring_used cb)"
  shows "\<exists>t m'. cbuf_read_loop buf buflen pos cb m = Some (pos + k, cb\<lparr>cb_tail := t\<rparr>, m') \<and> ring_ok (cb\<lparr>cb_tail := t\<rparr>) p
    \<and> ring_items (cb\<lparr>cb_tail := t\<rparr>) p m' = drop k (ring_items cb p m)
    \<and> (\<forall>a. (case buf of None \<Rightarrow> True | Some b \<Rightarrow> a < b + pos \<or> b + pos + k \<le> a) \<longrightarrow> m' a = m a)
    \<and> (\<forall>b. buf = Some b \<longrightarrow> map (\<lambda>i. m' (b + pos + i)) [0..<k] = take k (ring_items cb p m))"
  using assms(1,2) unfolding k_def
proof (induction "buflen - pos" arbitrary: pos cb m rule: less_induct)
  case less
  let ?N = "2 ^ cb_len_pow2 cb :: nat"
  show ?case
  proof (cases "pos < buflen \<and> cb_tail cb \<noteq> cb_head cb")
    case False
    then have "min (buflen - pos) (ring_used cb) = 0" using ring_used_0 [OF less.prems(1)] by auto
    moreover have "cbuf_read_loop buf buflen pos cb m = Some (pos, cb\<lparr>cb_tail := cb_tail cb\<rparr>, m)"
      using False by (subst cbuf_read_loop.simps) auto
    ultimately show ?thesis using less.prems(1) by (intro exI [of _ "cb_tail cb"] exI [of _ m]) simp
  next
    case True
    then have u: "0 < ring_used cb" using ring_used_0 [OF less.prems(1)] by simp
    let ?n = "read_len cb (buflen - pos)"
    let ?cb = "cb\<lparr>cb_tail := INC_POINTER cb (cb_tail cb) ?n\<rparr>"
    have n: "0 < ?n" "?n \<le> buflen - pos" "unat (cb_tail cb) + ?n \<le> ?N" "?n \<le> ring_used cb"
      using read_len_bounds [OF less.prems(1) u, of "buflen - pos"] True by simp_all
    then have "pos + ?n \<le> buflen" using True by linarith
    then obtain m1 where m1: "(case buf of None \<Rightarrow> Some m
          | Some b \<Rightarrow> do { p \<leftarrow> cb_buf cb; (_, m) \<leftarrow> memcpy (b + pos) (p + unat (cb_tail cb)) ?n m; Some m }) = Some m1"
        "ring_items ?cb p m1 = drop ?n (ring_items cb p m)"
        "\<forall>a. (case buf of None \<Rightarrow> True | Some b \<Rightarrow> a < b + pos \<or> b + pos + ?n \<le> a) \<longrightarrow> m1 a = m a"
        "\<forall>b. buf = Some b \<longrightarrow> map (\<lambda>i. m1 (b + pos + i)) [0..<?n] = take ?n (ring_items cb p m)"
      using read_pass_ok [OF less.prems(1,2) _ n(3,4), of pos m] by blast
    note cb = ring_items_get(1,2) [OF less.prems(1) n(3,4)]
    define k where "k = min (buflen - (pos + ?n)) (ring_used ?cb)"
    have k: "min (buflen - pos) (ring_used cb) = ?n + k"
      unfolding k_def cb(2) by (subst min_step [OF n(2,4)]) (simp add: diff_diff_left)
    have "buflen - (pos + ?n) < buflen - pos" using n True by linarith
    then obtain t m' where ih: "cbuf_read_loop buf buflen (pos + ?n) ?cb m1 = Some (pos + ?n + k, cb\<lparr>cb_tail := t\<rparr>, m')"
        "ring_ok (cb\<lparr>cb_tail := t\<rparr>) p" "ring_items (cb\<lparr>cb_tail := t\<rparr>) p m' = drop k (ring_items ?cb p m1)"
        "\<forall>a. (case buf of None \<Rightarrow> True | Some b \<Rightarrow> a < b + (pos + ?n) \<or> b + (pos + ?n) + k \<le> a) \<longrightarrow> m' a = m1 a"
        "\<forall>b. buf = Some b \<longrightarrow> map (\<lambda>i. m' (b + (pos + ?n) + i)) [0..<k] = take k (ring_items ?cb p m1)"
      using less.hyps [of "pos + ?n" ?cb m1] less.prems(2) cb(1) unfolding k_def by auto
    have "cbuf_read_loop buf buflen pos cb m = Some (pos + (?n + k), cb\<lparr>cb_tail := t\<rparr>, m')"
      using True m1(1) ih(1) by (subst cbuf_read_loop.simps) (simp add: Let_def add.assoc)
    moreover have "ring_items (cb\<lparr>cb_tail := t\<rparr>) p m' = drop (?n + k) (ring_items cb p m)"
      using ih(3) m1(2) by (simp add: add.commute)
    moreover have "map (\<lambda>i. m' (b + pos + i)) [0..<?n + k] = take (?n + k) (ring_items cb p m)" if "buf = Some b" for b
    proof -
      have "map (\<lambda>i. m' (b + pos + i)) [0..<?n] = map (\<lambda>i. m1 (b + pos + i)) [0..<?n]"
        using ih(4) that by (intro map_cong refl) auto
      also have "\<dots> = take ?n (ring_items cb p m)" using m1(4) that by blast
      finally have "map (\<lambda>i. m' (b + pos + i)) [0..<?n] = take ?n (ring_items cb p m)" .
      moreover have "map (\<lambda>i. m' (b + pos + (?n + i))) [0..<k] = take k (drop ?n (ring_items cb p m))"
        using ih(5) m1(2) that by (simp add: add.assoc)
      ultimately show ?thesis unfolding upt_split take_add by (simp add: comp_def)
    qed
    moreover have "m' a = m a" if "case buf of None \<Rightarrow> True | Some b \<Rightarrow> a < b + pos \<or> b + pos + (?n + k) \<le> a" for a
      using that m1(3) ih(4) by (auto split: option.splits)
    ultimately show ?thesis unfolding k using ih(2) by blast
  qed
qed

section \<open>The event of the buffer\<close>

text \<open>The event is signalled exactly when \<open>v\<close>, and then nobody waits for it.\<close>

definition event_at :: "nat \<Rightarrow> bool \<Rightarrow> 'x sync_scheme \<Rightarrow> bool" where
  "event_at e v s \<longleftrightarrow> ev_magic (events s e) = EVENT_MAGIC \<and> ev_flags (events s e) = 0 \<and> ev_signaled (events s e) = v
     \<and> wq_magic (wait_queues s (EventWQ e)) = WAIT_QUEUE_MAGIC \<and> (v \<longrightarrow> wq_list (wait_queues s (EventWQ e)) = [])"

lemma event_at_shuffled:
  assumes "shuffled c s s'"
  shows "event_at e v s' = event_at e v s" and "current_thread s' c = None \<longleftrightarrow> current_thread s c = None"
proof -
  have "events s' = events s" "wait_queues s' = wait_queues s" using assms sync_more by (auto simp: shuffled_def)
  then show "event_at e v s' = event_at e v s" by (simp add: event_at_def)
  show "current_thread s' c = None \<longleftrightarrow> current_thread s c = None" using assms by (simp add: shuffled_def)
qed

lemma event_signal_at:
  assumes "sched_inv s" and "current_thread s c = Some ct" and "event_at e v s"
    and "resched \<Longrightarrow> \<not> thread_is_idle (threads s ct)"
  shows "\<exists>s'. event_signal e resched c s = Some (NO_ERROR, s') \<and> sched_inv s' \<and> event_at e True s'
    \<and> current_thread s' c \<noteq> None"
proof (cases v)
  case True
  then show ?thesis using assms(1-3) by (simp add: event_signal_def event_at_def)
next
  case False
  let ?ws = "wq_list (wait_queues s (EventWQ e))"
  let ?s = "wq_take_list (EventWQ e) ?ws NO_ERROR (upd_event e (\<lambda>x. x\<lparr>ev_signaled := True\<rparr>) s)"
  have ev: "ev_magic (events s e) = EVENT_MAGIC" "wq_magic (wait_queues s (EventWQ e)) = WAIT_QUEUE_MAGIC"
      "\<not> ev_signaled (events s e)" "ev_flags (events s e) = 0"
    using assms(3) False by (simp_all add: event_at_def)
  then obtain s' where s': "event_signal e resched c s = Some (NO_ERROR, s')" "sched_inv s'" "shuffled c ?s s'"
    using event_signal_ok [OF assms(1,2,4) ev(1,2)] by auto
  have "kernel.more ?s = kernel.more (upd_event e (\<lambda>x. x\<lparr>ev_signaled := True\<rparr>) s)" by simp
  then have "events ?s = events (upd_event e (\<lambda>x. x\<lparr>ev_signaled := True\<rparr>) s)" by (rule sync_more)
  then have "event_at e True ?s" using ev by (simp add: event_at_def wq_take_list_empties)
  then show ?thesis using s' event_at_shuffled [OF s'(3)] assms(2) by auto
qed

lemma event_unsignal_at:
  assumes "sched_inv s" and "event_at e v s"
  shows "\<exists>s'. event_unsignal e s = Some (NO_ERROR, s') \<and> sched_inv s' \<and> event_at e False s' \<and> current_thread s' = current_thread s"
  using assms by (simp add: event_unsignal_def event_at_def)

text \<open>
  The invariant: the ring is well formed, and the event is signalled exactly when there is something to read; in
  particular no reader waits while the ring has data.
\<close>

definition cbuf_inv :: "cbuf \<Rightarrow> nat \<Rightarrow> 'x sync_scheme \<Rightarrow> bool" where
  "cbuf_inv cb p s \<longleftrightarrow> ring_ok cb p \<and> sched_inv s \<and> event_at (cb_event cb) (ring_used cb \<noteq> 0) s"

lemma cbuf_write_ok:
  assumes "cbuf_inv cb p s" and "current_thread s c = Some ct" and "len < 2 ^ cb_len_pow2 cb"
    and "clear_of buf len p (2 ^ cb_len_pow2 cb)"
  defines "k \<equiv> min len (2 ^ cb_len_pow2 cb - 1 - ring_used cb)"
  shows "\<exists>h m' s'. cbuf_write buf len resched c cb m s = Some (k, cb\<lparr>cb_head := h\<rparr>, m', s') \<and> cbuf_inv (cb\<lparr>cb_head := h\<rparr>) p s'
    \<and> current_thread s' c \<noteq> None
    \<and> ring_items (cb\<lparr>cb_head := h\<rparr>) p m' = ring_items cb p m @ map (payload buf m) [0..<k]
    \<and> (\<forall>a. a < p \<or> p + 2 ^ cb_len_pow2 cb \<le> a \<longrightarrow> m' a = m a)"
proof -
  have inv: "ring_ok cb p" "sched_inv s" "event_at (cb_event cb) (ring_used cb \<noteq> 0) s" using assms(1) by (simp_all add: cbuf_inv_def)
  have v: "unat (valpow2 (cb_len_pow2 cb)) = 2 ^ cb_len_pow2 cb" using inv(1) by (simp add: ring_ok_def unat_valpow2)
  obtain h m' where L: "cbuf_write_loop buf len 0 cb m = Some (k, cb\<lparr>cb_head := h\<rparr>, m')" "ring_ok (cb\<lparr>cb_head := h\<rparr>) p"
      "ring_items (cb\<lparr>cb_head := h\<rparr>) p m' = ring_items cb p m @ map (payload buf m) [0..<k]"
      "\<forall>a. a < p \<or> p + 2 ^ cb_len_pow2 cb \<le> a \<longrightarrow> m' a = m a"
    using cbuf_write_loop_ok [OF inv(1) assms(4), of 0 m] unfolding k_def by auto
  let ?cb = "cb\<lparr>cb_head := h\<rparr>"
  have u: "ring_used ?cb = ring_used cb + k" using arg_cong [OF L(3), of length] by simp
  have empty: "cb_head ?cb = cb_tail ?cb \<longleftrightarrow> ring_used ?cb = 0" using ring_used_0 [OF L(2)] by auto
  obtain s1 where s1: "(if cb_head ?cb \<noteq> cb_tail ?cb then event_signal (cb_event ?cb) False c s else Some (NO_ERROR, s)) = Some (NO_ERROR, s1)"
      "sched_inv s1" "event_at (cb_event cb) (ring_used ?cb \<noteq> 0) s1" "current_thread s1 c \<noteq> None"
  proof (cases "ring_used ?cb = 0")
    case True
    then show thesis using that [of s] inv assms(2) u empty by simp
  next
    case False
    then show thesis using that event_signal_at [OF inv(2) assms(2) inv(3), of False] empty by auto
  qed
  obtain ct1 where ct1: "current_thread s1 c = Some ct1" using s1(4) by blast
  obtain s2 where s2: "(if resched then thread_preempt c s1 else Some s1) = Some s2" "sched_inv s2"
      "event_at (cb_event cb) (ring_used ?cb \<noteq> 0) s2" "current_thread s2 c \<noteq> None"
  proof (cases resched)
    case True
    obtain s2 where "thread_preempt c s1 = Some s2" "sched_inv s2" and sh: "shuffled c s1 s2"
      using thread_preempt_ok [OF s1(2) ct1] by blast
    then show thesis using that [of s2] True event_at_shuffled [OF sh] s1(3,4) by simp
  next
    case False
    then show thesis using that [of s1] s1 by simp
  qed
  have "cbuf_write buf len resched c cb m s = Some (k, ?cb, m', s2)"
    unfolding cbuf_write_def v L(1) using assms(3) s1(1) s2(1) by simp
  then show ?thesis using L s2 unfolding cbuf_inv_def by (intro exI [of _ h] exI [of _ m'] exI [of _ s2]) simp
qed

lemma cbuf_read_locked_ok:
  assumes "cbuf_inv cb p s" and "clear_of buf buflen p (2 ^ cb_len_pow2 cb)"
  defines "k \<equiv> min buflen (ring_used cb)"
  shows "\<exists>t m' s'. cbuf_read_locked buf buflen cb m s = Some (k, cb\<lparr>cb_tail := t\<rparr>, m', s') \<and> cbuf_inv (cb\<lparr>cb_tail := t\<rparr>) p s'
    \<and> current_thread s' = current_thread s
    \<and> ring_items (cb\<lparr>cb_tail := t\<rparr>) p m' = drop k (ring_items cb p m)
    \<and> (\<forall>a. (case buf of None \<Rightarrow> True | Some b \<Rightarrow> a < b \<or> b + k \<le> a) \<longrightarrow> m' a = m a)
    \<and> (\<forall>b. buf = Some b \<longrightarrow> map (\<lambda>i. m' (b + i)) [0..<k] = take k (ring_items cb p m))"
proof -
  have inv: "ring_ok cb p" "sched_inv s" "event_at (cb_event cb) (ring_used cb \<noteq> 0) s" using assms(1) by (simp_all add: cbuf_inv_def)
  show ?thesis
  proof (cases "cb_tail cb = cb_head cb")
    case True
    then have "k = 0" using ring_used_0 [OF inv(1)] by (simp add: k_def)
    moreover have e: "cb\<lparr>cb_tail := cb_head cb\<rparr> = cb" unfolding True [symmetric] by simp
    ultimately show ?thesis using True assms(1)
      by (intro exI [of _ "cb_head cb"] exI [of _ m] exI [of _ s]) (unfold e, simp add: cbuf_read_locked_def)
  next
    case False
    then have u: "0 < ring_used cb" using ring_used_0 [OF inv(1)] by simp
    obtain t m' where L: "cbuf_read_loop buf buflen 0 cb m = Some (k, cb\<lparr>cb_tail := t\<rparr>, m')" "ring_ok (cb\<lparr>cb_tail := t\<rparr>) p"
        "ring_items (cb\<lparr>cb_tail := t\<rparr>) p m' = drop k (ring_items cb p m)"
        "\<forall>a. (case buf of None \<Rightarrow> True | Some b \<Rightarrow> a < b \<or> b + k \<le> a) \<longrightarrow> m' a = m a"
        "\<forall>b. buf = Some b \<longrightarrow> map (\<lambda>i. m' (b + i)) [0..<k] = take k (ring_items cb p m)"
      using cbuf_read_loop_ok [OF inv(1) assms(2), of 0 m] unfolding k_def add_0_left add_0_right diff_zero by blast
    let ?cb = "cb\<lparr>cb_tail := t\<rparr>"
    have u': "ring_used ?cb = ring_used cb - k" using arg_cong [OF L(3), of length] by simp
    have empty: "cb_tail ?cb = cb_head ?cb \<longleftrightarrow> ring_used ?cb = 0" using ring_used_0 [OF L(2)] by auto
    obtain s1 where s1: "(if cb_tail ?cb = cb_head ?cb then do { chk (k > 0); event_unsignal (cb_event ?cb) s }
          else Some (NO_ERROR, s)) = Some (NO_ERROR, s1)"
        "sched_inv s1" "event_at (cb_event cb) (ring_used ?cb \<noteq> 0) s1" "current_thread s1 = current_thread s"
    proof (cases "ring_used ?cb = 0")
      case True
      then have "k > 0" using u u' by simp
      then show thesis using that event_unsignal_at [OF inv(2,3)] True empty by auto
    next
      case False
      then show thesis using that [of s] inv empty u' u by auto
    qed
    have "cbuf_read_locked buf buflen cb m s = Some (k, ?cb, m', s1)"
      unfolding cbuf_read_locked_def L(1) using False s1(1) by simp
    then show ?thesis using L s1 unfolding cbuf_inv_def by (intro exI [of _ t] exI [of _ m'] exI [of _ s1]) simp
  qed
qed

lemma cbuf_read_eq:
  "cbuf_read buf buflen False c cb m s =
     map_option (\<lambda>(n, cb, m, s). (Returns n, cb, m, s)) (cbuf_read_locked buf buflen cb m s)"
  by (subst cbuf_read.simps) (cases "cbuf_read_locked buf buflen cb m s", auto)

lemma event_wait_at:
  assumes "event_at e True s"
  shows "event_wait e c s = Some (Returns NO_ERROR, s)"
  using assms by (simp add: event_wait_def event_wait_timeout_def event_at_def)

text \<open>A blocking read of a ring with data is a read that does not block; of an empty ring, it waits for the event.\<close>

lemma cbuf_read_block_data:
  assumes "cbuf_inv cb p s" and "0 < ring_used cb" and "0 < buflen" and "clear_of buf buflen p (2 ^ cb_len_pow2 cb)"
  shows "cbuf_read buf buflen True c cb m s = cbuf_read buf buflen False c cb m s"
proof -
  have "event_wait (cb_event cb) c s = Some (Returns NO_ERROR, s)"
    using assms(1,2) by (intro event_wait_at) (simp add: cbuf_inv_def)
  then show ?thesis
    using cbuf_read_locked_ok [OF assms(1,4), of m] assms(2,3)
    by (subst (1 2) cbuf_read.simps) auto
qed

lemma cbuf_read_block_empty:
  assumes "cbuf_inv cb p s" and "ring_used cb = 0" and "current_thread s c = Some ct"
    and "\<not> thread_is_idle (threads s ct)" and "tm_node (timers s (StackTimer ct)) = None"
  shows "\<exists>s'. cbuf_read buf buflen True c cb m s = Some (Switches, cb, m, s') \<and> cbuf_inv cb p s'
    \<and> ct \<in> set (wq_list (wait_queues s' (EventWQ (cb_event cb))))"
proof -
  let ?e = "cb_event cb"
  have inv: "ring_ok cb p" "sched_inv s" "event_at ?e False s" using assms(1,2) by (simp_all add: cbuf_inv_def)
  then have ev: "ev_magic (events s ?e) = EVENT_MAGIC" "wq_magic (wait_queues s (EventWQ ?e)) = WAIT_QUEUE_MAGIC"
      "\<not> ev_signaled (events s ?e)" by (simp_all add: event_at_def)
  obtain s1 s' where s': "event_wait ?e c s = Some (Switches, s')" "sched_inv s'" "blocked_on (EventWQ ?e) ct INFINITE_TIME s s1" "shuffled c s1 s'"
    using event_wait_timeout_ok [OF inv(2) assms(3-5) ev(1,2), of INFINITE_TIME] ev(3) by (auto simp: event_wait_def)
  note b = blocked_onD [OF s'(3)]
  have "event_at ?e False s1" using inv(3) sync_more(3) [OF b(8)] b(6) by (simp add: event_at_def)
  then have "event_at ?e False s'" using event_at_shuffled [OF s'(4)] by simp
  moreover have "ct \<in> set (wq_list (wait_queues s' (EventWQ ?e)))" using s'(4) b(5) by (simp add: shuffled_def)
  moreover have "cbuf_read buf buflen True c cb m s = Some (Switches, cb, m, s')"
    using s'(1) by (subst cbuf_read.simps) simp
  ultimately show ?thesis using inv(1) s'(2) assms(2) by (auto simp: cbuf_inv_def)
qed

lemma cbuf_write_char_ok:
  assumes "cbuf_inv cb p s" and "current_thread s c = Some ct" and "resched \<Longrightarrow> \<not> thread_is_idle (threads s ct)"
  defines "k \<equiv> min 1 (2 ^ cb_len_pow2 cb - 1 - ring_used cb)"
  shows "\<exists>h m' s'. cbuf_write_char ch resched c cb m s = Some (k, cb\<lparr>cb_head := h\<rparr>, m', s') \<and> cbuf_inv (cb\<lparr>cb_head := h\<rparr>) p s'
    \<and> ring_items (cb\<lparr>cb_head := h\<rparr>) p m' = ring_items cb p m @ replicate k ch
    \<and> (\<forall>a. a < p \<or> p + 2 ^ cb_len_pow2 cb \<le> a \<longrightarrow> m' a = m a)"
proof -
  have inv: "ring_ok cb p" "sched_inv s" "event_at (cb_event cb) (ring_used cb \<noteq> 0) s" using assms(1) by (simp_all add: cbuf_inv_def)
  note av = cbuf_space_avail_eq [OF inv(1)]
  show ?thesis
  proof (cases "cbuf_space_avail cb = 0")
    case True
    then have "k = 0" using av by (simp add: k_def)
    then show ?thesis using True assms(1)
      by (intro exI [of _ "cb_head cb"] exI [of _ m] exI [of _ s]) (simp add: cbuf_write_char_def)
  next
    case False
    then have k: "k = 1" and u: "ring_used cb + 1 < 2 ^ cb_len_pow2 cb" using av unfolding k_def by linarith+
    let ?cb = "cb\<lparr>cb_head := INC_POINTER cb (cb_head cb) 1\<rparr>" and ?m = "m(p + unat (cb_head cb) := ch)"
    have h: "unat (cb_head cb) + 1 \<le> 2 ^ cb_len_pow2 cb" "cb_buf cb = Some p" using inv(1) by (simp_all add: ring_ok_def)
    have "ring_ok ?cb p" "ring_used ?cb = ring_used cb + 1" "ring_items ?cb p ?m = ring_items cb p m @ map (\<lambda>_. ch) [0..<1]"
      by (rule ring_items_put [OF inv(1) _ h(1) u]; auto)+
    note put = this
    have ne: "cb_head ?cb \<noteq> cb_tail ?cb" using ring_used_0 [OF put(1)] put(2) by auto
    obtain s' where s': "event_signal (cb_event cb) resched c s = Some (NO_ERROR, s')" "sched_inv s'" "event_at (cb_event cb) True s'"
      using event_signal_at [OF inv(2) assms(2) inv(3) assms(3)] by blast
    have "cbuf_write_char ch resched c cb m s = Some (k, ?cb, ?m, s')"
      unfolding cbuf_write_char_def using False h(2) ne s'(1) k by simp
    moreover have "cbuf_inv ?cb p s'" using put s' by (simp add: cbuf_inv_def)
    moreover have "\<forall>a. a < p \<or> p + 2 ^ cb_len_pow2 cb \<le> a \<longrightarrow> ?m a = m a" using h(1) by auto
    ultimately show ?thesis using put(3) k by (intro exI [of _ "cb_head ?cb"] exI [of _ ?m] exI [of _ s']) simp
  qed
qed

lemma cbuf_read_char_locked_ok:
  assumes "cbuf_inv cb p s"
  shows "\<exists>t s'. cbuf_read_char_locked cb m s = Some (case ring_items cb p m of [] \<Rightarrow> None | x # _ \<Rightarrow> Some x, cb\<lparr>cb_tail := t\<rparr>, s')
    \<and> cbuf_inv (cb\<lparr>cb_tail := t\<rparr>) p s' \<and> ring_items (cb\<lparr>cb_tail := t\<rparr>) p m = tl (ring_items cb p m)"
proof -
  have inv: "ring_ok cb p" "sched_inv s" "event_at (cb_event cb) (ring_used cb \<noteq> 0) s" using assms(1) by (simp_all add: cbuf_inv_def)
  show ?thesis
  proof (cases "cb_tail cb = cb_head cb")
    case True
    then have n: "ring_items cb p m = []" using ring_used_0 [OF inv(1)] by (simp flip: length_0_conv)
    have e: "cb\<lparr>cb_tail := cb_head cb\<rparr> = cb" unfolding True [symmetric] by simp
    show ?thesis using True assms n
      by (intro exI [of _ "cb_head cb"] exI [of _ s]) (unfold e, simp add: cbuf_read_char_locked_def)
  next
    case False
    then have u: "1 \<le> ring_used cb" using ring_used_0 [OF inv(1)] by simp
    let ?cb = "cb\<lparr>cb_tail := INC_POINTER cb (cb_tail cb) 1\<rparr>"
    have t: "unat (cb_tail cb) + 1 \<le> 2 ^ cb_len_pow2 cb" "cb_buf cb = Some p" using inv(1) by (simp_all add: ring_ok_def)
    note get = ring_items_get [OF inv(1) t(1) u]
    have x: "take 1 (ring_items cb p m) = [m (p + unat (cb_tail cb))]" using take_ring_items [OF inv(1) t(1) u, of m] by simp
    then obtain xs where items: "ring_items cb p m = m (p + unat (cb_tail cb)) # xs" by (cases "ring_items cb p m") auto
    have empty: "cb_tail ?cb = cb_head ?cb \<longleftrightarrow> ring_used ?cb = 0" using ring_used_0 [OF get(1)] by auto
    obtain s' where s': "(if cb_tail ?cb = cb_head ?cb then event_unsignal (cb_event ?cb) s else Some (NO_ERROR, s)) = Some (NO_ERROR, s')"
        "sched_inv s'" "event_at (cb_event cb) (ring_used ?cb \<noteq> 0) s'"
    proof (cases "ring_used ?cb = 0")
      case True
      then show thesis using that event_unsignal_at [OF inv(2,3)] empty by auto
    next
      case False
      then show thesis using that [of s] inv empty u get(2) by simp
    qed
    have "cbuf_read_char_locked cb m s = Some (Some (m (p + unat (cb_tail cb))), ?cb, s')"
      unfolding cbuf_read_char_locked_def using False t(2) s'(1) by (simp add: Let_def split: if_splits)
    moreover have "cbuf_inv ?cb p s'" using get(1) s' by (simp add: cbuf_inv_def)
    moreover have "ring_items ?cb p m = tl (ring_items cb p m)" using get(3) [of m] by (simp add: drop_Suc)
    ultimately show ?thesis using items by (intro exI [of _ "cb_tail ?cb"] exI [of _ s']) simp
  qed
qed

text \<open>The two regions of a peek are the content, in order.\<close>

definition region :: "mem \<Rightarrow> nat option \<times> nat \<Rightarrow> u8 list" where
  "region m r = (case r of (None, _) \<Rightarrow> [] | (Some a, n) \<Rightarrow> map m [a..<a + n])"

lemma cbuf_peek_ok:
  assumes "ring_ok cb p"
  shows "\<exists>r0 r1. cbuf_peek cb = Some (ring_used cb, r0, r1) \<and> region m r0 @ region m r1 = ring_items cb p m"
proof -
  let ?t = "unat (cb_tail cb)" and ?N = "2 ^ cb_len_pow2 cb :: nat" and ?u = "ring_used cb"
  have ok: "?t < ?N" "cb_buf cb = Some p" using assms by (simp_all add: ring_ok_def)
  have u: "?u < ?N" by (rule ring_used_less)
  have shift: "map m [a..<a + n] = map (\<lambda>i. m (a + i)) [0..<n]" for a n by (rule nth_equalityI) simp_all
  show ?thesis
  proof (cases "?u + ?t > ?N")
    case True
    define a b where "a = ?N - ?t" and "b = ?u - a"
    have ab: "?u = a + b" "b < ?t" using True u ok(1) unfolding a_def b_def by linarith+
    have "ring_items cb p m = map (\<lambda>i. m (p + ?t + i)) [0..<a] @ map (\<lambda>i. m (p + i)) [0..<b]"
    proof (rule nth_equalityI)
      fix i assume i: "i < length (ring_items cb p m)"
      show "ring_items cb p m ! i = (map (\<lambda>i. m (p + ?t + i)) [0..<a] @ map (\<lambda>i. m (p + i)) [0..<b]) ! i"
      proof (cases "i < a")
        case True
        then have "?t + i < ?N" unfolding a_def by linarith
        then show ?thesis using i True by (simp add: ring_items_def nth_append add.assoc)
      next
        case False
        then have "?t + i = (i - a) + ?N" using ok(1) unfolding a_def by linarith
        moreover have "i - a < ?N" using i ab u by simp
        ultimately have "(?t + i) mod ?N = i - a" by (metis mod_add_self2 mod_less)
        moreover have "[0..<b] ! (i - a) = i - a" using i ab False by (subst nth_upt) auto
        ultimately show ?thesis using i False ab by (simp add: ring_items_def nth_append)
      qed
    qed (use ab in simp)
    moreover have "cbuf_peek cb = Some (?u, (Some (p + ?t), a), (Some p, b))"
      using ok u True unfolding cbuf_peek_def Let_def cbuf_space_used_eq [OF assms] cbuf_size_eq [OF assms] a_def b_def by auto
    ultimately show ?thesis by (simp add: region_def shift)
  next
    case False
    then have "take ?u (ring_items cb p m) = map (\<lambda>i. m (p + ?t + i)) [0..<?u]"
      by (intro take_ring_items [OF assms]) simp_all
    moreover have "cbuf_peek cb = Some (?u, (if ?u \<noteq> 0 then Some (p + ?t) else None, ?u), (None, 0))"
      using ok u False unfolding cbuf_peek_def Let_def cbuf_space_used_eq [OF assms] cbuf_size_eq [OF assms] by auto
    ultimately show ?thesis by (auto simp: region_def shift)
  qed
qed

lemma cbuf_initialize_etc_ok:
  assumes "sched_inv s" and "wq_list (wait_queues s (EventWQ e)) = []" and "k < 32"
  shows "\<exists>cb s'. cbuf_initialize_etc e (2 ^ k) (Some p) s = Some (cb, s') \<and> cbuf_inv cb p s' \<and> cb_len_pow2 cb = k
    \<and> ring_items cb p m = [] \<and> current_thread s' = current_thread s \<and> threads s' = threads s"
proof -
  let ?s = "upd_wq (EventWQ e) (\<lambda>_. WAIT_QUEUE_INITIAL_VALUE) (upd_event e (\<lambda>_. EVENT_INITIAL_VALUE False 0) s)"
  let ?cb = "\<lparr>cb_head = 0, cb_tail = 0, cb_len_pow2 = k, cb_buf = Some p, cb_event = e\<rparr>"
  have w: "word_of_nat (2 ^ k) = (2 ^ k :: u32)" by simp
  have "cbuf_initialize_etc e (2 ^ k) (Some p) s = Some (?cb, ?s)"
    unfolding cbuf_initialize_etc_def w using assms(3)
    by (simp add: ispow2_power log2_uint_power event_init_def wait_queue_init_def)
  moreover have "sched_inv ?s"
    by (rule kinv_upd_wq_empty) (use assms(1,2) in \<open>simp_all add: WAIT_QUEUE_INITIAL_VALUE_def\<close>)
  moreover have "ring_used ?cb = 0" by (simp add: ring_used_def)
  moreover have "kernel.more ?s = kernel.more (upd_event e (\<lambda>_. EVENT_INITIAL_VALUE False 0) s)" by simp
  then have "events ?s = events (upd_event e (\<lambda>_. EVENT_INITIAL_VALUE False 0) s)" by (rule sync_more)
  then have "event_at e False ?s" by (simp add: event_at_def EVENT_INITIAL_VALUE_def WAIT_QUEUE_INITIAL_VALUE_def)
  ultimately show ?thesis using assms(3)
    by (intro exI [of _ ?cb] exI [of _ ?s]) (simp add: cbuf_inv_def ring_ok_def ring_items_def)
qed

section \<open>The buffer is a queue\<close>

text \<open>The calls that put bytes in or take bytes out; a blocking read that has to wait takes nothing.\<close>

type_synonym cbuf_state = "cbuf \<times> mem \<times> sync"

definition cb_ok :: "cbuf_state \<Rightarrow> bool" where
  "cb_ok = (\<lambda>(cb, m, s). cbuf_inv cb (the (cb_buf cb)) s)"

definition cb_items :: "cbuf_state \<Rightarrow> u8 list" where
  "cb_items = (\<lambda>(cb, m, s). ring_items cb (the (cb_buf cb)) m)"

definition cb_limit :: "cbuf_state \<Rightarrow> nat" where
  "cb_limit = (\<lambda>(cb, m, s). 2 ^ cb_len_pow2 cb - 1)"

definition cb_put :: "u8 list \<Rightarrow> cbuf_state \<Rightarrow> cbuf_state \<Rightarrow> bool" where
  "cb_put xs = (\<lambda>(cb, m, s) (cb', m', s').
     (\<exists>buf len resched c n. current_thread s c \<noteq> None \<and> len < 2 ^ cb_len_pow2 cb
        \<and> clear_of buf len (the (cb_buf cb)) (2 ^ cb_len_pow2 cb)
        \<and> cbuf_write buf len resched c cb m s = Some (n, cb', m', s') \<and> xs = map (payload buf m) [0..<n])
   \<or> (\<exists>ch resched c ct n. current_thread s c = Some ct \<and> \<not> thread_is_idle (threads s ct)
        \<and> cbuf_write_char ch resched c cb m s = Some (n, cb', m', s') \<and> xs = replicate n ch))"

definition cb_get :: "u8 list \<Rightarrow> cbuf_state \<Rightarrow> cbuf_state \<Rightarrow> bool" where
  "cb_get ys = (\<lambda>(cb, m, s) (cb', m', s').
     (\<exists>b buflen block c ct n. current_thread s c = Some ct \<and> \<not> thread_is_idle (threads s ct)
        \<and> tm_node (timers s (StackTimer ct)) = None \<and> 0 < buflen
        \<and> clear_of (Some b) buflen (the (cb_buf cb)) (2 ^ cb_len_pow2 cb)
        \<and> cbuf_read (Some b) buflen block c cb m s = Some (n, cb', m', s')
        \<and> ys = (case n of Returns n \<Rightarrow> map (\<lambda>i. m' (b + i)) [0..<n] | Switches \<Rightarrow> [])))"

interpretation ring: fifo cb_ok cb_items cb_limit cb_put cb_get
proof
  fix st :: cbuf_state
  obtain cb m s where st: "st = (cb, m, s)" by (cases st)
  have "ring_used cb \<le> 2 ^ cb_len_pow2 cb - 1" using ring_used_less [of cb] by linarith
  then show "length (cb_items st) \<le> cb_limit st" by (simp add: st cb_items_def cb_limit_def)
next
  fix st st' :: cbuf_state and xs
  obtain cb m s cb' m' s' where st: "st = (cb, m, s)" "st' = (cb', m', s')" by (cases st, cases st')
  assume "cb_ok st"
  then have inv: "cbuf_inv cb (the (cb_buf cb)) s" by (simp add: st cb_ok_def)
  assume put: "cb_put xs st st'"
  have "cb_ok st' \<and> cb_items st' = cb_items st @ xs \<and> cb_limit st' = cb_limit st"
    using put [unfolded cb_put_def st prod.case]
  proof (elim disjE exE conjE)
    fix buf len resched c n
    assume "current_thread s c \<noteq> None" and a: "len < 2 ^ cb_len_pow2 cb" "clear_of buf len (the (cb_buf cb)) (2 ^ cb_len_pow2 cb)"
      "cbuf_write buf len resched c cb m s = Some (n, cb', m', s')" "xs = map (payload buf m) [0..<n]"
    then obtain ct where "current_thread s c = Some ct" by blast
    then show ?thesis using cbuf_write_ok [OF inv _ a(1,2), of c ct resched m] a(3,4)
      by (auto simp: st cb_ok_def cb_items_def cb_limit_def)
  next
    fix ch resched c ct n
    assume a: "current_thread s c = Some ct" "\<not> thread_is_idle (threads s ct)"
      "cbuf_write_char ch resched c cb m s = Some (n, cb', m', s')" "xs = replicate n ch"
    show ?thesis using cbuf_write_char_ok [OF inv a(1), of resched ch m] a(2-4)
      by (auto simp: st cb_ok_def cb_items_def cb_limit_def)
  qed
  then show "cb_ok st'" "cb_items st' = cb_items st @ xs" "cb_limit st' = cb_limit st" by simp_all
next
  fix st st' :: cbuf_state and ys
  obtain cb m s cb' m' s' where st: "st = (cb, m, s)" "st' = (cb', m', s')" by (cases st, cases st')
  assume "cb_ok st"
  then have inv: "cbuf_inv cb (the (cb_buf cb)) s" by (simp add: st cb_ok_def)
  assume "cb_get ys st st'"
  then obtain b buflen block c ct n where g: "current_thread s c = Some ct" "\<not> thread_is_idle (threads s ct)"
      "tm_node (timers s (StackTimer ct)) = None" "0 < buflen" "clear_of (Some b) buflen (the (cb_buf cb)) (2 ^ cb_len_pow2 cb)"
      "cbuf_read (Some b) buflen block c cb m s = Some (n, cb', m', s')"
      "ys = (case n of Returns n \<Rightarrow> map (\<lambda>i. m' (b + i)) [0..<n] | Switches \<Rightarrow> [])"
    unfolding cb_get_def st prod.case by blast
  have "cb_ok st' \<and> ys @ cb_items st' = cb_items st \<and> cb_limit st' = cb_limit st"
  proof (cases "block \<and> ring_used cb = 0")
    case True
    then show ?thesis using cbuf_read_block_empty [OF inv _ g(1-3), of "Some b" buflen m] g(6,7)
      by (auto simp: st cb_ok_def cb_items_def cb_limit_def)
  next
    case False
    then have "cbuf_read (Some b) buflen False c cb m s = Some (n, cb', m', s')"
      using g(6) cbuf_read_block_data [OF inv _ g(4,5)] by (cases block) auto
    then show ?thesis using cbuf_read_locked_ok [OF inv g(5), of m] g(7) unfolding cbuf_read_eq
      by (auto simp: st cb_ok_def cb_items_def cb_limit_def)
  qed
  then show "cb_ok st'" "ys @ cb_items st' = cb_items st" "cb_limit st' = cb_limit st" by simp_all
qed

text \<open>A blocking read of zero bytes finds the event signalled, takes nothing and starts again.\<close>

lemma cbuf_read_spins:
  fixes s :: "'a sync_scheme"
  assumes "cbuf_read buf buflen block c cb m s = Some y" and "buflen = 0" and "block"
    and "event_at (cb_event cb) True s" and "cb_tail cb \<noteq> cb_head cb"
  shows False
proof -
  let ?P = "\<lambda>buf buflen block c cb m s y. \<not> (buflen = 0 \<and> block \<and> event_at (cb_event cb) True s \<and> cb_tail cb \<noteq> cb_head cb)"
  have "?P buf buflen block c cb m s y"
  proof (rule cbuf_read.raw_induct [where P = ?P, OF _ assms(1)], rule notI)
    fix read :: "nat option \<Rightarrow> nat \<Rightarrow> bool \<Rightarrow> nat \<Rightarrow> cbuf \<Rightarrow> mem \<Rightarrow> 'a sync_scheme \<Rightarrow> (nat outcome \<times> cbuf \<times> mem \<times> 'a sync_scheme) option"
      and buf buflen block c cb m s y
    assume ih: "\<And>buf buflen block c cb m s y. read buf buflen block c cb m s = Some y \<Longrightarrow> ?P buf buflen block c cb m s y"
      and body: "(if block then event_wait (cb_event cb) c s else Some (Returns 0, s)) \<bind>
         (\<lambda>(r, s). if r = Switches then Some (Switches, cb, m, s)
            else cbuf_read_locked buf buflen cb m s \<bind>
              (\<lambda>(ret, cb, m, s). if block \<and> ret = 0 then read buf buflen block c cb m s else Some (Returns ret, cb, m, s))) = Some y"
      and here: "buflen = 0 \<and> block \<and> event_at (cb_event cb) True s \<and> cb_tail cb \<noteq> cb_head cb"
    have "cbuf_read_loop buf 0 0 cb m = Some (0, cb, m)" by (subst cbuf_read_loop.simps) simp
    then have "cbuf_read_locked buf 0 cb m s = Some (0, cb, m, s)" using here by (simp add: cbuf_read_locked_def)
    then have "read buf 0 True c cb m s = Some y" using body here event_wait_at [of "cb_event cb" s c] by simp
    then show False using ih [of buf 0 True c cb m s y] here by simp
  qed
  then show False using assms(2-5) by simp
qed

section \<open>Properties\<close>

text \<open>
  A buffer of eight bytes at address 4096 with event 0, initialised in a running kernel.
\<close>

definition demo_ring :: "cbuf \<times> sync" where
  "demo_ring = the (cbuf_initialize_etc 0 8 (Some 4096) race_state)"

lemma demo_ring_ok:
  obtains cb s where "demo_ring = (cb, s)" "cbuf_inv cb 4096 s" "cb_len_pow2 cb = 3" "\<And>m. ring_items cb 4096 m = []"
    "ring_used cb = 0" "current_thread s 0 = Some (Thread 0)" "cb_buf cb = Some 4096"
proof -
  have w: "wq_list (wait_queues race_state (EventWQ 0)) = []" "current_thread race_state 0 = Some (Thread 0)"
    by (simp_all add: race_state_def zero_wait_queue_def)
  have "(2 :: nat) ^ 3 = 8" by simp
  then obtain cb s where cb: "cbuf_initialize_etc 0 8 (Some 4096) race_state = Some (cb, s)" "cbuf_inv cb 4096 s"
      "cb_len_pow2 cb = 3" "ring_items cb 4096 (\<lambda>_. 0) = []" "current_thread s = current_thread race_state"
    using cbuf_initialize_etc_ok [OF race_state_inv w(1), of 3 4096 "\<lambda>_. 0"] by auto
  have u: "ring_used cb = 0" using arg_cong [OF cb(4), of length] by simp
  show thesis
    by (rule that [of cb s])
       (use cb u w(2) in \<open>simp_all add: demo_ring_def ring_items_def cbuf_inv_def ring_ok_def\<close>)
qed



text \<open>
  C33. Round trip: what is written into an empty buffer, up to its size less one, is what the next read of
  that length delivers, across the end of the ring as well, and the buffer is empty again.
\<close>

theorem cbuf_roundtrip:
  assumes "cbuf_inv cb p s" and "ring_used cb = 0" and "current_thread s c \<noteq> None" and "len < 2 ^ cb_len_pow2 cb"
    and "clear_of (Some src) len p (2 ^ cb_len_pow2 cb)" and "clear_of (Some dst) len p (2 ^ cb_len_pow2 cb)"
  shows "\<exists>cb1 m1 s1 cb2 m2 s2. cbuf_write (Some src) len resched c cb m s = Some (len, cb1, m1, s1)
    \<and> cbuf_read (Some dst) len False c cb1 m1 s1 = Some (Returns len, cb2, m2, s2)
    \<and> (\<forall>i < len. m2 (dst + i) = m (src + i)) \<and> cbuf_inv cb2 p s2 \<and> ring_used cb2 = 0"
proof -
  obtain ct where ct: "current_thread s c = Some ct" using assms(3) by blast
  have k: "min len (2 ^ cb_len_pow2 cb - 1 - ring_used cb) = len" using assms(2,4) by simp
  obtain h m1 s1 where w: "cbuf_write (Some src) len resched c cb m s = Some (len, cb\<lparr>cb_head := h\<rparr>, m1, s1)"
      "cbuf_inv (cb\<lparr>cb_head := h\<rparr>) p s1"
      "ring_items (cb\<lparr>cb_head := h\<rparr>) p m1 = ring_items cb p m @ map (payload (Some src) m) [0..<len]"
    using cbuf_write_ok [OF assms(1) ct assms(4,5), of resched m] unfolding k by blast
  let ?cb = "cb\<lparr>cb_head := h\<rparr>"
  have items: "ring_items ?cb p m1 = map (\<lambda>i. m (src + i)) [0..<len]"
    using w(3) assms(2) by (simp add: ring_items_def payload_def)
  have u: "ring_used ?cb = len" using arg_cong [OF items, of length] by simp
  obtain t m2 s2 where r: "cbuf_read_locked (Some dst) len ?cb m1 s1 = Some (len, ?cb\<lparr>cb_tail := t\<rparr>, m2, s2)"
      "cbuf_inv (?cb\<lparr>cb_tail := t\<rparr>) p s2" "ring_items (?cb\<lparr>cb_tail := t\<rparr>) p m2 = drop len (ring_items ?cb p m1)"
      "map (\<lambda>i. m2 (dst + i)) [0..<len] = take len (ring_items ?cb p m1)"
    using cbuf_read_locked_ok [OF w(2), of "Some dst" len m1] assms(6) u by auto
  have "m2 (dst + i) = m (src + i)" if "i < len" for i
    using arg_cong [OF r(4), of "\<lambda>xs. xs ! i"] that unfolding items by simp
  moreover have "ring_used (?cb\<lparr>cb_tail := t\<rparr>) = 0" using arg_cong [OF r(3), of length] u by simp
  ultimately show ?thesis using w(1) r(1,2) unfolding cbuf_read_eq by auto
qed

theorem cbuf_roundtrip_witness:
  "\<exists>cb s cb1 m1 s1 cb2 m2 s2. demo_ring = (cb, s)
    \<and> cbuf_write (Some 0) 5 True 0 cb (\<lambda>a. word_of_nat a) s = Some (5, cb1, m1, s1)
    \<and> cbuf_read (Some 8) 5 False 0 cb1 m1 s1 = Some (Returns 5, cb2, m2, s2) \<and> m2 10 = 2"
proof (rule demo_ring_ok)
  fix cb s
  assume cb: "demo_ring = (cb, s)" "cbuf_inv cb 4096 s" "cb_len_pow2 cb = 3" "ring_used cb = 0"
    "current_thread s 0 = Some (Thread 0)"
  obtain cb1 m1 s1 cb2 m2 s2 where w: "cbuf_write (Some 0) 5 True 0 cb (\<lambda>a. word_of_nat a) s = Some (5, cb1, m1, s1)"
      "cbuf_read (Some 8) 5 False 0 cb1 m1 s1 = Some (Returns 5, cb2, m2, s2)" "\<forall>i < 5. m2 (8 + i) = word_of_nat (0 + i)"
    using cbuf_roundtrip [OF cb(2,4), of 0 5 0 8 True "\<lambda>a. word_of_nat a"] cb(3,5) by (auto simp: clear_of_def)
  have "m2 10 = 2" using w(3) [rule_format, of 2] by simp
  then show ?thesis using cb(1) w(1,2) by blast
qed

text \<open>
  C34. A write into a buffer that is not full leaves no reader waiting: it accepts at least one byte, the event is
  signalled, and every thread that was blocked on the event is woken.
\<close>

theorem cbuf_write_wakes_readers:
  assumes "cbuf_inv cb p s" and "current_thread s c \<noteq> None" and "0 < len" and "len < 2 ^ cb_len_pow2 cb"
    and "clear_of buf len p (2 ^ cb_len_pow2 cb)" and "0 < cbuf_space_avail cb"
  shows "\<exists>n cb' m' s'. cbuf_write buf len resched c cb m s = Some (n, cb', m', s') \<and> 0 < n
    \<and> ev_signaled (events s' (cb_event cb)) \<and> wq_list (wait_queues s' (EventWQ (cb_event cb))) = []"
proof -
  obtain ct where ct: "current_thread s c = Some ct" using assms(2) by blast
  have ok: "ring_ok cb p" using assms(1) by (simp add: cbuf_inv_def)
  let ?k = "min len (2 ^ cb_len_pow2 cb - 1 - ring_used cb)"
  have k: "0 < ?k" using assms(3,6) unfolding cbuf_space_avail_eq [OF ok] by simp
  obtain h m' s' where w: "cbuf_write buf len resched c cb m s = Some (?k, cb\<lparr>cb_head := h\<rparr>, m', s')"
      "cbuf_inv (cb\<lparr>cb_head := h\<rparr>) p s'"
      "ring_items (cb\<lparr>cb_head := h\<rparr>) p m' = ring_items cb p m @ map (payload buf m) [0..<?k]"
    using cbuf_write_ok [OF assms(1) ct assms(4,5), of resched m] by blast
  have "ring_used (cb\<lparr>cb_head := h\<rparr>) = ring_used cb + ?k" using arg_cong [OF w(3), of length] by simp
  then show ?thesis using w(1,2) k by (auto simp: cbuf_inv_def event_at_def)
qed

theorem cbuf_write_wakes_readers_witness:
  "\<exists>cb s n cb' m' s'. demo_ring = (cb, s) \<and> cbuf_write None 7 False 0 cb (\<lambda>_. 1) s = Some (n, cb', m', s') \<and> 0 < n"
proof (rule demo_ring_ok)
  fix cb s
  assume cb: "demo_ring = (cb, s)" "cbuf_inv cb 4096 s" "cb_len_pow2 cb = 3" "ring_used cb = 0"
    "current_thread s 0 = Some (Thread 0)"
  have "ring_ok cb 4096" using cb(2) by (simp add: cbuf_inv_def)
  then have "cbuf_space_avail cb = 7" using cb(3,4) by (simp add: cbuf_space_avail_eq)
  then have "\<exists>n cb' m' s'. cbuf_write None 7 False 0 cb (\<lambda>_. 1) s = Some (n, cb', m', s') \<and> 0 < n
      \<and> ev_signaled (events s' (cb_event cb)) \<and> wq_list (wait_queues s' (EventWQ (cb_event cb))) = []"
    by (intro cbuf_write_wakes_readers [OF cb(2)]) (use cb(3,5) in \<open>simp_all add: clear_of_def\<close>)
  then show ?thesis using cb(1) by blast
qed

text \<open>
  C35. A blocking read of zero bytes never returns when the buffer has data: it finds the event signalled, takes
  nothing, and retries for ever, without giving up the cpu.
\<close>

theorem cbuf_read_zero_never_returns:
  assumes "cbuf_inv cb p s" and "0 < ring_used cb"
  shows "cbuf_read buf 0 True c cb m s = None"
proof (rule ccontr)
  assume "cbuf_read buf 0 True c cb m s \<noteq> None"
  then obtain y where "cbuf_read buf 0 True c cb m s = Some y" by blast
  then show False
    by (rule cbuf_read_spins) (use assms ring_used_0 [of cb p] in \<open>simp_all add: cbuf_inv_def\<close>)
qed

theorem cbuf_read_zero_never_returns_witness:
  "\<exists>cb s n cb' m' s'. demo_ring = (cb, s) \<and> cbuf_write None 1 False 0 cb (\<lambda>_. 1) s = Some (n, cb', m', s')
    \<and> cbuf_read (Some 0) 0 True 0 cb' m' s' = None"
proof (rule demo_ring_ok)
  fix cb s
  assume cb: "demo_ring = (cb, s)" "cbuf_inv cb 4096 s" "cb_len_pow2 cb = 3" "ring_used cb = 0"
    "current_thread s 0 = Some (Thread 0)"
  obtain h m' s' where w: "cbuf_write None 1 False 0 cb (\<lambda>_. 1) s = Some (1, cb\<lparr>cb_head := h\<rparr>, m', s')"
      "cbuf_inv (cb\<lparr>cb_head := h\<rparr>) 4096 s'" "ring_items (cb\<lparr>cb_head := h\<rparr>) 4096 m' = ring_items cb 4096 (\<lambda>_. 1) @ map (payload None (\<lambda>_. 1)) [0..<1]"
    using cbuf_write_ok [OF cb(2,5), of 1 None False "\<lambda>_. 1"] cb(3,4) by (auto simp: clear_of_def)
  have "0 < ring_used (cb\<lparr>cb_head := h\<rparr>)" using arg_cong [OF w(3), of length] by simp
  then show ?thesis using cbuf_read_zero_never_returns [OF w(2)] w(1) cb(1) by blast
qed

end
