(* ===== verification/Port.thy ===== *)
theory Port
  imports Scenario Pow2 Fifo
begin

text \<open>
  The ports of \<^verbatim>\<open>kernel/port.c\<close>: named write ports, the read ports opened on them, groups of read ports, and the
  packet buffers between them, on top of the wait queues of the scheduler.

  A port is an object of the heap, under the address that its handle is. The intrusive lists are the sequences of the
  addresses of their elements; the node of a read port in a list also records the owner of the list, because
  \<^verbatim>\<open>list_delete\<close> finds the list through the node: on a node that is in no list it dereferences a null pointer. Access to
  an object that is not allocated fails. The wait queue of the object at address \<open>a\<close> is the wait queue \<open>WQ a\<close>. The
  addresses that \<^verbatim>\<open>malloc\<close> and \<^verbatim>\<open>calloc\<close> return are arguments, \<^term>\<open>None\<close> when there is no memory. A pointer argument
  the code tests against \<^verbatim>\<open>NULL\<close> is an option or, for the place of a result, a flag.

  A call that blocks is split at its context switch.
\<close>

unbundle bit_operations_syntax

section \<open>Packet buffers\<close>

abbreviation (input) PORT_NAME_LEN :: nat where "PORT_NAME_LEN \<equiv> 12"
abbreviation (input) WRITEPORT_MAGIC_W :: u32 where "WRITEPORT_MAGIC_W \<equiv> 0x70727477"
abbreviation (input) WRITEPORT_MAGIC_X :: u32 where "WRITEPORT_MAGIC_X \<equiv> 0x70727478"
abbreviation (input) READPORT_MAGIC :: u32 where "READPORT_MAGIC \<equiv> 0x70727472"
abbreviation (input) PORTGROUP_MAGIC :: u32 where "PORTGROUP_MAGIC \<equiv> 0x70727467"
abbreviation (input) PORT_BUFF_SIZE :: u32 where "PORT_BUFF_SIZE \<equiv> 8"
abbreviation (input) PORT_BUFF_SIZE_BIG :: u32 where "PORT_BUFF_SIZE_BIG \<equiv> 64"
abbreviation (input) MAX_PORT_GROUP_COUNT :: nat where "MAX_PORT_GROUP_COUNT \<equiv> 256"
abbreviation (input) PORT_MODE_BROADCAST :: u32 where "PORT_MODE_BROADCAST \<equiv> 0"
abbreviation (input) PORT_MODE_UNICAST :: u32 where "PORT_MODE_UNICAST \<equiv> 1"
abbreviation (input) PORT_MODE_BIG_BUFFER :: u32 where "PORT_MODE_BIG_BUFFER \<equiv> 2"

text \<open>A packet is its sixteen bytes.\<close>

type_synonym port_packet = "8 word list"

record port_buf =
  pb_log2 :: nat
  pb_avail :: u32
  pb_head :: u32
  pb_tail :: u32
  pb_packet :: "port_packet list"

text \<open>\<open>junk\<close> is what the allocated memory holds.\<close>

definition make_buf :: "bool \<Rightarrow> (nat \<Rightarrow> port_packet) \<Rightarrow> port_buf" where
  "make_buf big junk =
     (let pk_count = (if big then PORT_BUFF_SIZE_BIG else PORT_BUFF_SIZE)
      in \<lparr>pb_log2 = log2_uint pk_count, pb_avail = pk_count, pb_head = 0, pb_tail = 0,
          pb_packet = map junk [0..<unat pk_count]\<rparr>)"

definition buf_is_empty :: "port_buf \<Rightarrow> bool" where
  "buf_is_empty b \<longleftrightarrow> pb_avail b = valpow2 (pb_log2 b)"

fun buf_write_loop :: "port_packet list \<Rightarrow> port_buf \<Rightarrow> port_buf option" where
  "buf_write_loop [] b = Some b"
| "buf_write_loop (pk # pks) b = do {
     chk (unat (pb_tail b) < length (pb_packet b));
     buf_write_loop pks (b\<lparr>pb_packet := (pb_packet b)[unat (pb_tail b) := pk],
                           pb_tail := modpow2 (pb_tail b + 1) (pb_log2 b)\<rparr>) }"

definition buf_write :: "port_packet list \<Rightarrow> port_buf \<Rightarrow> (status_t \<times> port_buf) option" where
  "buf_write packets b =
     (if unat (pb_avail b) < length packets then Some (ERR_NOT_ENOUGH_BUFFER, b)
      else do {
        b \<leftarrow> buf_write_loop packets b;
        Some (NO_ERROR, b\<lparr>pb_avail := pb_avail b - word_of_nat (length packets)\<rparr>) })"

definition buf_read :: "port_buf \<Rightarrow> (status_t \<times> port_packet option \<times> port_buf) option" where
  "buf_read b =
     (if buf_is_empty b then Some (ERR_NO_MSG, None, b)
      else do {
        chk (unat (pb_head b) < length (pb_packet b));
        Some (NO_ERROR, Some (pb_packet b ! unat (pb_head b)),
              b\<lparr>pb_head := modpow2 (pb_head b + 1) (pb_log2 b), pb_avail := pb_avail b + 1\<rparr>) })"

section \<open>Ports\<close>

record write_port =
  wp_magic :: u32
  wp_node :: bool
  wp_buf :: "nat option"
  wp_rp_list :: "nat list"
  wp_mode :: u32
  wp_name :: string

record port_group_obj =
  pg_magic :: u32
  pg_rp_list :: "nat list"

record read_port =
  rp_magic :: u32
  rp_w_node :: "nat option"
  rp_g_node :: "nat option"
  rp_buf :: "nat option"
  rp_ctx :: nat
  rp_wport :: "nat option"
  rp_gport :: "nat option"

datatype port_obj = WPort write_port | RPort read_port | PGroup port_group_obj

record ports = sync +
  write_port_list :: "nat list"
  port_heap :: "nat \<Rightarrow> port_obj option"
  buf_heap :: "nat \<Rightarrow> port_buf option"

text \<open>Every kind of port starts with its magic number.\<close>

definition obj_magic :: "port_obj \<Rightarrow> u32" where
  "obj_magic p = (case p of WPort w \<Rightarrow> wp_magic w | RPort r \<Rightarrow> rp_magic r | PGroup g \<Rightarrow> pg_magic g)"

definition ld_wport :: "nat \<Rightarrow> 'x ports_scheme \<Rightarrow> write_port option" where
  "ld_wport a s = (case port_heap s a of Some (WPort w) \<Rightarrow> Some w | _ \<Rightarrow> None)"

definition ld_rport :: "nat \<Rightarrow> 'x ports_scheme \<Rightarrow> read_port option" where
  "ld_rport a s = (case port_heap s a of Some (RPort r) \<Rightarrow> Some r | _ \<Rightarrow> None)"

definition ld_group :: "nat \<Rightarrow> 'x ports_scheme \<Rightarrow> port_group_obj option" where
  "ld_group a s = (case port_heap s a of Some (PGroup g) \<Rightarrow> Some g | _ \<Rightarrow> None)"

definition st_port :: "nat \<Rightarrow> port_obj option \<Rightarrow> 'x ports_scheme \<Rightarrow> 'x ports_scheme" where
  "st_port a p s = s\<lparr>port_heap := (port_heap s)(a := p)\<rparr>"

definition st_buf :: "nat \<Rightarrow> port_buf option \<Rightarrow> 'x ports_scheme \<Rightarrow> 'x ports_scheme" where
  "st_buf b v s = s\<lparr>buf_heap := (buf_heap s)(b := v)\<rparr>"

definition port_init :: "'x ports_scheme \<Rightarrow> 'x ports_scheme" where
  "port_init s = s\<lparr>write_port_list := []\<rparr>"

text \<open>The walk through the list of write ports, to the first with the name.\<close>

fun find_port :: "string \<Rightarrow> nat list \<Rightarrow> 'x ports_scheme \<Rightarrow> nat option option" where
  "find_port name [] s = Some None"
| "find_port name (a # as) s = do {
     w \<leftarrow> ld_wport a s;
     if wp_name w = name then Some (Some a) else find_port name as s }"

definition port_create :: "nat option \<Rightarrow> nat option \<Rightarrow> (nat \<Rightarrow> port_packet) \<Rightarrow> string option \<Rightarrow> u32 \<Rightarrow> bool \<Rightarrow>
    'x ports_scheme \<Rightarrow> (status_t \<times> nat option \<times> 'x ports_scheme) option" where
  "port_create wp_mem buf_mem junk name mode out s =
     (case name of None \<Rightarrow> Some (ERR_INVALID_ARGS, None, s) | Some name \<Rightarrow>
      if \<not> out then Some (ERR_INVALID_ARGS, None, s)
      else if mode AND PORT_MODE_BROADCAST \<noteq> 0 \<and> mode AND PORT_MODE_BIG_BUFFER \<noteq> 0 then Some (ERR_INVALID_ARGS, None, s)
      else if length name \<ge> PORT_NAME_LEN then Some (ERR_INVALID_ARGS, None, s)
      else do {
        found \<leftarrow> find_port name (write_port_list s) s;
        case found of
          Some wp \<Rightarrow> do {
            w \<leftarrow> ld_wport wp s;
            if wp_magic w = WRITEPORT_MAGIC_X then Some (ERR_BUSY, None, s) else Some (ERR_ALREADY_EXISTS, Some wp, s) }
        | None \<Rightarrow>
            (case wp_mem of None \<Rightarrow> Some (ERR_NO_MEMORY, None, s) | Some wp \<Rightarrow>
             case buf_mem of None \<Rightarrow> Some (ERR_NO_MEMORY, None, s) | Some b \<Rightarrow>
               (let w = \<lparr>wp_magic = WRITEPORT_MAGIC_W, wp_node = True, wp_buf = Some b, wp_rp_list = [], wp_mode = mode,
                         wp_name = name\<rparr>;
                    s = st_buf b (Some (make_buf (mode AND PORT_MODE_BIG_BUFFER \<noteq> 0) junk)) s;
                    s = st_port wp (Some (WPort w)) s
                in Some (NO_ERROR, Some wp, s\<lparr>write_port_list := write_port_list s @ [wp]\<rparr>))) })"

definition port_open :: "nat option \<Rightarrow> nat option \<Rightarrow> (nat \<Rightarrow> port_packet) \<Rightarrow> string option \<Rightarrow> nat \<Rightarrow> bool \<Rightarrow>
    'x ports_scheme \<Rightarrow> (status_t \<times> nat option \<times> 'x ports_scheme) option" where
  "port_open rp_mem buf_mem junk name ctx out s =
     (case name of None \<Rightarrow> Some (ERR_INVALID_ARGS, None, s) | Some name \<Rightarrow>
      if \<not> out then Some (ERR_INVALID_ARGS, None, s)
      else case rp_mem of None \<Rightarrow> Some (ERR_NO_MEMORY, None, s) | Some rp \<Rightarrow> do {
        let s = wait_queue_init (WQ rp) s;
        case buf_mem of None \<Rightarrow> Some (ERR_NO_MEMORY, None, s) | Some buf \<Rightarrow> do {
          let r = \<lparr>rp_magic = READPORT_MAGIC, rp_w_node = None, rp_g_node = None, rp_buf = None, rp_ctx = ctx,
                   rp_wport = None, rp_gport = None\<rparr>;
          found \<leftarrow> find_port name (write_port_list s) s;
          case found of
            None \<Rightarrow> Some (ERR_NOT_FOUND, None, s)
          | Some wp \<Rightarrow> do {
              w \<leftarrow> ld_wport wp s;
              case wp_buf w of
                Some b \<Rightarrow>
                  (let s = st_port wp (Some (WPort (w\<lparr>wp_rp_list := wp_rp_list w @ [rp], wp_buf := None\<rparr>))) s;
                       s = st_port rp (Some (RPort (r\<lparr>rp_wport := Some wp, rp_w_node := Some wp, rp_buf := Some b\<rparr>))) s
                   in Some (NO_ERROR, Some rp, s))
              | None \<Rightarrow>
                  if wp_mode w AND PORT_MODE_UNICAST \<noteq> 0 then Some (ERR_NOT_ALLOWED, None, s)
                  else
                    (let s = st_port wp (Some (WPort (w\<lparr>wp_rp_list := wp_rp_list w @ [rp]\<rparr>))) s;
                         s = st_buf buf (Some (make_buf False junk)) s;
                         s = st_port rp (Some (RPort (r\<lparr>rp_wport := Some wp, rp_w_node := Some wp, rp_buf := Some buf\<rparr>))) s
                     in Some (NO_ERROR, Some rp, s)) } } })"

section \<open>Groups\<close>

text \<open>The undo loop of \<^verbatim>\<open>port_group\<close>: the ports already linked are not taken out of the list of the group.\<close>

fun unlink_ports :: "nat list \<Rightarrow> 'x ports_scheme \<Rightarrow> 'x ports_scheme option" where
  "unlink_ports [] s = Some s"
| "unlink_ports (a # as) s = do {
     r \<leftarrow> ld_rport a s;
     unlink_ports as (st_port a (Some (RPort (r\<lparr>rp_gport := None\<rparr>))) s) }"

text \<open>The loop over the ports; \<open>bef\<close> are those linked so far.\<close>

fun link_ports :: "nat \<Rightarrow> nat list \<Rightarrow> nat list \<Rightarrow> 'x ports_scheme \<Rightarrow> (status_t \<times> 'x ports_scheme) option" where
  "link_ports pg bef [] s = Some (NO_ERROR, s)"
| "link_ports pg bef (a # as) s = do {
     p \<leftarrow> port_heap s a;
     if obj_magic p \<noteq> READPORT_MAGIC then do { s \<leftarrow> unlink_ports bef s; Some (ERR_BAD_HANDLE, s) }
     else do {
       r \<leftarrow> ld_rport a s;
       if rp_gport r \<noteq> None then do { s \<leftarrow> unlink_ports bef s; Some (ERR_BAD_HANDLE, s) }
       else do {
         g \<leftarrow> ld_group pg s;
         let s = st_port a (Some (RPort (r\<lparr>rp_gport := Some pg, rp_g_node := Some pg\<rparr>))) s;
         let s = st_port pg (Some (PGroup (g\<lparr>pg_rp_list := pg_rp_list g @ [a]\<rparr>))) s;
         link_ports pg (bef @ [a]) as s } } }"

definition port_group :: "nat option \<Rightarrow> nat list option \<Rightarrow> nat \<Rightarrow> bool \<Rightarrow> 'x ports_scheme \<Rightarrow>
    (status_t \<times> nat option \<times> 'x ports_scheme) option" where
  "port_group pg_mem ports count out s =
     (if count > MAX_PORT_GROUP_COUNT then Some (ERR_TOO_BIG, None, s)
      else if count \<noteq> 0 \<and> ports = None then Some (ERR_INVALID_ARGS, None, s)
      else if \<not> out then Some (ERR_INVALID_ARGS, None, s)
      else case pg_mem of None \<Rightarrow> Some (ERR_NO_MEMORY, None, s) | Some pg \<Rightarrow> do {
        let s = st_port pg (Some (PGroup \<lparr>pg_magic = PORTGROUP_MAGIC, pg_rp_list = []\<rparr>)) (wait_queue_init (WQ pg) s);
        let ps = (case ports of None \<Rightarrow> [] | Some ps \<Rightarrow> ps);
        chk (count \<le> length ps);
        (rc, s) \<leftarrow> link_ports pg [] (take count ps) s;
        if rc = NO_ERROR then Some (rc, Some pg, s) else Some (rc, None, st_port pg None s) })"

definition port_group_add :: "nat option \<Rightarrow> nat option \<Rightarrow> nat \<Rightarrow> 'x ports_scheme \<Rightarrow> (status_t \<times> 'x ports_scheme) option" where
  "port_group_add grp port cpu s =
     (case (grp, port) of
        (Some pg, Some rp) \<Rightarrow> do {
          gp \<leftarrow> port_heap s pg;
          if obj_magic gp \<noteq> PORTGROUP_MAGIC then Some (ERR_INVALID_ARGS, s)
          else do {
            p \<leftarrow> port_heap s rp;
            if obj_magic p \<noteq> READPORT_MAGIC then Some (ERR_BAD_HANDLE, s)
            else do {
              r \<leftarrow> ld_rport rp s;
              if rp_gport r \<noteq> None then Some (ERR_BAD_HANDLE, s)
              else do {
                g \<leftarrow> ld_group pg s;
                if length (pg_rp_list g) = MAX_PORT_GROUP_COUNT then Some (ERR_TOO_BIG, s)
                else do {
                  let s = st_port rp (Some (RPort (r\<lparr>rp_gport := Some pg, rp_g_node := Some pg\<rparr>))) s;
                  let s = st_port pg (Some (PGroup (g\<lparr>pg_rp_list := pg_rp_list g @ [rp]\<rparr>))) s;
                  ba \<leftarrow> rp_buf r;
                  b \<leftarrow> buf_heap s ba;
                  (_, s) \<leftarrow> (if \<not> buf_is_empty b then wait_queue_wake_one (WQ pg) False NO_ERROR cpu s else Some (0, s));
                  Some (NO_ERROR, s) } } } } }
      | _ \<Rightarrow> Some (ERR_INVALID_ARGS, s))"

text \<open>\<^verbatim>\<open>list_delete\<close> on the node of a read port in the list of its group, and in that of its write port.\<close>

definition delete_g_node :: "nat \<Rightarrow> 'x ports_scheme \<Rightarrow> 'x ports_scheme option" where
  "delete_g_node rp s = do {
     r \<leftarrow> ld_rport rp s;
     pg \<leftarrow> rp_g_node r;
     g \<leftarrow> ld_group pg s;
     let s = st_port pg (Some (PGroup (g\<lparr>pg_rp_list := remove1 rp (pg_rp_list g)\<rparr>))) s;
     Some (st_port rp (Some (RPort (r\<lparr>rp_g_node := None\<rparr>))) s) }"

definition delete_w_node :: "nat \<Rightarrow> 'x ports_scheme \<Rightarrow> 'x ports_scheme option" where
  "delete_w_node rp s = do {
     r \<leftarrow> ld_rport rp s;
     wp \<leftarrow> rp_w_node r;
     w \<leftarrow> ld_wport wp s;
     let s = st_port wp (Some (WPort (w\<lparr>wp_rp_list := remove1 rp (wp_rp_list w)\<rparr>))) s;
     Some (st_port rp (Some (RPort (r\<lparr>rp_w_node := None\<rparr>))) s) }"

definition port_group_remove :: "nat option \<Rightarrow> nat option \<Rightarrow> 'x ports_scheme \<Rightarrow> (status_t \<times> 'x ports_scheme) option" where
  "port_group_remove grp port s =
     (case (grp, port) of
        (Some pg, Some rp) \<Rightarrow> do {
          gp \<leftarrow> port_heap s pg;
          if obj_magic gp \<noteq> PORTGROUP_MAGIC then Some (ERR_INVALID_ARGS, s)
          else do {
            p \<leftarrow> port_heap s rp;
            if obj_magic p \<noteq> READPORT_MAGIC then Some (ERR_BAD_HANDLE, s)
            else do {
              r \<leftarrow> ld_rport rp s;
              if rp_gport r \<noteq> Some pg then Some (ERR_BAD_HANDLE, s)
              else do {
                g \<leftarrow> ld_group pg s;
                if rp \<notin> set (pg_rp_list g) then Some (ERR_BAD_HANDLE, s)
                else do { s \<leftarrow> delete_g_node rp s; Some (NO_ERROR, s) } } } } }
      | _ \<Rightarrow> Some (ERR_INVALID_ARGS, s))"

section \<open>Writing and reading\<close>

text \<open>The loop over the read ports of a write port, with the status and the number of threads woken.\<close>

fun port_write_loop :: "port_packet list \<Rightarrow> nat list \<Rightarrow> status_t \<Rightarrow> int \<Rightarrow> nat \<Rightarrow> 'x ports_scheme \<Rightarrow>
    (status_t \<times> int \<times> 'x ports_scheme) option" where
  "port_write_loop pks [] status awake_count cpu s = Some (status, awake_count, s)"
| "port_write_loop pks (rp # rps) status awake_count cpu s = do {
     r \<leftarrow> ld_rport rp s;
     ba \<leftarrow> rp_buf r;
     b \<leftarrow> buf_heap s ba;
     (st, b) \<leftarrow> buf_write pks b;
     if st < 0 then port_write_loop pks rps ERR_PARTIAL_WRITE awake_count cpu s
     else do {
       let s = st_buf ba (Some b) s;
       (awaken, s) \<leftarrow> (case rp_gport r of
                        None \<Rightarrow> Some (0, s)
                      | Some pg \<Rightarrow> do { _ \<leftarrow> ld_group pg s; wait_queue_wake_one (WQ pg) False NO_ERROR cpu s });
       (awaken, s) \<leftarrow> (if awaken = 0 then wait_queue_wake_one (WQ rp) False NO_ERROR cpu s else Some (awaken, s));
       port_write_loop pks rps status (awake_count + awaken) cpu s } }"

definition port_write :: "nat option \<Rightarrow> port_packet list option \<Rightarrow> nat \<Rightarrow> 'x ports_scheme \<Rightarrow> (status_t \<times> 'x ports_scheme) option" where
  "port_write port pk cpu s =
     (case (port, pk) of
        (Some wp, Some pks) \<Rightarrow> do {
          p \<leftarrow> port_heap s wp;
          if obj_magic p \<noteq> WRITEPORT_MAGIC_W then Some (ERR_BAD_HANDLE, s)
          else do {
            w \<leftarrow> ld_wport wp s;
            case wp_buf w of
              Some ba \<Rightarrow> do {
                b \<leftarrow> buf_heap s ba;
                (status, b) \<leftarrow> buf_write pks b;
                Some (status, st_buf ba (Some b) s) }
            | None \<Rightarrow> do {
                (status, awake_count, s) \<leftarrow> port_write_loop pks (wp_rp_list w) NO_ERROR 0 cpu s;
                s \<leftarrow> (if awake_count \<noteq> 0 then thread_yield cpu s else Some s);
                Some (status, s) } } }
      | _ \<Rightarrow> Some (ERR_INVALID_ARGS, s))"

record port_result =
  pr_ctx :: nat
  pr_packet :: port_packet

partial_function (option) read_no_lock :: "nat \<Rightarrow> lk_time_t \<Rightarrow> port_result \<Rightarrow> nat \<Rightarrow> 'x ports_scheme \<Rightarrow>
    (status_t outcome \<times> port_result \<times> 'x ports_scheme) option" where
  "read_no_lock rp timeout res cpu s = do {
     r \<leftarrow> ld_rport rp s;
     ba \<leftarrow> rp_buf r;
     b \<leftarrow> buf_heap s ba;
     (status, pk, b) \<leftarrow> buf_read b;
     let s = st_buf ba (Some b) s;
     let res = (case pk of None \<Rightarrow> res | Some pk \<Rightarrow> res\<lparr>pr_packet := pk\<rparr>);
     let res = res\<lparr>pr_ctx := rp_ctx r\<rparr>;
     if status \<noteq> ERR_NO_MSG then Some (Returns status, res, s)
     else if timeout = 0 then Some (Returns ERR_TIMED_OUT, res, s)
     else do {
       (out, s) \<leftarrow> wait_queue_block (WQ rp) timeout cpu s;
       case out of
         Switches \<Rightarrow> Some (Switches, res, s)
       | Returns wr \<Rightarrow> if wr \<noteq> NO_ERROR then Some (Returns wr, res, s) else read_no_lock rp timeout res cpu s } }"

definition read_no_lock_resume :: "nat \<Rightarrow> lk_time_t \<Rightarrow> port_result \<Rightarrow> nat \<Rightarrow> 'x ports_scheme \<Rightarrow>
    (status_t outcome \<times> port_result \<times> 'x ports_scheme) option" where
  "read_no_lock_resume rp timeout res cpu s = do {
     (wr, s) \<leftarrow> wait_queue_block_resume timeout cpu s;
     if wr \<noteq> NO_ERROR then Some (Returns wr, res, s) else read_no_lock rp timeout res cpu s }"

text \<open>The walk through the ports of a group: the status with which it is left early, if any.\<close>

fun group_scan :: "nat list \<Rightarrow> port_result \<Rightarrow> nat \<Rightarrow> 'x ports_scheme \<Rightarrow> (status_t option \<times> port_result \<times> 'x ports_scheme) option" where
  "group_scan [] res cpu s = Some (None, res, s)"
| "group_scan (rp # rps) res cpu s = do {
     (out, res, s) \<leftarrow> read_no_lock rp 0 res cpu s;
     case out of
       Switches \<Rightarrow> None
     | Returns rc \<Rightarrow> if rc \<noteq> ERR_TIMED_OUT then Some (Some rc, res, s) else group_scan rps res cpu s }"

partial_function (option) group_read :: "nat \<Rightarrow> lk_time_t \<Rightarrow> port_result \<Rightarrow> nat \<Rightarrow> 'x ports_scheme \<Rightarrow>
    (status_t outcome \<times> port_result \<times> 'x ports_scheme) option" where
  "group_read pg timeout res cpu s = do {
     g \<leftarrow> ld_group pg s;
     (rc, res, s) \<leftarrow> group_scan (pg_rp_list g) res cpu s;
     case rc of
       Some rc \<Rightarrow> Some (Returns rc, res, s)
     | None \<Rightarrow> do {
         (out, s) \<leftarrow> wait_queue_block (WQ pg) timeout cpu s;
         case out of
           Switches \<Rightarrow> Some (Switches, res, s)
         | Returns rc \<Rightarrow> if rc = NO_ERROR then group_read pg timeout res cpu s else Some (Returns rc, res, s) } }"

definition group_read_resume :: "nat \<Rightarrow> lk_time_t \<Rightarrow> port_result \<Rightarrow> nat \<Rightarrow> 'x ports_scheme \<Rightarrow>
    (status_t outcome \<times> port_result \<times> 'x ports_scheme) option" where
  "group_read_resume pg timeout res cpu s = do {
     (rc, s) \<leftarrow> wait_queue_block_resume timeout cpu s;
     if rc = NO_ERROR then group_read pg timeout res cpu s else Some (Returns rc, res, s) }"

definition port_read :: "nat option \<Rightarrow> lk_time_t \<Rightarrow> port_result option \<Rightarrow> nat \<Rightarrow> 'x ports_scheme \<Rightarrow>
    (status_t outcome \<times> port_result option \<times> 'x ports_scheme) option" where
  "port_read port timeout result cpu s =
     (case (port, result) of
        (Some a, Some res) \<Rightarrow> do {
          p \<leftarrow> port_heap s a;
          if obj_magic p = READPORT_MAGIC then do { (out, res, s) \<leftarrow> read_no_lock a timeout res cpu s; Some (out, Some res, s) }
          else if obj_magic p = PORTGROUP_MAGIC then do { (out, res, s) \<leftarrow> group_read a timeout res cpu s; Some (out, Some res, s) }
          else Some (Returns ERR_BAD_HANDLE, result, s) }
      | _ \<Rightarrow> Some (Returns ERR_INVALID_ARGS, result, s))"

section \<open>Closing\<close>

fun cancel_readers :: "nat list \<Rightarrow> nat \<Rightarrow> 'x ports_scheme \<Rightarrow> 'x ports_scheme option" where
  "cancel_readers [] cpu s = Some s"
| "cancel_readers (rp # rps) cpu s = do {
     r \<leftarrow> ld_rport rp s;
     (_, s) \<leftarrow> wait_queue_wake_all (WQ rp) False ERR_CANCELLED cpu s;
     (_, s) \<leftarrow> (case rp_gport r of None \<Rightarrow> Some (0, s)
               | Some pg \<Rightarrow> do { _ \<leftarrow> ld_group pg s; wait_queue_wake_all (WQ pg) False ERR_CANCELLED cpu s });
     cancel_readers rps cpu (st_port rp (Some (RPort (r\<lparr>rp_wport := None\<rparr>))) s) }"

definition port_destroy :: "nat option \<Rightarrow> nat \<Rightarrow> 'x ports_scheme \<Rightarrow> (status_t \<times> 'x ports_scheme) option" where
  "port_destroy port cpu s =
     (case port of None \<Rightarrow> Some (ERR_INVALID_ARGS, s) | Some wp \<Rightarrow> do {
        p \<leftarrow> port_heap s wp;
        if obj_magic p \<noteq> WRITEPORT_MAGIC_X then Some (ERR_BAD_HANDLE, s)
        else do {
          w \<leftarrow> ld_wport wp s;
          chk (wp_node w);
          let s = s\<lparr>write_port_list := remove1 wp (write_port_list s)\<rparr>;
          s \<leftarrow> (case wp_buf w of Some b \<Rightarrow> Some (st_buf b None s) | None \<Rightarrow> cancel_readers (wp_rp_list w) cpu s);
          Some (NO_ERROR, st_port wp None s) } })"

text \<open>The loop of \<^verbatim>\<open>port_close\<close> over the ports of a group.\<close>

fun leave_group :: "nat list \<Rightarrow> 'x ports_scheme \<Rightarrow> 'x ports_scheme option" where
  "leave_group [] s = Some s"
| "leave_group (rp # rps) s = do {
     r \<leftarrow> ld_rport rp s;
     leave_group rps (st_port rp (Some (RPort (r\<lparr>rp_gport := None\<rparr>))) s) }"

text \<open>The part of \<^verbatim>\<open>port_close\<close> that leaves the write port: the last reader gives the buffer back.\<close>

definition leave_write_port :: "nat \<Rightarrow> 'x ports_scheme \<Rightarrow> (nat option \<times> 'x ports_scheme) option" where
  "leave_write_port rp s = do {
     r \<leftarrow> ld_rport rp s;
     case rp_wport r of None \<Rightarrow> Some (None, s) | Some wp \<Rightarrow> do {
       s \<leftarrow> delete_w_node rp s;
       r \<leftarrow> ld_rport rp s;
       w \<leftarrow> ld_wport wp s;
       if wp_rp_list w = []
       then Some (None, st_port rp (Some (RPort (r\<lparr>rp_buf := None\<rparr>))) (st_port wp (Some (WPort (w\<lparr>wp_buf := rp_buf r\<rparr>))) s))
       else Some (rp_buf r, s) } }"

definition port_close :: "nat option \<Rightarrow> nat \<Rightarrow> 'x ports_scheme \<Rightarrow> (status_t \<times> 'x ports_scheme) option" where
  "port_close port cpu s =
     (case port of None \<Rightarrow> Some (ERR_INVALID_ARGS, s) | Some a \<Rightarrow> do {
        p \<leftarrow> port_heap s a;
        if obj_magic p = READPORT_MAGIC then do {
          (buf, s) \<leftarrow> leave_write_port a s;
          r \<leftarrow> ld_rport a s;
          s \<leftarrow> (if rp_gport r \<noteq> None then delete_g_node a s else Some s);
          s \<leftarrow> wait_queue_destroy (WQ a) True cpu s;
          let s = (case buf of None \<Rightarrow> s | Some b \<Rightarrow> st_buf b None s);
          Some (NO_ERROR, st_port a None s) }
        else if obj_magic p = PORTGROUP_MAGIC then do {
          g \<leftarrow> ld_group a s;
          s \<leftarrow> wait_queue_destroy (WQ a) True cpu s;
          s \<leftarrow> leave_group (pg_rp_list g) s;
          Some (NO_ERROR, st_port a None s) }
        else if obj_magic p = WRITEPORT_MAGIC_W then do {
          w \<leftarrow> ld_wport a s;
          Some (NO_ERROR, st_port a (Some (WPort (w\<lparr>wp_magic := WRITEPORT_MAGIC_X\<rparr>))) s) }
        else Some (ERR_BAD_HANDLE, s) })"

declare read_no_lock.simps [code] group_read.simps [code]

section \<open>A packet buffer is a queue\<close>

definition pbuf_ok :: "port_buf \<Rightarrow> bool" where
  "pbuf_ok b \<longleftrightarrow> (let N = 2 ^ pb_log2 b in pb_log2 b < 32 \<and> length (pb_packet b) = N \<and> unat (pb_head b) < N
     \<and> unat (pb_avail b) \<le> N \<and> unat (pb_tail b) = (unat (pb_head b) + (N - unat (pb_avail b))) mod N)"

definition pbuf_prefix :: "port_buf \<Rightarrow> nat \<Rightarrow> port_packet list" where
  "pbuf_prefix b u = map (\<lambda>i. pb_packet b ! ((unat (pb_head b) + i) mod 2 ^ pb_log2 b)) [0..<u]"

definition pbuf_items :: "port_buf \<Rightarrow> port_packet list" where
  "pbuf_items b = pbuf_prefix b (2 ^ pb_log2 b - unat (pb_avail b))"

lemma unat_inc_mod:
  assumes "k < 32"
  shows "unat (modpow2 (w + 1) k) = (unat w + 1) mod 2 ^ k"
proof -
  have d: "(2 :: nat) ^ k dvd 2 ^ 32" using assms by (intro le_imp_power_dvd) simp
  have "unat (w + 1) = (unat w + 1) mod 2 ^ 32" by (simp add: unat_word_ariths)
  then show ?thesis using assms d by (simp add: unat_modpow2 mod_mod_cancel)
qed

lemma mod_window:
  assumes "i < u" and "u < N"
  shows "(h + i) mod N \<noteq> (h + u) mod (N :: nat)"
proof
  assume e: "(h + i) mod N = (h + u) mod N"
  have "N dvd (h + u) - (h + i)" using e mod_eq_dvd_iff_nat [of "h + i" "h + u" N] assms(1) by simp
  then have "N dvd u - i" by simp
  then show False using assms by (auto dest: dvd_imp_le)
qed

lemma buf_write_loop_ok:
  assumes "pb_log2 b < 32" and "length (pb_packet b) = 2 ^ pb_log2 b"
    and "unat (pb_tail b) = (unat (pb_head b) + u) mod 2 ^ pb_log2 b" and "u + length pks \<le> 2 ^ pb_log2 b"
  shows "\<exists>t ps. buf_write_loop pks b = Some (b\<lparr>pb_packet := ps, pb_tail := t\<rparr>) \<and> length ps = 2 ^ pb_log2 b
    \<and> unat t = (unat (pb_head b) + (u + length pks)) mod 2 ^ pb_log2 b
    \<and> pbuf_prefix (b\<lparr>pb_packet := ps, pb_tail := t\<rparr>) (u + length pks) = pbuf_prefix b u @ pks"
  using assms
proof (induction pks arbitrary: b u)
  case Nil
  then show ?case by (intro exI [of _ "pb_tail b"] exI [of _ "pb_packet b"]) simp
next
  case (Cons pk pks)
  let ?N = "2 ^ pb_log2 b :: nat" and ?h = "unat (pb_head b)"
  let ?b = "b\<lparr>pb_packet := (pb_packet b)[unat (pb_tail b) := pk], pb_tail := modpow2 (pb_tail b + 1) (pb_log2 b)\<rparr>"
  have t: "unat (pb_tail ?b) = (?h + Suc u) mod ?N"
    using Cons.prems(1,3) by (simp add: unat_inc_mod mod_Suc_eq)
  have u: "u < ?N" "Suc u + length pks \<le> ?N" using Cons.prems(4) by simp_all
  obtain t' ps where ih: "buf_write_loop pks ?b = Some (b\<lparr>pb_packet := ps, pb_tail := t'\<rparr>)" "length ps = ?N"
      "unat t' = (?h + (Suc u + length pks)) mod ?N"
      "pbuf_prefix (b\<lparr>pb_packet := ps, pb_tail := t'\<rparr>) (Suc u + length pks) = pbuf_prefix ?b (Suc u) @ pks"
    using Cons.IH [of ?b "Suc u"] Cons.prems(1,2) t u(2) by auto
  have "pbuf_prefix ?b u = pbuf_prefix b u"
    unfolding pbuf_prefix_def using mod_window [OF _ u(1), of _ ?h] Cons.prems(3)
    by (intro map_cong refl) (simp add: nth_list_update_neq [OF not_sym])
  moreover have "pb_packet ?b ! ((?h + u) mod ?N) = pk" using Cons.prems(2,3) by simp
  ultimately have "pbuf_prefix ?b (Suc u) = pbuf_prefix b u @ [pk]"
    by (simp add: pbuf_prefix_def)
  then show ?case using ih Cons.prems(2,3) by (intro exI [of _ t'] exI [of _ ps]) simp
qed

lemma buf_write_ok:
  assumes "pbuf_ok b"
  shows "if unat (pb_avail b) < length pks then buf_write pks b = Some (ERR_NOT_ENOUGH_BUFFER, b)
    else \<exists>b'. buf_write pks b = Some (NO_ERROR, b') \<and> pbuf_ok b' \<and> pbuf_items b' = pbuf_items b @ pks \<and> pb_log2 b' = pb_log2 b"
proof (cases "unat (pb_avail b) < length pks")
  case True
  then show ?thesis by (simp add: buf_write_def)
next
  case False
  let ?N = "2 ^ pb_log2 b :: nat" and ?a = "unat (pb_avail b)"
  have ok: "pb_log2 b < 32" "length (pb_packet b) = ?N" "unat (pb_head b) < ?N" "?a \<le> ?N"
      "unat (pb_tail b) = (unat (pb_head b) + (?N - ?a)) mod ?N"
    using assms by (simp_all add: pbuf_ok_def Let_def)
  have le: "?N - ?a + length pks \<le> ?N" using False ok(4) by linarith
  obtain t ps where l: "buf_write_loop pks b = Some (b\<lparr>pb_packet := ps, pb_tail := t\<rparr>)" "length ps = ?N"
      "unat t = (unat (pb_head b) + (?N - ?a + length pks)) mod ?N"
      "pbuf_prefix (b\<lparr>pb_packet := ps, pb_tail := t\<rparr>) (?N - ?a + length pks) = pbuf_prefix b (?N - ?a) @ pks"
    using buf_write_loop_ok [OF ok(1,2,5) le] by blast
  let ?b = "b\<lparr>pb_packet := ps, pb_tail := t, pb_avail := pb_avail b - word_of_nat (length pks)\<rparr>"
  have "?a < 2 ^ 32" using unsigned_less [of "pb_avail b", where ?'a = nat] by simp
  then have "unat (word_of_nat (length pks) :: u32) = length pks"
    using False by (simp add: unat_of_nat take_bit_nat_eq_self)
  then have a: "unat (pb_avail ?b) = ?a - length pks" using False by (simp add: unat_sub word_le_nat_alt)
  have used: "?N - (?a - length pks) = ?N - ?a + length pks" using False ok(4) by linarith
  have "buf_write pks b = Some (NO_ERROR, ?b)" using False l(1) by (simp add: buf_write_def)
  moreover have "pbuf_ok ?b" using ok l(2,3) a used by (simp add: pbuf_ok_def Let_def)
  moreover have "pbuf_items ?b = pbuf_items b @ pks"
    using l(4) a used by (simp add: pbuf_items_def pbuf_prefix_def)
  ultimately show ?thesis using False by auto
qed

lemma buf_is_empty_iff: "pbuf_ok b \<Longrightarrow> buf_is_empty b \<longleftrightarrow> pbuf_items b = []"
  by (auto simp: pbuf_ok_def buf_is_empty_def pbuf_items_def pbuf_prefix_def Let_def word_unat_eq_iff unat_valpow2)

lemma buf_read_ok:
  assumes "pbuf_ok b"
  shows "case pbuf_items b of [] \<Rightarrow> buf_read b = Some (ERR_NO_MSG, None, b)
    | pk # pks \<Rightarrow> \<exists>b'. buf_read b = Some (NO_ERROR, Some pk, b') \<and> pbuf_ok b' \<and> pbuf_items b' = pks \<and> pb_log2 b' = pb_log2 b"
proof (cases "pbuf_items b")
  case Nil
  then show ?thesis using buf_is_empty_iff [OF assms] by (simp add: buf_read_def)
next
  case (Cons pk pks)
  let ?N = "2 ^ pb_log2 b :: nat" and ?a = "unat (pb_avail b)" and ?h = "unat (pb_head b)"
  let ?b = "b\<lparr>pb_head := modpow2 (pb_head b + 1) (pb_log2 b), pb_avail := pb_avail b + 1\<rparr>"
  have ok: "pb_log2 b < 32" "length (pb_packet b) = ?N" "?h < ?N" "?a \<le> ?N" "unat (pb_tail b) = (?h + (?N - ?a)) mod ?N"
    using assms by (simp_all add: pbuf_ok_def Let_def)
  have len: "?N - ?a = Suc (length pks)" using arg_cong [OF Cons, of length] by (simp add: pbuf_items_def pbuf_prefix_def)
  have h: "unat (pb_head ?b) = (?h + 1) mod ?N" using ok(1) by (simp add: unat_inc_mod)
  have "?N \<le> 2 ^ 31" using ok(1) by (intro power_increasing) simp_all
  then have a: "unat (pb_avail ?b) = ?a + 1" using len by (simp add: unat_word_ariths)
  have used: "?N - (?a + 1) = length pks" using len by linarith
  have items: "pk # pks = map (\<lambda>i. pb_packet b ! ((?h + i) mod ?N)) [0..<Suc (length pks)]"
    using Cons len by (simp add: pbuf_items_def pbuf_prefix_def)
  have "[0..<Suc (length pks)] = 0 # map Suc [0..<length pks]" by (simp only: upt_conv_Cons zero_less_Suc map_Suc_upt)
  then have hd: "pk = pb_packet b ! ?h" and tl: "pks = map (\<lambda>i. pb_packet b ! ((?h + Suc i) mod ?N)) [0..<length pks]"
    using items ok(3) by (simp_all add: comp_def del: upt_Suc)
  have "buf_read b = Some (NO_ERROR, Some pk, ?b)"
    using Cons buf_is_empty_iff [OF assms] ok(2,3) hd by (simp add: buf_read_def)
  moreover have "pbuf_ok ?b"
  proof -
    have "(unat (pb_head ?b) + (?N - unat (pb_avail ?b))) mod ?N = (?h + (?N - ?a)) mod ?N"
      unfolding h a used len by (simp add: mod_add_left_eq)
    then show ?thesis using ok len a h by (simp add: pbuf_ok_def Let_def)
  qed
  moreover have "pbuf_items ?b = pks"
  proof -
    have "pbuf_items ?b = map (\<lambda>i. pb_packet b ! ((?h + Suc i) mod ?N)) [0..<length pks]"
      unfolding pbuf_items_def pbuf_prefix_def a h using used by (simp add: mod_add_left_eq)
    then show ?thesis using tl by simp
  qed
  ultimately show ?thesis using Cons by simp
qed

definition pbuf_put :: "port_packet list \<Rightarrow> port_buf \<Rightarrow> port_buf \<Rightarrow> bool" where
  "pbuf_put pks b b' \<longleftrightarrow> buf_write pks b = Some (NO_ERROR, b') \<or> pks = [] \<and> (\<exists>xs. buf_write xs b = Some (ERR_NOT_ENOUGH_BUFFER, b'))"

definition pbuf_get :: "port_packet list \<Rightarrow> port_buf \<Rightarrow> port_buf \<Rightarrow> bool" where
  "pbuf_get pks b b' \<longleftrightarrow> (\<exists>st pk. buf_read b = Some (st, pk, b') \<and> pks = (case pk of None \<Rightarrow> [] | Some p \<Rightarrow> [p]))"

interpretation pbuf: fifo pbuf_ok pbuf_items "\<lambda>b. 2 ^ pb_log2 b" pbuf_put pbuf_get
proof
  fix b :: port_buf
  show "length (pbuf_items b) \<le> 2 ^ pb_log2 b" by (simp add: pbuf_items_def pbuf_prefix_def)
next
  fix b b' :: port_buf and pks
  assume ok: "pbuf_ok b" and put: "pbuf_put pks b b'"
  have "pbuf_ok b' \<and> pbuf_items b' = pbuf_items b @ pks \<and> (2 :: nat) ^ pb_log2 b' = 2 ^ pb_log2 b"
    using put unfolding pbuf_put_def
  proof (elim disjE conjE exE)
    assume "buf_write pks b = Some (NO_ERROR, b')"
    then show ?thesis using buf_write_ok [OF ok, of pks] by (auto split: if_splits)
  next
    fix xs assume "pks = []" "buf_write xs b = Some (ERR_NOT_ENOUGH_BUFFER, b')"
    then show ?thesis using buf_write_ok [OF ok, of xs] ok by (auto split: if_splits)
  qed
  then show "pbuf_ok b'" "pbuf_items b' = pbuf_items b @ pks" "(2 :: nat) ^ pb_log2 b' = 2 ^ pb_log2 b" by simp_all
next
  fix b b' :: port_buf and pks
  assume ok: "pbuf_ok b" and get: "pbuf_get pks b b'"
  have "pbuf_ok b' \<and> pks @ pbuf_items b' = pbuf_items b \<and> (2 :: nat) ^ pb_log2 b' = 2 ^ pb_log2 b"
    using get buf_read_ok [OF ok] ok unfolding pbuf_get_def by (auto split: list.splits)
  then show "pbuf_ok b'" "pks @ pbuf_items b' = pbuf_items b" "(2 :: nat) ^ pb_log2 b' = 2 ^ pb_log2 b" by simp_all
qed

section \<open>Frames\<close>

lemma st_port_simps [simp]:
  "port_heap (st_port a p s) = (port_heap s)(a := p)" "buf_heap (st_port a p s) = buf_heap s"
  "write_port_list (st_port a p s) = write_port_list s" "current_thread (st_port a p s) = current_thread s"
  "wait_queues (st_port a p s) = wait_queues s" "threads (st_port a p s) = threads s"
  by (simp_all add: st_port_def)

lemma st_buf_simps [simp]:
  "buf_heap (st_buf b v s) = (buf_heap s)(b := v)" "port_heap (st_buf b v s) = port_heap s"
  "write_port_list (st_buf b v s) = write_port_list s" "current_thread (st_buf b v s) = current_thread s"
  "wait_queues (st_buf b v s) = wait_queues s" "threads (st_buf b v s) = threads s"
  by (simp_all add: st_buf_def)

lemma kinv_ports [simp]: "kinv L C (st_port a p s) = kinv L C s" "kinv L C (st_buf b v s) = kinv L C s"
  by (rule kinv_cong; simp add: st_port_def st_buf_def)+

lemma ld_cong:
  "port_heap s' a = port_heap s a \<Longrightarrow> ld_wport a s' = ld_wport a s"
  "port_heap s' a = port_heap s a \<Longrightarrow> ld_rport a s' = ld_rport a s"
  "port_heap s' a = port_heap s a \<Longrightarrow> ld_group a s' = ld_group a s"
  by (simp_all add: ld_wport_def ld_rport_def ld_group_def)

lemma ports_more:
  assumes "kernel.more s' = kernel.more (s :: 'x ports_scheme)"
  shows "port_heap s' = port_heap s" "buf_heap s' = buf_heap s" "write_port_list s' = write_port_list s"
  using assms by (cases s; cases s'; simp)+

text \<open>Waking a reader touches no port; it succeeds in a consistent kernel.\<close>

lemma wake_one_ports:
  assumes "sched_inv s" and "current_thread s c \<noteq> None" and "wq_magic (wait_queues s (WQ a)) = WAIT_QUEUE_MAGIC"
  shows "\<exists>n s'. wait_queue_wake_one (WQ a) False NO_ERROR c s = Some (n, s') \<and> sched_inv s' \<and> current_thread s' c \<noteq> None
    \<and> kernel.more s' = kernel.more s \<and> (\<forall>w. wq_magic (wait_queues s' w) = wq_magic (wait_queues s w))"
proof -
  obtain ct where ct: "current_thread s c = Some ct" using assms(2) by blast
  show ?thesis
  proof (cases "wq_list (wait_queues s (WQ a))")
    case Nil
    then show ?thesis using wait_queue_wake_one_ok [OF assms(1) ct assms(3), of False NO_ERROR] assms(1,2) by auto
  next
    case (Cons t ts)
    then obtain s' where s': "wait_queue_wake_one (WQ a) False NO_ERROR c s = Some (1, s')" "sched_inv s'"
        "shuffled c (wq_take (WQ a) t NO_ERROR s) s'"
      using wait_queue_wake_one_ok [OF assms(1) ct assms(3), of False NO_ERROR] by auto
    then show ?thesis using ct by (intro exI [of _ 1] exI [of _ s']) (auto simp: shuffled_def)
  qed
qed

section \<open>What a write does\<close>

text \<open>The read port \<open>rp\<close> with its buffer at \<open>ba\<close>.\<close>

definition reader_ok :: "nat \<Rightarrow> nat \<Rightarrow> 'x ports_scheme \<Rightarrow> bool" where
  "reader_ok rp ba s \<longleftrightarrow> (\<exists>r b. ld_rport rp s = Some r \<and> rp_buf r = Some ba \<and> buf_heap s ba = Some b \<and> pbuf_ok b
     \<and> wq_magic (wait_queues s (WQ rp)) = WAIT_QUEUE_MAGIC
     \<and> (\<forall>pg. rp_gport r = Some pg \<longrightarrow> ld_group pg s \<noteq> None \<and> wq_magic (wait_queues s (WQ pg)) = WAIT_QUEUE_MAGIC))"

text \<open>All of the packets or none.\<close>

definition delivered :: "port_packet list \<Rightarrow> port_buf option \<Rightarrow> port_buf option \<Rightarrow> bool" where
  "delivered pks v v' \<longleftrightarrow> (\<exists>b b'. v = Some b \<and> v' = Some b' \<and>
     (if unat (pb_avail b) < length pks then b' = b else pbuf_ok b' \<and> pbuf_items b' = pbuf_items b @ pks))"

definition full_for :: "port_packet list \<Rightarrow> nat \<Rightarrow> 'x ports_scheme \<Rightarrow> bool" where
  "full_for pks ba s \<longleftrightarrow> (\<exists>b. buf_heap s ba = Some b \<and> unat (pb_avail b) < length pks)"

lemma reader_ok_cong:
  assumes "reader_ok rp ba s" and "port_heap s' = port_heap s" and "buf_heap s' ba = buf_heap s ba"
    and "\<forall>w. wq_magic (wait_queues s' w) = wq_magic (wait_queues s w)"
  shows "reader_ok rp ba s'"
  using assms unfolding reader_ok_def by (metis ld_cong(2,3))

lemma wake_reader:
  assumes "sched_inv s" and "current_thread s c \<noteq> None" and "wq_magic (wait_queues s (WQ rp)) = WAIT_QUEUE_MAGIC"
    and "\<And>pg. grp = Some pg \<Longrightarrow> ld_group pg s \<noteq> None \<and> wq_magic (wait_queues s (WQ pg)) = WAIT_QUEUE_MAGIC"
  shows "\<exists>n s1 k s2. (case grp of None \<Rightarrow> Some (0, s)
             | Some pg \<Rightarrow> do { _ \<leftarrow> ld_group pg s; wait_queue_wake_one (WQ pg) False NO_ERROR c s }) = Some (n, s1)
    \<and> (if n = 0 then wait_queue_wake_one (WQ rp) False NO_ERROR c s1 else Some (n, s1)) = Some (k, s2)
    \<and> sched_inv s2 \<and> current_thread s2 c \<noteq> None \<and> kernel.more s2 = kernel.more s
    \<and> (\<forall>w. wq_magic (wait_queues s2 w) = wq_magic (wait_queues s w))"
proof -
  obtain n s1 where 1: "(case grp of None \<Rightarrow> Some (0, s)
             | Some pg \<Rightarrow> do { _ \<leftarrow> ld_group pg s; wait_queue_wake_one (WQ pg) False NO_ERROR c s }) = Some (n, s1)"
      "sched_inv s1" "current_thread s1 c \<noteq> None" "kernel.more s1 = kernel.more s"
      "\<forall>w. wq_magic (wait_queues s1 w) = wq_magic (wait_queues s w)"
  proof (cases grp)
    case None
    then show thesis using that [of 0 s] assms(1,2) by simp
  next
    case (Some pg)
    then obtain g where "ld_group pg s = Some g" "wq_magic (wait_queues s (WQ pg)) = WAIT_QUEUE_MAGIC"
      using assms(4) by blast
    then show thesis using that wake_one_ports [OF assms(1,2), of pg] Some by auto
  qed
  show ?thesis
  proof (cases "n = 0")
    case True
    have "wq_magic (wait_queues s1 (WQ rp)) = WAIT_QUEUE_MAGIC" using 1(5) assms(3) by simp
    from wake_one_ports [OF 1(2,3) this]
    obtain k s2 where "wait_queue_wake_one (WQ rp) False NO_ERROR c s1 = Some (k, s2)" "sched_inv s2" "current_thread s2 c \<noteq> None"
        "kernel.more s2 = kernel.more s1" "\<forall>w. wq_magic (wait_queues s2 w) = wq_magic (wait_queues s1 w)" by blast
    then show ?thesis using 1 True by (intro exI [of _ n] exI [of _ s1] exI [of _ k] exI [of _ s2]) simp
  next
    case False
    then show ?thesis using 1 by (intro exI [of _ n] exI [of _ s1] exI [of _ n] exI [of _ s1]) simp
  qed
qed

lemma port_write_loop_ok:
  assumes "sched_inv s" and "current_thread s c \<noteq> None" and "distinct (map snd ps)"
    and "\<forall>(rp, ba) \<in> set ps. reader_ok rp ba s"
  shows "\<exists>n s'. port_write_loop pks (map fst ps) status aw c s =
      Some (if \<exists>ba \<in> snd ` set ps. full_for pks ba s then ERR_PARTIAL_WRITE else status, n, s')
    \<and> sched_inv s' \<and> current_thread s' c \<noteq> None \<and> port_heap s' = port_heap s
    \<and> (\<forall>ba \<in> snd ` set ps. delivered pks (buf_heap s ba) (buf_heap s' ba))
    \<and> (\<forall>ba. ba \<notin> snd ` set ps \<longrightarrow> buf_heap s' ba = buf_heap s ba)"
  using assms
proof (induction ps arbitrary: s status aw)
  case Nil
  then show ?case by simp
next
  case (Cons p ps)
  obtain rp ba where p: "p = (rp, ba)" by (cases p)
  have ok: "reader_ok rp ba s" "ba \<notin> snd ` set ps" "distinct (map snd ps)" "\<forall>(rp, ba) \<in> set ps. reader_ok rp ba s"
    using Cons.prems(3,4) unfolding p by auto
  then obtain r b where r: "ld_rport rp s = Some r" "rp_buf r = Some ba" "buf_heap s ba = Some b" "pbuf_ok b"
      "wq_magic (wait_queues s (WQ rp)) = WAIT_QUEUE_MAGIC"
      "\<And>pg. rp_gport r = Some pg \<Longrightarrow> ld_group pg s \<noteq> None \<and> wq_magic (wait_queues s (WQ pg)) = WAIT_QUEUE_MAGIC"
    unfolding reader_ok_def by blast
  show ?case
  proof (cases "unat (pb_avail b) < length pks")
    case True
    then have w: "buf_write pks b = Some (ERR_NOT_ENOUGH_BUFFER, b)" using buf_write_ok [OF r(4), of pks] by simp
    obtain n s' where ih: "port_write_loop pks (map fst ps) ERR_PARTIAL_WRITE aw c s = Some (ERR_PARTIAL_WRITE, n, s')"
        "sched_inv s'" "current_thread s' c \<noteq> None" "port_heap s' = port_heap s"
        "\<forall>ba \<in> snd ` set ps. delivered pks (buf_heap s ba) (buf_heap s' ba)"
        "\<forall>ba. ba \<notin> snd ` set ps \<longrightarrow> buf_heap s' ba = buf_heap s ba"
      using Cons.IH [OF Cons.prems(1,2) ok(3,4), of ERR_PARTIAL_WRITE aw] by auto
    have "full_for pks ba s" using True r(3) by (simp add: full_for_def)
    moreover have "delivered pks (buf_heap s ba) (buf_heap s' ba)" using True r(3) ih(6) ok(2) by (simp add: delivered_def)
    ultimately show ?thesis using ih r w unfolding p by (intro exI [of _ n] exI [of _ s']) simp
  next
    case False
    then obtain b' where w: "buf_write pks b = Some (NO_ERROR, b')" "pbuf_ok b'" "pbuf_items b' = pbuf_items b @ pks"
      using buf_write_ok [OF r(4), of pks] by auto
    let ?s = "st_buf ba (Some b') s"
    have g: "\<And>pg. rp_gport r = Some pg \<Longrightarrow> ld_group pg ?s \<noteq> None \<and> wq_magic (wait_queues ?s (WQ pg)) = WAIT_QUEUE_MAGIC"
      using r(6) ld_cong(3) [of ?s _ s] by simp
    have pre: "sched_inv ?s" "current_thread ?s c \<noteq> None" "wq_magic (wait_queues ?s (WQ rp)) = WAIT_QUEUE_MAGIC"
      using Cons.prems(1,2) r(5) by simp_all
    obtain n1 s1 k s2 where wk: "(case rp_gport r of None \<Rightarrow> Some (0, ?s)
             | Some pg \<Rightarrow> do { _ \<leftarrow> ld_group pg ?s; wait_queue_wake_one (WQ pg) False NO_ERROR c ?s }) = Some (n1, s1)"
        "(if n1 = 0 then wait_queue_wake_one (WQ rp) False NO_ERROR c s1 else Some (n1, s1)) = Some (k, s2)"
        "sched_inv s2" "current_thread s2 c \<noteq> None" "kernel.more s2 = kernel.more ?s"
        "\<forall>w. wq_magic (wait_queues s2 w) = wq_magic (wait_queues ?s w)"
      using wake_reader [OF pre g] by blast
    note h = ports_more [OF wk(5)]
    have "\<forall>(rp, ba) \<in> set ps. reader_ok rp ba s2"
      using ok(2,4) h wk(6) by (auto intro!: reader_ok_cong [of _ _ s s2] image_eqI)
    from Cons.IH [OF wk(3,4) ok(3) this, of status "aw + k"]
    obtain n s' where ih: "port_write_loop pks (map fst ps) status (aw + k) c s2 =
          Some (if \<exists>ba \<in> snd ` set ps. full_for pks ba s2 then ERR_PARTIAL_WRITE else status, n, s')"
        "sched_inv s'" "current_thread s' c \<noteq> None" "port_heap s' = port_heap s2"
        "\<forall>ba \<in> snd ` set ps. delivered pks (buf_heap s2 ba) (buf_heap s' ba)"
        "\<forall>ba. ba \<notin> snd ` set ps \<longrightarrow> buf_heap s' ba = buf_heap s2 ba" by blast
    have same: "buf_heap s2 x = buf_heap s x" if "x \<noteq> ba" for x using h(2) that by simp
    have "full_for pks x s2 \<longleftrightarrow> full_for pks x s" if "x \<in> snd ` set ps" for x
      using same [of x] that ok(2) unfolding full_for_def by fastforce
    moreover have "\<not> full_for pks ba s" using False r(3) by (simp add: full_for_def)
    ultimately have "(\<exists>x \<in> snd ` set ps. full_for pks x s2) \<longleftrightarrow> (\<exists>x \<in> snd ` set (p # ps). full_for pks x s)"
      unfolding p by simp
    moreover have "port_write_loop pks (map fst (p # ps)) status aw c s = port_write_loop pks (map fst ps) status (aw + k) c s2"
      using r(1-3) w(1) wk(1,2) unfolding p by simp
    moreover have "delivered pks (buf_heap s x) (buf_heap s' x)" if "x \<in> snd ` set (p # ps)" for x
    proof (cases "x = ba")
      case True
      then show ?thesis using ih(6) ok(2) h(2) w(2,3) r(3) False by (simp add: delivered_def)
    next
      case False
      then show ?thesis using ih(5) that same unfolding p by auto
    qed
    moreover have "buf_heap s' x = buf_heap s x" if "x \<notin> snd ` set (p # ps)" for x
      using ih(6) same that unfolding p by auto
    ultimately show ?thesis using ih(1-4) h(1) by (intro exI [of _ n] exI [of _ s']) simp
  qed
qed

lemma find_port_cong:
  assumes "port_heap s' = port_heap s"
  shows "find_port name xs s' = find_port name xs s"
proof (induction xs)
  case (Cons a xs)
  have "ld_wport a s' = ld_wport a s" using assms by (intro ld_cong) simp
  then show ?case using Cons by (cases "ld_wport a s") simp_all
qed simp

lemma find_port_append:
  assumes "find_port name xs s = Some None" and "\<forall>a \<in> set xs. port_heap s' a = port_heap s a"
    and "ld_wport wp s' = Some w" and "wp_name w = name"
  shows "find_port name (xs @ [wp]) s' = Some (Some wp)"
  using assms
proof (induction xs)
  case (Cons a xs)
  have "ld_wport a s' = ld_wport a s" using Cons.prems(2) by (intro ld_cong) simp
  then show ?case using Cons by (auto split: Option.bind_splits if_splits)
qed simp

lemma make_buf_ok:
  "pbuf_ok (make_buf big junk)" "pbuf_items (make_buf big junk) = []"
  "pb_avail (make_buf big junk) = (if big then PORT_BUFF_SIZE_BIG else PORT_BUFF_SIZE)"
proof -
  have "log2_uint 64 = 6" "log2_uint 8 = 3" using log2_uint_power [of 6] log2_uint_power [of 3] by simp_all
  then show "pbuf_ok (make_buf big junk)" "pbuf_items (make_buf big junk) = []"
    "pb_avail (make_buf big junk) = (if big then PORT_BUFF_SIZE_BIG else PORT_BUFF_SIZE)"
    by (simp_all add: make_buf_def pbuf_ok_def pbuf_items_def pbuf_prefix_def Let_def)
qed

lemma port_create_ok:
  fixes s :: "'a ports_scheme" and mode :: u32 and b wp :: nat
  assumes "length name < PORT_NAME_LEN" and "find_port name (write_port_list s) s = Some None"
  defines "w \<equiv> \<lparr>wp_magic = WRITEPORT_MAGIC_W, wp_node = True, wp_buf = Some b, wp_rp_list = [], wp_mode = mode, wp_name = name\<rparr>"
  shows "\<exists>s'. port_create (Some wp) (Some b) junk (Some name) mode True s = Some (NO_ERROR, Some wp, s')
    \<and> port_heap s' = (port_heap s)(wp := Some (WPort w))
    \<and> buf_heap s' = (buf_heap s)(b := Some (make_buf (mode AND PORT_MODE_BIG_BUFFER \<noteq> 0) junk))
    \<and> write_port_list s' = write_port_list s @ [wp] \<and> current_thread s' = current_thread s \<and> wait_queues s' = wait_queues s
    \<and> (kinv L C s' \<longleftrightarrow> kinv L C s)"
proof -
  have k: "kinv L C (t\<lparr>write_port_list := l\<rparr>) = kinv L C t" for t :: "'a ports_scheme" and l by (rule kinv_cong) simp_all
  show ?thesis using assms(1,2) by (simp add: port_create_def w_def Let_def k)
qed

text \<open>The first reader takes over the buffer of the write port, with what is in it.\<close>

lemma port_open_first:
  fixes ctx :: nat
  assumes "find_port name (write_port_list s) s = Some (Some wp)" and "ld_wport wp s = Some w" and "wp_buf w = Some b" and "wp \<noteq> rp"
    and "sched_inv s" and "wq_list (wait_queues s (WQ rp)) = []"
  defines "r \<equiv> \<lparr>rp_magic = READPORT_MAGIC, rp_w_node = Some wp, rp_g_node = None, rp_buf = Some b, rp_ctx = ctx,
                rp_wport = Some wp, rp_gport = None\<rparr>"
  shows "\<exists>s'. port_open (Some rp) (Some b2) junk (Some name) ctx True s = Some (NO_ERROR, Some rp, s')
    \<and> port_heap s' = (port_heap s)(wp := Some (WPort (w\<lparr>wp_rp_list := wp_rp_list w @ [rp], wp_buf := None\<rparr>)), rp := Some (RPort r))
    \<and> buf_heap s' = buf_heap s \<and> current_thread s' = current_thread s \<and> sched_inv s'
    \<and> wq_magic (wait_queues s' (WQ rp)) = WAIT_QUEUE_MAGIC \<and> wq_list (wait_queues s' (WQ rp)) = []"
proof -
  let ?s = "upd_wq (WQ rp) (\<lambda>_. WAIT_QUEUE_INITIAL_VALUE) s"
  have more: "kernel.more ?s = kernel.more s" by simp
  note h = ports_more [OF more]
  have "sched_inv ?s" by (rule kinv_upd_wq_empty) (use assms(5,6) in \<open>simp_all add: WAIT_QUEUE_INITIAL_VALUE_def\<close>)
  moreover have "find_port name (write_port_list ?s) ?s = Some (Some wp)" using assms(1) find_port_cong [OF h(1)] h(3) by simp
  moreover have "ld_wport wp ?s = Some w" using assms(2) h(1) by (simp add: ld_wport_def)
  ultimately show ?thesis
    using assms(3,4) unfolding port_open_def wait_queue_init_def
    by (simp add: Let_def r_def h) (simp add: WAIT_QUEUE_INITIAL_VALUE_def)
qed

lemma buf_heap_write:
  assumes "ld_wport wp s = Some w" and "wp_magic w = WRITEPORT_MAGIC_W" and "wp_buf w = Some ba" and "buf_heap s ba = Some b" and "pbuf_ok b"
    and "length pks \<le> unat (pb_avail b)"
  shows "\<exists>b'. port_write (Some wp) (Some pks) c s = Some (NO_ERROR, st_buf ba (Some b') s) \<and> pbuf_ok b'
    \<and> pbuf_items b' = pbuf_items b @ pks \<and> pb_log2 b' = pb_log2 b"
proof -
  obtain b' where "buf_write pks b = Some (NO_ERROR, b')" "pbuf_ok b'" "pbuf_items b' = pbuf_items b @ pks" "pb_log2 b' = pb_log2 b"
    using buf_write_ok [OF assms(5), of pks] assms(6) by auto
  moreover have "port_heap s wp = Some (WPort w)" using assms(1) by (auto simp: ld_wport_def split: option.splits port_obj.splits)
  ultimately show ?thesis using assms(1-4) by (intro exI [of _ b']) (simp add: port_write_def obj_magic_def)
qed

lemma port_write_readers:
  assumes "sched_inv s" and "current_thread s c \<noteq> None" and "ld_wport wp s = Some w" and "wp_magic w = WRITEPORT_MAGIC_W"
    and "wp_buf w = None" and "wp_rp_list w = map fst ps" and "distinct (map snd ps)" and "\<forall>(rp, ba) \<in> set ps. reader_ok rp ba s"
  shows "\<exists>s'. port_write (Some wp) (Some pks) c s =
      Some (if \<exists>ba \<in> snd ` set ps. full_for pks ba s then ERR_PARTIAL_WRITE else NO_ERROR, s')
    \<and> sched_inv s' \<and> current_thread s' c \<noteq> None \<and> port_heap s' = port_heap s
    \<and> (\<forall>ba \<in> snd ` set ps. delivered pks (buf_heap s ba) (buf_heap s' ba))
    \<and> (\<forall>ba. ba \<notin> snd ` set ps \<longrightarrow> buf_heap s' ba = buf_heap s ba)"
proof -
  obtain n s1 where L: "port_write_loop pks (map fst ps) NO_ERROR 0 c s =
        Some (if \<exists>ba \<in> snd ` set ps. full_for pks ba s then ERR_PARTIAL_WRITE else NO_ERROR, n, s1)"
      "sched_inv s1" "current_thread s1 c \<noteq> None" "port_heap s1 = port_heap s"
      "\<forall>ba \<in> snd ` set ps. delivered pks (buf_heap s ba) (buf_heap s1 ba)"
      "\<forall>ba. ba \<notin> snd ` set ps \<longrightarrow> buf_heap s1 ba = buf_heap s ba"
    using port_write_loop_ok [OF assms(1,2,7,8), of pks NO_ERROR 0] by blast
  obtain ct where ct: "current_thread s1 c = Some ct" using L(3) by blast
  obtain s2 where s2: "(if n \<noteq> 0 then thread_yield c s1 else Some s1) = Some s2" "sched_inv s2" "current_thread s2 c \<noteq> None"
      "kernel.more s2 = kernel.more s1"
  proof (cases "n = 0")
    case True
    then show thesis using that [of s1] L(2,3) by simp
  next
    case False
    obtain s2 where "thread_yield c s1 = Some s2" "sched_inv s2" "shuffled c s1 s2"
      using thread_yield_ok [OF L(2) ct] by blast
    then show thesis using that [of s2] False ct by (simp add: shuffled_def)
  qed
  have "port_heap s wp = Some (WPort w)" using assms(3) by (auto simp: ld_wport_def split: option.splits port_obj.splits)
  then have "port_write (Some wp) (Some pks) c s =
      Some (if \<exists>ba \<in> snd ` set ps. full_for pks ba s then ERR_PARTIAL_WRITE else NO_ERROR, s2)"
    unfolding port_write_def using assms(3-6) L(1) s2(1) by (simp add: obj_magic_def)
  then show ?thesis using L(4-6) s2(2,3) ports_more [OF s2(4)] by (intro exI [of _ s2]) simp
qed

lemma port_read_packet:
  assumes "port_heap s rp = Some (RPort r)" and "rp_magic r = READPORT_MAGIC" and "rp_buf r = Some ba" and "buf_heap s ba = Some b"
    and "pbuf_ok b" and "pbuf_items b = pk # pks"
  shows "\<exists>b'. port_read (Some rp) timeout (Some res) c s =
      Some (Returns NO_ERROR, Some \<lparr>pr_ctx = rp_ctx r, pr_packet = pk\<rparr>, st_buf ba (Some b') s) \<and> pbuf_ok b' \<and> pbuf_items b' = pks"
proof -
  obtain b' where "buf_read b = Some (NO_ERROR, Some pk, b')" "pbuf_ok b'" "pbuf_items b' = pks"
    using buf_read_ok [OF assms(5)] assms(6) by auto
  moreover have "res\<lparr>pr_packet := pk, pr_ctx := rp_ctx r\<rparr> = \<lparr>pr_ctx = rp_ctx r, pr_packet = pk\<rparr>" by (cases res) simp
  ultimately show ?thesis using assms(1-4)
    by (intro exI [of _ b']) (simp add: port_read_def obj_magic_def ld_rport_def read_no_lock.simps [of rp] Let_def)
qed

section \<open>Properties\<close>

text \<open>
  C38. The packet buffer between ports is a bounded queue: over any sequence of writes and reads, the packets read
  are the packets accepted, in order, and a write is all or nothing.
\<close>

theorem port_buf_in_order:
  assumes "transfers pbuf_put pbuf_get b es b'" and "pbuf_ok b"
  shows "pbuf_ok b' \<and> pbuf_items b @ put_in es = got_out es @ pbuf_items b' \<and> length (pbuf_items b') \<le> 2 ^ pb_log2 b"
  by (rule pbuf.in_order [OF assms])

theorem port_buf_in_order_witness:
  "\<exists>b'. transfers pbuf_put pbuf_get (make_buf False (\<lambda>_. [])) [Put [[1], [2]], Got [[1]]] b' \<and> pbuf_items b' = [[2]]"
proof -
  note mk = make_buf_ok [of False "\<lambda>_. []"]
  obtain b1 where b1: "buf_write [[1], [2]] (make_buf False (\<lambda>_. [])) = Some (NO_ERROR, b1)" "pbuf_ok b1" "pbuf_items b1 = [[1], [2]]"
    using buf_write_ok [OF mk(1), of "[[1], [2]]"] mk(2,3) by auto
  obtain b2 where b2: "buf_read b1 = Some (NO_ERROR, Some [1], b2)" using buf_read_ok [OF b1(2)] b1(3) by auto
  have "transfers pbuf_put pbuf_get (make_buf False (\<lambda>_. [])) [Put [[1], [2]], Got [[1]]] b2"
    using b1(1) b2 by (intro transfers.intros(2) [of _ _ _ b1] transfers.intros(3) [of _ _ _ b2] transfers.idle)
      (simp_all add: pbuf_put_def pbuf_get_def)
  then show ?thesis using port_buf_in_order [OF _ mk(1)] mk(2) by fastforce
qed

text \<open>
  C37. A write to a port with readers is all or nothing for each of them: every reader with room gets all of the
  packets, in order, behind what it had, a reader without room gets none and keeps what it had, and the status tells
  whether there was one. The write wakes readers on the way and never fails an assertion.
\<close>

theorem port_write_all_or_none:
  assumes "sched_inv s" and "current_thread s c \<noteq> None" and "ld_wport wp s = Some w" and "wp_magic w = WRITEPORT_MAGIC_W"
    and "wp_buf w = None" and "wp_rp_list w = map fst ps" and "distinct (map snd ps)" and "\<forall>(rp, ba) \<in> set ps. reader_ok rp ba s"
  shows "\<exists>s'. port_write (Some wp) (Some pks) c s =
      Some (if \<exists>ba \<in> snd ` set ps. full_for pks ba s then ERR_PARTIAL_WRITE else NO_ERROR, s')
    \<and> sched_inv s' \<and> port_heap s' = port_heap s
    \<and> (\<forall>ba \<in> snd ` set ps. delivered pks (buf_heap s ba) (buf_heap s' ba))"
  using port_write_readers [OF assms, of pks] by blast

text \<open>A kernel without ports.\<close>

definition no_ports :: ports where
  "no_ports = sync.extend race_state (ports.fields [] (\<lambda>_. None) (\<lambda>_. None))"

lemma no_ports_ok:
  "sched_inv no_ports" "current_thread no_ports 0 \<noteq> None" "wait_queues no_ports (WQ a) = zero_wait_queue"
  "write_port_list no_ports = []" "port_heap no_ports = (\<lambda>_. None)" "buf_heap no_ports = (\<lambda>_. None)"
proof -
  have "kinv {} {} no_ports = kinv {} {} race_state"
    by (rule kinv_cong) (simp_all add: no_ports_def sync.extend_def race_state_def)
  then show "sched_inv no_ports" using race_state_inv by simp
qed (simp_all add: no_ports_def sync.extend_def ports.fields_def race_state_def)

theorem port_write_all_or_none_witness:
  "\<exists>(s :: ports) s'. port_write (Some 1) (Some [[7]]) 0 s = Some (NO_ERROR, s') \<and> sched_inv s'
    \<and> delivered [[7]] (buf_heap s 3) (buf_heap s' 3) \<and> \<not> full_for [[7]] 3 s"
proof -
  let ?w = "\<lparr>wp_magic = WRITEPORT_MAGIC_W, wp_node = True, wp_buf = None, wp_rp_list = [2], wp_mode = 0, wp_name = ''x''\<rparr>"
  let ?r = "\<lparr>rp_magic = READPORT_MAGIC, rp_w_node = Some 1, rp_g_node = None, rp_buf = Some 3, rp_ctx = 0, rp_wport = Some 1, rp_gport = None\<rparr>"
  define s where "s = st_port 1 (Some (WPort ?w)) (st_port 2 (Some (RPort ?r)) (st_buf 3 (Some (make_buf False (\<lambda>_. [])))
      (upd_wq (WQ 2) (\<lambda>_. WAIT_QUEUE_INITIAL_VALUE) no_ports)))"
  have "sched_inv (upd_wq (WQ 2) (\<lambda>_. WAIT_QUEUE_INITIAL_VALUE) no_ports)"
    by (rule kinv_upd_wq_empty) (simp_all add: no_ports_ok WAIT_QUEUE_INITIAL_VALUE_def zero_wait_queue_def)
  then have 1: "sched_inv s" by (simp add: s_def)
  have 2: "current_thread s 0 \<noteq> None" using no_ports_ok(2) by (simp add: s_def)
  have 3: "ld_wport 1 s = Some ?w" by (simp add: ld_wport_def s_def)
  have 4: "reader_ok 2 3 s"
    by (simp add: reader_ok_def ld_rport_def make_buf_ok WAIT_QUEUE_INITIAL_VALUE_def s_def)
  have 5: "\<not> full_for [[7]] 3 s" by (simp add: full_for_def make_buf_ok s_def)
  obtain s' where "port_write (Some 1) (Some [[7]]) 0 s = Some (NO_ERROR, s')" "sched_inv s'"
      "delivered [[7]] (buf_heap s 3) (buf_heap s' 3)"
    using port_write_all_or_none [OF 1 2 3, of "[(2, 3)]" "[[7]]"] 4 5 by auto
  then show ?thesis using 5 by blast
qed

text \<open>
  C36. What is written to a port comes out at its reader. A port is created, written to before anyone has opened it,
  opened, and written to again; as long as the small buffer holds it all, the first read returns the first packet
  with the context of the reader, and the rest stays behind it in order.
\<close>

theorem port_delivers:
  assumes "sched_inv s" and "current_thread s c \<noteq> None" and "length name < PORT_NAME_LEN"
    and "find_port name (write_port_list s) s = Some None" and "wp \<notin> set (write_port_list s)" and "wp \<noteq> rp"
    and "wq_list (wait_queues s (WQ rp)) = []" and "pks1 @ pks2 = pk # pks" and "length (pks1 @ pks2) \<le> 8"
  shows "\<exists>s1 s2 s3 s4 s5 b'.
      port_create (Some wp) (Some b) junk (Some name) mode True s = Some (NO_ERROR, Some wp, s1)
    \<and> port_write (Some wp) (Some pks1) c s1 = Some (NO_ERROR, s2)
    \<and> port_open (Some rp) (Some b2) junk (Some name) ctx True s2 = Some (NO_ERROR, Some rp, s3)
    \<and> port_write (Some wp) (Some pks2) c s3 = Some (NO_ERROR, s4)
    \<and> port_read (Some rp) timeout (Some res) c s4 = Some (Returns NO_ERROR, Some \<lparr>pr_ctx = ctx, pr_packet = pk\<rparr>, s5)
    \<and> buf_heap s5 b = Some b' \<and> pbuf_items b' = pks"
proof -
  let ?big = "mode AND PORT_MODE_BIG_BUFFER \<noteq> 0"
  let ?w = "\<lparr>wp_magic = WRITEPORT_MAGIC_W, wp_node = True, wp_buf = Some b, wp_rp_list = [], wp_mode = mode, wp_name = name\<rparr>"
  let ?w' = "?w\<lparr>wp_rp_list := [rp], wp_buf := None\<rparr>"
  let ?r = "\<lparr>rp_magic = READPORT_MAGIC, rp_w_node = Some wp, rp_g_node = None, rp_buf = Some b, rp_ctx = ctx,
             rp_wport = Some wp, rp_gport = None\<rparr>"
  obtain s1 where s1: "port_create (Some wp) (Some b) junk (Some name) mode True s = Some (NO_ERROR, Some wp, s1)"
      "port_heap s1 = (port_heap s)(wp := Some (WPort ?w))" "buf_heap s1 = (buf_heap s)(b := Some (make_buf ?big junk))"
      "write_port_list s1 = write_port_list s @ [wp]" "current_thread s1 = current_thread s" "wait_queues s1 = wait_queues s" "sched_inv s1"
    using port_create_ok [OF assms(3,4), of wp b junk mode "{}" "{}"] assms(1) by blast
  have w1: "ld_wport wp s1 = Some ?w" by (simp add: ld_wport_def s1(2))
  have av: "length (pks1 @ pks2) \<le> unat (pb_avail (make_buf ?big junk))" using assms(9) by (simp add: make_buf_ok)
  obtain b1 where b1: "port_write (Some wp) (Some pks1) c s1 = Some (NO_ERROR, st_buf b (Some b1) s1)" "pbuf_ok b1" "pbuf_items b1 = pks1"
      "pb_log2 b1 = pb_log2 (make_buf ?big junk)"
    using buf_heap_write [OF w1, of b "make_buf ?big junk" pks1 c] av s1(3) by (auto simp: make_buf_ok)
  let ?s2 = "st_buf b (Some b1) s1"
  have "find_port name (write_port_list s @ [wp]) ?s2 = Some (Some wp)"
    by (rule find_port_append [OF assms(4)]) (use assms(5) s1(2) in \<open>auto simp: ld_wport_def\<close>)
  then have f: "find_port name (write_port_list ?s2) ?s2 = Some (Some wp)" using s1(4) by simp
  have w2: "ld_wport wp ?s2 = Some ?w" by (simp add: ld_wport_def s1(2))
  obtain s3 where s3: "port_open (Some rp) (Some b2) junk (Some name) ctx True ?s2 = Some (NO_ERROR, Some rp, s3)"
      "port_heap s3 = (port_heap ?s2)(wp := Some (WPort ?w'), rp := Some (RPort ?r))"
      "buf_heap s3 = buf_heap ?s2" "current_thread s3 = current_thread ?s2" "sched_inv s3"
      "wq_magic (wait_queues s3 (WQ rp)) = WAIT_QUEUE_MAGIC"
    using port_open_first [OF f w2 _ assms(6), of b b2 junk ctx] s1(6,7) assms(7) by auto
  have w3: "ld_wport wp s3 = Some ?w'" using assms(6) by (simp add: ld_wport_def s3(2))
  have r3: "reader_ok rp b s3" using b1(2) s3(6) by (simp add: reader_ok_def ld_rport_def s3(2,3))
  have fits: "\<not> full_for pks2 b s3"
  proof -
    have "length (pbuf_items b1) = 2 ^ pb_log2 b1 - unat (pb_avail b1)" by (simp add: pbuf_items_def pbuf_prefix_def)
    moreover have "8 \<le> (2 :: nat) ^ pb_log2 b1"
    proof -
      have "pb_log2 (make_buf ?big junk) = (if ?big then 6 else 3)"
        using log2_uint_power [of 6] log2_uint_power [of 3] by (simp add: make_buf_def)
      then show ?thesis using b1(4) by simp
    qed
    ultimately show ?thesis using assms(9) b1(3) s3(3) by (auto simp: full_for_def)
  qed
  obtain s4 where s4: "port_write (Some wp) (Some pks2) c s3 = Some (NO_ERROR, s4)" "port_heap s4 = port_heap s3"
      "delivered pks2 (buf_heap s3 b) (buf_heap s4 b)"
    using port_write_readers [OF s3(5) _ w3, of c "[(rp, b)]" pks2] r3 fits assms(2) s3(4) s1(5) by auto
  then obtain b4 where b4: "buf_heap s4 b = Some b4" "pbuf_ok b4" "pbuf_items b4 = pk # pks"
    using fits b1(3) s3(3) assms(8) by (auto simp: delivered_def full_for_def)
  have "port_heap s4 rp = Some (RPort ?r)" using s4(2) s3(2) by simp
  from port_read_packet [OF this _ _ b4(1-3), of timeout res c]
  obtain b5 where "port_read (Some rp) timeout (Some res) c s4 =
      Some (Returns NO_ERROR, Some \<lparr>pr_ctx = ctx, pr_packet = pk\<rparr>, st_buf b (Some b5) s4)" "pbuf_items b5 = pks" by auto
  then show ?thesis using s1(1) b1(1) s3(1) s4(1) by fastforce
qed

theorem port_delivers_witness:
  "\<exists>s1 s2 s3 s4 s5.
      port_create (Some 1) (Some 3) (\<lambda>_. []) (Some ''log'') 0 True no_ports = Some (NO_ERROR, Some 1, s1)
    \<and> port_write (Some 1) (Some [[1], [2]]) 0 s1 = Some (NO_ERROR, s2)
    \<and> port_open (Some 2) (Some 4) (\<lambda>_. []) (Some ''log'') 42 True s2 = Some (NO_ERROR, Some 2, s3)
    \<and> port_write (Some 1) (Some [[3]]) 0 s3 = Some (NO_ERROR, s4)
    \<and> port_read (Some 2) 0 (Some \<lparr>pr_ctx = 0, pr_packet = []\<rparr>) 0 s4 = Some (Returns NO_ERROR, Some \<lparr>pr_ctx = 42, pr_packet = [1]\<rparr>, s5)"
  using port_delivers [of no_ports 0 "''log''" 1 2 "[[1], [2]]" "[[3]]" "[1]" "[[2], [3]]" 3 "\<lambda>_. []" 0 4 42 0 "\<lparr>pr_ctx = 0, pr_packet = []\<rparr>"]
    no_ports_ok by (fastforce simp: zero_wait_queue_def)

text \<open>
  C39. \<^verbatim>\<open>port_group_remove\<close> takes the port out of the list of the group but leaves the port's pointer to the group
  standing: closing the port afterwards takes its node out a second time, through the null pointers the first time
  has left there.
\<close>

theorem group_remove_then_close_faults:
  assumes "port_group_remove (Some pg) (Some rp) s = Some (NO_ERROR, s')"
  shows "port_close (Some rp) c s' = None"
proof -
  obtain r g where r: "ld_rport rp s = Some r" "rp_gport r = Some pg" "obj_magic (RPort r) = READPORT_MAGIC" "delete_g_node rp s = Some s'"
    using assms by (auto simp: port_group_remove_def ld_rport_def split: Option.bind_splits if_splits option.splits port_obj.splits)
  then have p: "port_heap s' rp = Some (RPort (r\<lparr>rp_g_node := None\<rparr>))"
    by (auto simp: delete_g_node_def split: Option.bind_splits)
  have m: "rp_magic r = READPORT_MAGIC" using r(3) by (simp add: obj_magic_def)
  have "ld_rport rp s'' = Some r' \<Longrightarrow> rp_gport r' = Some pg \<and> rp_g_node r' = None"
    if "leave_write_port rp s' = Some (buf, s'')" for buf s'' r'
    using that p r(2) by (auto simp: leave_write_port_def delete_w_node_def ld_rport_def ld_wport_def
        split: Option.bind_splits option.splits port_obj.splits if_splits)
  then show ?thesis using p m
    by (auto simp: port_close_def obj_magic_def delete_g_node_def split: Option.bind_splits option.splits if_splits)
qed

theorem group_remove_then_close_faults_witness:
  "\<exists>(s :: ports) s'. port_group_remove (Some 1) (Some 2) s = Some (NO_ERROR, s') \<and> port_close (Some 2) 0 s' = None"
proof -
  let ?r = "\<lparr>rp_magic = READPORT_MAGIC, rp_w_node = None, rp_g_node = Some 1, rp_buf = None, rp_ctx = 0, rp_wport = None, rp_gport = Some 1\<rparr>"
  define s :: ports where "s = st_port 1 (Some (PGroup \<lparr>pg_magic = PORTGROUP_MAGIC, pg_rp_list = [2]\<rparr>)) (st_port 2 (Some (RPort ?r)) no_ports)"
  have "\<exists>s'. port_group_remove (Some 1) (Some 2) s = Some (NO_ERROR, s')"
    by (simp add: s_def port_group_remove_def obj_magic_def ld_rport_def ld_group_def delete_g_node_def)
  then show ?thesis using group_remove_then_close_faults by blast
qed

text \<open>
  C40. The test that keeps the large buffer for unicast ports has no effect, because \<^verbatim>\<open>PORT_MODE_BROADCAST\<close> is 0 and
  no mode has a bit in common with it: a broadcast port is created with the large buffer.
\<close>

theorem broadcast_gets_big_buffer:
  assumes "length name < PORT_NAME_LEN" and "find_port name (write_port_list s) s = Some None"
  shows "\<exists>s'. port_create (Some wp) (Some b) junk (Some name) (PORT_MODE_BROADCAST OR PORT_MODE_BIG_BUFFER) True s =
      Some (NO_ERROR, Some wp, s') \<and> buf_heap s' b = Some (make_buf True junk)"
  using port_create_ok [OF assms, of wp b junk "PORT_MODE_BROADCAST OR PORT_MODE_BIG_BUFFER" "{}" "{}"] by auto

theorem broadcast_gets_big_buffer_witness:
  "\<exists>s'. port_create (Some 1) (Some 3) (\<lambda>_. []) (Some ''log'') (PORT_MODE_BROADCAST OR PORT_MODE_BIG_BUFFER) True no_ports =
      Some (NO_ERROR, Some 1, s') \<and> buf_heap s' 3 = Some (make_buf True (\<lambda>_. []))"
  using broadcast_gets_big_buffer [of "''log''" no_ports 1 3 "\<lambda>_. []"] no_ports_ok(4) by simp

end
