(* ===== verification/Pmm.thy ===== *)
theory Pmm
  imports Prelude
begin

text \<open>
  The physical page allocator of \<^verbatim>\<open>vm/pmm.c\<close>, with the structures of \<^verbatim>\<open>vm/include/vm/vm.h\<close>. An
  arena owns an array of page structures, one for each page frame of its address range, and a list
  of the free ones. A pointer to a page structure is the pair of the arena that owns the array
  (\<^verbatim>\<open>ar_id\<close>, the identity of the arena structure) and the index in it; a list of pages is the list
  of these pointers, and \<^verbatim>\<open>pg_node\<close> says whether the links of the page's node are set, which is
  what \<^verbatim>\<open>list_in_list\<close> tests. Addresses and sizes are 64-bit words and wrap as the code's do. Pages
  have 4096 bytes. The mutex \<^verbatim>\<open>lock\<close> is held from the first to the last access of each operation,
  so each operation is one step on the list of arenas. The name of an arena and the flags of a page,
  which the allocator does not read, are left out. \<^term>\<open>None\<close> is a failed assertion or a read outside
  the page array.

  Lemmas: what each allocation function takes from the free lists (\<open>takes\<close>), the arithmetic of
  alignment boundaries on wrapping words, what \<open>pmm_free\<close> gives back, and the invariant of any
  sequence of calls (\<open>pmm_reach\<close>).
\<close>

type_synonym paddr = "64 word"

abbreviation (input) PAGE_SIZE_SHIFT :: nat where "PAGE_SIZE_SHIFT \<equiv> 12"
abbreviation (input) PAGE_SIZE :: paddr where "PAGE_SIZE \<equiv> 4096"
abbreviation (input) PMM_ARENA_FLAG_KMAP :: u32 where "PMM_ARENA_FLAG_KMAP \<equiv> 1"
abbreviation (input) PMM_ALLOC_FLAG_KMAP :: u32 where "PMM_ALLOC_FLAG_KMAP \<equiv> 1"

unbundle bit_operations_syntax

section \<open>Structures\<close>

datatype vm_page_state = VM_PAGE_STATE_FREE | VM_PAGE_STATE_ALLOC | VM_PAGE_STATE_MMU

record vm_page =
  pg_node :: bool
  pg_state :: vm_page_state

record pmm_arena =
  ar_id :: nat
  ar_flags :: u32
  ar_priority :: u32
  ar_base :: paddr
  ar_size :: "64 word"
  ar_free_count :: "64 word"
  ar_page_array :: "vm_page list"
  ar_free_list :: "nat list"

type_synonym vm_page_ptr = "nat \<times> nat"

definition page_count :: "pmm_arena \<Rightarrow> 64 word" where
  "page_count a = ar_size a div PAGE_SIZE"

definition ROUNDUP :: "64 word \<Rightarrow> 64 word \<Rightarrow> 64 word" where
  "ROUNDUP a b = (a + (b - 1)) AND NOT (b - 1)"

definition ROUNDDOWN :: "64 word \<Rightarrow> 64 word \<Rightarrow> 64 word" where
  "ROUNDDOWN a b = a AND NOT (b - 1)"

definition IS_PAGE_ALIGNED :: "64 word \<Rightarrow> bool" where
  "IS_PAGE_ALIGNED x \<longleftrightarrow> x AND (PAGE_SIZE - 1) = 0"

definition PAGE_BELONGS_TO_ARENA :: "vm_page_ptr \<Rightarrow> pmm_arena \<Rightarrow> bool" where
  "PAGE_BELONGS_TO_ARENA p a \<longleftrightarrow> fst p = ar_id a \<and> snd p < unat (page_count a)"

definition PAGE_ADDRESS_FROM_ARENA :: "vm_page_ptr \<Rightarrow> pmm_arena \<Rightarrow> paddr" where
  "PAGE_ADDRESS_FROM_ARENA p a = of_nat (snd p) * PAGE_SIZE + ar_base a"

definition ADDRESS_IN_ARENA :: "paddr \<Rightarrow> pmm_arena \<Rightarrow> bool" where
  "ADDRESS_IN_ARENA x a \<longleftrightarrow> ar_base a \<le> x \<and> x \<le> ar_base a + ar_size a - 1"

definition page_is_free :: "vm_page \<Rightarrow> bool" where
  "page_is_free p \<longleftrightarrow> pg_state p = VM_PAGE_STATE_FREE"

text \<open>A read of \<^verbatim>\<open>page_array[i]\<close>; there is no page structure outside the array.\<close>

definition page_at :: "pmm_arena \<Rightarrow> nat \<Rightarrow> vm_page option" where
  "page_at a i = (if i < length (ar_page_array a) then Some (ar_page_array a ! i) else None)"

definition set_page :: "nat \<Rightarrow> vm_page \<Rightarrow> pmm_arena \<Rightarrow> pmm_arena" where
  "set_page i p a = a\<lparr>ar_page_array := (ar_page_array a)[i := p]\<rparr>"

section \<open>Pages and addresses\<close>

fun vm_page_to_paddr :: "vm_page_ptr \<Rightarrow> pmm_arena list \<Rightarrow> paddr" where
  "vm_page_to_paddr p [] = - 1"
| "vm_page_to_paddr p (a # as) =
    (if PAGE_BELONGS_TO_ARENA p a then PAGE_ADDRESS_FROM_ARENA p a else vm_page_to_paddr p as)"

fun paddr_to_vm_page :: "paddr \<Rightarrow> pmm_arena list \<Rightarrow> vm_page_ptr option" where
  "paddr_to_vm_page x [] = None"
| "paddr_to_vm_page x (a # as) =
    (if ar_base a \<le> x \<and> x \<le> ar_base a + ar_size a - 1
     then Some (ar_id a, unat ((x - ar_base a) div PAGE_SIZE))
     else paddr_to_vm_page x as)"

section \<open>Arenas\<close>

fun add_by_priority :: "pmm_arena \<Rightarrow> pmm_arena list \<Rightarrow> pmm_arena list" where
  "add_by_priority r [] = [r]"
| "add_by_priority r (a # as) =
    (if ar_priority a > ar_priority r then r # a # as else a # add_by_priority r as)"

text \<open>The loop of \<^verbatim>\<open>pmm_add_arena\<close> over the pages \<^verbatim>\<open>i\<close> and up, \<^verbatim>\<open>n\<close> of them.\<close>

fun add_free_pages :: "nat \<Rightarrow> nat \<Rightarrow> pmm_arena \<Rightarrow> pmm_arena" where
  "add_free_pages 0 i a = a"
| "add_free_pages (Suc n) i a =
    add_free_pages n (Suc i)
      (set_page i ((ar_page_array a ! i)\<lparr>pg_node := True\<rparr>) a
        \<lparr>ar_free_list := ar_free_list a @ [i], ar_free_count := ar_free_count a + 1\<rparr>)"

definition zero_page :: vm_page where
  "zero_page = \<lparr>pg_node = False, pg_state = VM_PAGE_STATE_FREE\<rparr>"

definition init_arena :: "pmm_arena \<Rightarrow> pmm_arena" where
  "init_arena a =
    add_free_pages (unat (page_count a)) 0
      (a\<lparr>ar_free_count := 0, ar_free_list := [], ar_page_array := replicate (unat (page_count a)) zero_page\<rparr>)"

definition pmm_add_arena :: "pmm_arena \<Rightarrow> pmm_arena list \<Rightarrow> (status_t \<times> pmm_arena list) option" where
  "pmm_add_arena r as = do {
    chk (IS_PAGE_ALIGNED (ar_base r));
    chk (IS_PAGE_ALIGNED (ar_size r));
    chk (0 < ar_size r);
    Some (NO_ERROR, add_by_priority (init_arena r) as)
  }"

section \<open>Allocation\<close>

text \<open>The test by which an arena is passed over.\<close>

definition skip_arena :: "u32 \<Rightarrow> pmm_arena \<Rightarrow> bool" where
  "skip_arena fl a \<longleftrightarrow> fl AND PMM_ALLOC_FLAG_KMAP \<noteq> 0 \<and> ar_flags a AND PMM_ARENA_FLAG_KMAP = 0"

fun pmm_alloc_page :: "u32 \<Rightarrow> pmm_arena list \<Rightarrow> ((vm_page_ptr \<times> paddr) option \<times> pmm_arena list) option" where
  "pmm_alloc_page fl [] = Some (None, [])"
| "pmm_alloc_page fl (a # as) =
    (if skip_arena fl a then do { (r, as) \<leftarrow> pmm_alloc_page fl as; Some (r, a # as) }
     else case ar_free_list a of
       [] \<Rightarrow> do { (r, as) \<leftarrow> pmm_alloc_page fl as; Some (r, a # as) }
     | i # rest \<Rightarrow> do {
         p \<leftarrow> page_at a i;
         chk (page_is_free p);
         let a = set_page i (p\<lparr>pg_node := False, pg_state := VM_PAGE_STATE_ALLOC\<rparr>) a
                   \<lparr>ar_free_list := rest, ar_free_count := ar_free_count a - 1\<rparr>;
         Some (Some ((ar_id a, i), PAGE_ADDRESS_FROM_ARENA (ar_id a, i) a), a # as)
       })"

text \<open>
  The inner loop of \<^verbatim>\<open>pmm_alloc_pages\<close> on one arena. The flag of the result is set when the loop was
  left by \<^verbatim>\<open>goto done\<close>. The counter \<^verbatim>\<open>allocated\<close> is a \<^verbatim>\<open>uint\<close>.
\<close>

function alloc_pages_from ::
  "64 word \<Rightarrow> u32 \<Rightarrow> pmm_arena \<Rightarrow> vm_page_ptr list \<Rightarrow> (bool \<times> u32 \<times> pmm_arena \<times> vm_page_ptr list) option" where
  "alloc_pages_from count allocated a l =
    (if ucast allocated < count \<and> 0 < ar_free_count a
     then case ar_free_list a of
         [] \<Rightarrow> Some (True, allocated, a, l)
       | i # rest \<Rightarrow> do {
           p \<leftarrow> page_at a i;
           chk (page_is_free p);
           alloc_pages_from count (allocated + 1)
             (set_page i (p\<lparr>pg_node := True, pg_state := VM_PAGE_STATE_ALLOC\<rparr>) a
               \<lparr>ar_free_list := rest, ar_free_count := ar_free_count a - 1\<rparr>)
             (l @ [(ar_id a, i)])
         }
     else Some (False, allocated, a, l))"
  by auto
termination
  by (relation "measure (\<lambda>(_, _, a, _). length (ar_free_list a))") auto

declare alloc_pages_from.simps [simp del]

fun alloc_pages_walk ::
  "64 word \<Rightarrow> u32 \<Rightarrow> u32 \<Rightarrow> pmm_arena list \<Rightarrow> vm_page_ptr list \<Rightarrow> (u32 \<times> pmm_arena list \<times> vm_page_ptr list) option" where
  "alloc_pages_walk count fl allocated [] l = Some (allocated, [], l)"
| "alloc_pages_walk count fl allocated (a # as) l =
    (if skip_arena fl a
     then do { (n, as, l) \<leftarrow> alloc_pages_walk count fl allocated as l; Some (n, a # as, l) }
     else do {
       (left, n, a, l) \<leftarrow> alloc_pages_from count allocated a l;
       if left then Some (n, a # as, l)
       else do { (n, as, l) \<leftarrow> alloc_pages_walk count fl n as l; Some (n, a # as, l) }
     })"

definition pmm_alloc_pages ::
  "64 word \<Rightarrow> u32 \<Rightarrow> vm_page_ptr list \<Rightarrow> pmm_arena list \<Rightarrow> (64 word \<times> pmm_arena list \<times> vm_page_ptr list) option" where
  "pmm_alloc_pages count fl l as =
    (if count = 0 then Some (0, as, l)
     else do { (n, as, l) \<leftarrow> alloc_pages_walk count fl 0 as l; Some (ucast n, as, l) })"

text \<open>
  The inner loop of \<^verbatim>\<open>pmm_alloc_range\<close> on one arena. Each turn makes a page of the array that was
  free one that is not, so the loop ends.
\<close>

lemma free_pages_decrease:
  assumes "i < length ps" "P (ps ! i)" "\<not> P q"
  shows "length (filter P (ps[i := q])) < length (filter P ps)"
proof -
  have "ps = take i ps @ ps ! i # drop (Suc i) ps"
    using assms(1) by (simp add: id_take_nth_drop)
  then have "length (filter P ps) = length (filter P (take i ps @ ps ! i # drop (Suc i) ps))"
    by simp
  then show ?thesis
    using assms by (simp add: upd_conv_take_nth_drop)
qed

function alloc_range_from ::
  "64 word \<Rightarrow> u32 \<Rightarrow> paddr \<Rightarrow> pmm_arena \<Rightarrow> vm_page_ptr list \<Rightarrow> (u32 \<times> paddr \<times> pmm_arena \<times> vm_page_ptr list) option" where
  "alloc_range_from count allocated x a l =
    (if ucast allocated < count \<and> ADDRESS_IN_ARENA x a
     then (let i = unat ((x - ar_base a) div PAGE_SIZE) in
       if \<not> i < unat (page_count a) then None
       else case page_at a i of
         None \<Rightarrow> None
       | Some p \<Rightarrow>
           if \<not> page_is_free p then Some (allocated, x, a, l)
           else if \<not> pg_node p then None
           else alloc_range_from count (allocated + 1) (x + PAGE_SIZE)
             (set_page i (p\<lparr>pg_node := True, pg_state := VM_PAGE_STATE_ALLOC\<rparr>) a
               \<lparr>ar_free_list := remove1 i (ar_free_list a), ar_free_count := ar_free_count a - 1\<rparr>)
             (l @ [(ar_id a, i)]))
     else Some (allocated, x, a, l))"
  by pat_completeness auto
termination
  by (relation "measure (\<lambda>(_, _, _, a, _). length (filter page_is_free (ar_page_array a)))")
    (auto simp: set_page_def page_at_def page_is_free_def intro: free_pages_decrease split: if_splits)

declare alloc_range_from.simps [simp del]

fun alloc_range_walk ::
  "64 word \<Rightarrow> u32 \<Rightarrow> paddr \<Rightarrow> pmm_arena list \<Rightarrow> vm_page_ptr list \<Rightarrow> (u32 \<times> pmm_arena list \<times> vm_page_ptr list) option" where
  "alloc_range_walk count allocated x [] l = Some (allocated, [], l)"
| "alloc_range_walk count allocated x (a # as) l = do {
    (n, x, a, l) \<leftarrow> alloc_range_from count allocated x a l;
    if ucast n = count then Some (n, a # as, l)
    else do { (n, as, l) \<leftarrow> alloc_range_walk count n x as l; Some (n, a # as, l) }
  }"

definition pmm_alloc_range ::
  "paddr \<Rightarrow> 64 word \<Rightarrow> vm_page_ptr list \<Rightarrow> pmm_arena list \<Rightarrow> (64 word \<times> pmm_arena list \<times> vm_page_ptr list) option" where
  "pmm_alloc_range x count l as =
    (if count = 0 then Some (0, as, l)
     else do { (n, as, l) \<leftarrow> alloc_range_walk count 0 (ROUNDDOWN x PAGE_SIZE) as l; Some (ucast n, as, l) })"

subsection \<open>Contiguous runs\<close>

text \<open>
  The \<^verbatim>\<open>for\<close> loop that looks at the pages of a run, with \<^verbatim>\<open>p\<close> the index that the pointer \<^verbatim>\<open>p\<close> has
  reached: \<^term>\<open>Some i\<close> when the page of turn \<^verbatim>\<open>i\<close> is not free, \<^term>\<open>None\<close> inside the outer \<^term>\<open>Some\<close>
  when all are.
\<close>

function scan_run :: "pmm_arena \<Rightarrow> 64 word \<Rightarrow> u32 \<Rightarrow> nat \<Rightarrow> u32 option option" where
  "scan_run a count i p =
    (if ucast i < count
     then if p < length (ar_page_array a)
       then if \<not> page_is_free (ar_page_array a ! p) then Some (Some i) else scan_run a count (i + 1) (Suc p)
       else None
     else Some None)"
  by auto
termination
  by (relation "measure (\<lambda>(a, _, _, p). length (ar_page_array a) - p)") auto

declare scan_run.simps [simp del]

text \<open>
  The \<^verbatim>\<open>retry\<close> loop on one arena: the start of the first run that is free, at the alignment
  boundaries.
\<close>

partial_function (option) search_run ::
  "pmm_arena \<Rightarrow> 64 word \<Rightarrow> nat \<Rightarrow> 64 word \<Rightarrow> 64 word \<Rightarrow> 64 word option option" where
  "search_run a count align_log2 aligned_offset start =
    (if start < page_count a \<and> start + count \<le> page_count a
     then case scan_run a count 0 (unat start) of
         None \<Rightarrow> None
       | Some None \<Rightarrow> Some (Some start)
       | Some (Some i) \<Rightarrow>
           search_run a count align_log2 aligned_offset
             (ROUNDUP (start - aligned_offset + ucast i + 1) (push_bit (align_log2 - PAGE_SIZE_SHIFT) 1) + aligned_offset)
     else Some None)"

text \<open>The loop that takes the \<^verbatim>\<open>n\<close> pages from \<^verbatim>\<open>i\<close> on out of the free list; the list argument may be null.\<close>

fun take_run :: "nat \<Rightarrow> nat \<Rightarrow> pmm_arena \<Rightarrow> vm_page_ptr list option \<Rightarrow> (pmm_arena \<times> vm_page_ptr list option) option" where
  "take_run 0 i a l = Some (a, l)"
| "take_run (Suc n) i a l = do {
    p \<leftarrow> page_at a i;
    chk (page_is_free p);
    chk (pg_node p);
    take_run n (Suc i)
      (set_page i (p\<lparr>pg_node := (l \<noteq> None), pg_state := VM_PAGE_STATE_ALLOC\<rparr>) a
        \<lparr>ar_free_list := remove1 i (ar_free_list a), ar_free_count := ar_free_count a - 1\<rparr>)
      (map_option (\<lambda>l. l @ [(ar_id a, i)]) l)
  }"

definition rounded_base :: "nat \<Rightarrow> pmm_arena \<Rightarrow> paddr" where
  "rounded_base align_log2 a = ROUNDUP (ar_base a) (push_bit align_log2 1)"

fun contiguous_walk ::
  "64 word \<Rightarrow> u32 \<Rightarrow> nat \<Rightarrow> vm_page_ptr list option \<Rightarrow> pmm_arena list \<Rightarrow>
   (paddr option \<times> pmm_arena list \<times> vm_page_ptr list option) option" where
  "contiguous_walk count fl align_log2 l [] = Some (None, [], l)"
| "contiguous_walk count fl align_log2 l (a # as) =
    (if skip_arena fl a \<or> rounded_base align_log2 a < ar_base a
        \<or> rounded_base align_log2 a > ar_base a + ar_size a - 1
     then do { (r, as, l) \<leftarrow> contiguous_walk count fl align_log2 l as; Some (r, a # as, l) }
     else do {
       let aligned_offset = (rounded_base align_log2 a - ar_base a) div PAGE_SIZE;
       s \<leftarrow> search_run a count align_log2 aligned_offset aligned_offset;
       case s of
         None \<Rightarrow> do { (r, as, l) \<leftarrow> contiguous_walk count fl align_log2 l as; Some (r, a # as, l) }
       | Some start \<Rightarrow> do {
           (a, l) \<leftarrow> take_run (unat count) (unat start) a l;
           Some (Some (ar_base a + start * PAGE_SIZE), a # as, l)
         }
     })"

text \<open>
  \<^verbatim>\<open>pmm_alloc_contiguous\<close> returns the number of pages, and the address of the run through \<^verbatim>\<open>pa\<close>. A
  shift by 64 or more is undefined.
\<close>

definition pmm_alloc_contiguous ::
  "64 word \<Rightarrow> u32 \<Rightarrow> nat \<Rightarrow> vm_page_ptr list option \<Rightarrow> pmm_arena list \<Rightarrow>
   (64 word \<times> paddr option \<times> pmm_arena list \<times> vm_page_ptr list option) option" where
  "pmm_alloc_contiguous count fl align_log2 l as =
    (if count = 0 then Some (0, None, as, l)
     else do {
       let align_log2 = (if align_log2 < PAGE_SIZE_SHIFT then PAGE_SIZE_SHIFT else align_log2);
       chk (align_log2 < 64);
       (r, as, l) \<leftarrow> contiguous_walk count fl align_log2 l as;
       Some (if r = None then 0 else count, r, as, l)
     })"

section \<open>Freeing\<close>

text \<open>The page structure a pointer leads to, in whichever arena; a pointer into no arena leads nowhere.\<close>

fun deref :: "vm_page_ptr \<Rightarrow> pmm_arena list \<Rightarrow> vm_page option" where
  "deref p [] = None"
| "deref p (a # as) = (if fst p = ar_id a then page_at a (snd p) else deref p as)"

text \<open>
  The inner loop of \<^verbatim>\<open>pmm_free\<close>: the page, whose links \<^verbatim>\<open>list_remove_head\<close> has cleared, goes back to
  the arena it belongs to.
\<close>

fun return_page :: "vm_page_ptr \<Rightarrow> pmm_arena list \<Rightarrow> bool \<times> pmm_arena list" where
  "return_page p [] = (False, [])"
| "return_page p (a # as) =
    (if PAGE_BELONGS_TO_ARENA p a
     then (True, set_page (snd p) ((ar_page_array a ! snd p)\<lparr>pg_node := True, pg_state := VM_PAGE_STATE_FREE\<rparr>) a
                   \<lparr>ar_free_list := snd p # ar_free_list a, ar_free_count := ar_free_count a + 1\<rparr> # as)
     else let (found, as) = return_page p as in (found, a # as))"

fun pmm_free :: "vm_page_ptr list \<Rightarrow> pmm_arena list \<Rightarrow> (64 word \<times> pmm_arena list) option" where
  "pmm_free [] as = Some (0, as)"
| "pmm_free (p # l) as = do {
    page \<leftarrow> deref p as;
    chk (\<not> page_is_free page);
    let (found, as) = return_page p as;
    (n, as) \<leftarrow> pmm_free l as;
    Some (if found then n + 1 else n, as)
  }"

definition pmm_free_page :: "vm_page_ptr \<Rightarrow> pmm_arena list \<Rightarrow> (64 word \<times> pmm_arena list) option" where
  "pmm_free_page p as = pmm_free [p] as"

section \<open>The kernel's pages\<close>

abbreviation (input) MMU_INITIAL_MAPPING_TEMPORARY :: u32 where "MMU_INITIAL_MAPPING_TEMPORARY \<equiv> 1"

record mmu_initial_mapping =
  mm_phys :: paddr
  mm_virt :: "64 word"
  mm_size :: "64 word"
  mm_flags :: u32

text \<open>The table of initial mappings ends with an entry of size 0; a null pointer is 0.\<close>

fun paddr_to_kvaddr :: "paddr \<Rightarrow> mmu_initial_mapping list \<Rightarrow> 64 word option" where
  "paddr_to_kvaddr pa [] = None"
| "paddr_to_kvaddr pa (m # ms) =
    (if mm_size m > 0
     then if mm_flags m AND MMU_INITIAL_MAPPING_TEMPORARY = 0 \<and> mm_phys m \<le> pa \<and> pa \<le> mm_phys m + mm_size m - 1
       then Some (mm_virt m + (pa - mm_phys m))
       else paddr_to_kvaddr pa ms
     else Some 0)"

text \<open>The links of the node of an allocated page are set when the page joins the caller's list.\<close>

fun link_page :: "vm_page_ptr \<Rightarrow> pmm_arena list \<Rightarrow> pmm_arena list" where
  "link_page p [] = []"
| "link_page p (a # as) =
    (if fst p = ar_id a then set_page (snd p) ((ar_page_array a ! snd p)\<lparr>pg_node := True\<rparr>) a # as
     else a # link_page p as)"

definition pmm_alloc_kpages ::
  "mmu_initial_mapping list \<Rightarrow> 64 word \<Rightarrow> vm_page_ptr list option \<Rightarrow> pmm_arena list \<Rightarrow>
   (64 word \<times> pmm_arena list \<times> vm_page_ptr list option) option" where
  "pmm_alloc_kpages ms count l as =
    (if count = 1
     then do {
       (r, as) \<leftarrow> pmm_alloc_page PMM_ALLOC_FLAG_KMAP as;
       case r of
         None \<Rightarrow> Some (0, as, l)
       | Some (p, pa) \<Rightarrow> do {
           v \<leftarrow> paddr_to_kvaddr pa ms;
           Some (v, (if l = None then as else link_page p as), map_option (\<lambda>l. l @ [p]) l)
         }
     }
     else do {
       (n, r, as, l) \<leftarrow> pmm_alloc_contiguous count PMM_ALLOC_FLAG_KMAP PAGE_SIZE_SHIFT l as;
       case r of
         None \<Rightarrow> Some (0, as, l)
       | Some pa \<Rightarrow> do { v \<leftarrow> paddr_to_kvaddr pa ms; Some (v, as, l) }
     })"

text \<open>
  \<^verbatim>\<open>pmm_free_kpages\<close> translates through the page tables of the kernel: \<^verbatim>\<open>vaddr_to_paddr\<close>, which asks
  the architecture's MMU code, is the parameter \<^verbatim>\<open>vtop\<close>.
\<close>

fun kpages_list :: "(64 word \<Rightarrow> paddr) \<Rightarrow> 64 word \<Rightarrow> nat \<Rightarrow> pmm_arena list \<Rightarrow> vm_page_ptr list" where
  "kpages_list vtop ptr 0 as = []"
| "kpages_list vtop ptr (Suc n) as =
    (case paddr_to_vm_page (vtop ptr) as of
       None \<Rightarrow> kpages_list vtop (ptr + PAGE_SIZE) n as
     | Some p \<Rightarrow> p # kpages_list vtop (ptr + PAGE_SIZE) n as)"

definition pmm_free_kpages ::
  "(64 word \<Rightarrow> paddr) \<Rightarrow> 64 word \<Rightarrow> 64 word \<Rightarrow> pmm_arena list \<Rightarrow> (64 word \<times> pmm_arena list) option" where
  "pmm_free_kpages vtop ptr count as = pmm_free (kpages_list vtop ptr (unat count) as) as"

section \<open>The arena invariant\<close>

definition arena_range :: "pmm_arena \<Rightarrow> bool" where
  "arena_range a \<longleftrightarrow> 0 < unat (ar_size a) \<and> unat (ar_base a) + unat (ar_size a) \<le> 2 ^ 64
    \<and> 4096 dvd unat (ar_base a) \<and> 4096 dvd unat (ar_size a)"

definition arena_ok :: "pmm_arena \<Rightarrow> bool" where
  "arena_ok a \<longleftrightarrow> arena_range a \<and> length (ar_page_array a) = unat (page_count a)
    \<and> distinct (ar_free_list a) \<and> unat (ar_free_count a) = length (ar_free_list a)
    \<and> set (ar_free_list a) \<subseteq> {..<length (ar_page_array a)}
    \<and> (\<forall>i<length (ar_page_array a). (page_is_free (ar_page_array a ! i) \<longleftrightarrow> i \<in> set (ar_free_list a))
        \<and> (page_is_free (ar_page_array a ! i) \<longrightarrow> pg_node (ar_page_array a ! i)))"

definition same_arena :: "pmm_arena \<Rightarrow> pmm_arena \<Rightarrow> bool" where
  "same_arena a a' \<longleftrightarrow> ar_id a' = ar_id a \<and> ar_flags a' = ar_flags a \<and> ar_base a' = ar_base a
    \<and> ar_size a' = ar_size a"

lemma page_count_nat: "unat (page_count a) = unat (ar_size a) div 4096"
  by (simp add: page_count_def unat_div)

lemma set_page_sel [simp]:
  "ar_id (set_page i p a) = ar_id a" "ar_flags (set_page i p a) = ar_flags a"
  "ar_base (set_page i p a) = ar_base a" "ar_size (set_page i p a) = ar_size a"
  "ar_priority (set_page i p a) = ar_priority a"
  "ar_free_list (set_page i p a) = ar_free_list a" "ar_free_count (set_page i p a) = ar_free_count a"
  "ar_page_array (set_page i p a) = (ar_page_array a)[i := p]"
  by (simp_all add: set_page_def)

lemma page_count_cong: "ar_size a' = ar_size a \<Longrightarrow> page_count a' = page_count a"
  by (simp add: page_count_def)

lemma arena_range_cong: "ar_size a' = ar_size a \<Longrightarrow> ar_base a' = ar_base a \<Longrightarrow> arena_range a' = arena_range a"
  by (simp add: arena_range_def)

lemma free_list_bound: "arena_ok a \<Longrightarrow> length (ar_free_list a) \<le> unat (page_count a)"
  unfolding arena_ok_def
  by (metis card_lessThan card_mono distinct_card finite_lessThan)

lemma free_list_small: "arena_ok a \<Longrightarrow> length (ar_free_list a) < 2 ^ 52"
  using free_list_bound [of a] unsigned_less [of "ar_size a", where ?'a = nat]
  by (simp add: page_count_nat)

definition take_page :: "nat \<Rightarrow> vm_page \<Rightarrow> pmm_arena \<Rightarrow> pmm_arena" where
  "take_page i q a = set_page i q a
    \<lparr>ar_free_list := remove1 i (ar_free_list a), ar_free_count := ar_free_count a - 1\<rparr>"

lemma take_page_ok:
  assumes "arena_ok a" "i \<in> set (ar_free_list a)" "\<not> page_is_free q"
  shows "arena_ok (take_page i q a)"
proof -
  have "unat (ar_free_count a) \<noteq> 0"
    using assms by (auto simp: arena_ok_def)
  then have "ar_free_count a \<noteq> 0"
    by auto
  then have "unat (ar_free_count a - 1) = unat (ar_free_count a) - 1"
    by (simp add: unat_minus_one)
  moreover have "i < unat (ar_size a div 4096)"
    using assms by (auto simp: arena_ok_def page_count_def)
  ultimately show ?thesis
    using assms
    by (auto simp: arena_ok_def take_page_def page_count_def arena_range_def length_remove1
        nth_list_update dest: notin_set_remove1)
qed

lemma give_page_ok:
  assumes "arena_ok a" "i < unat (page_count a)" "i \<notin> set (ar_free_list a)" "page_is_free q" "pg_node q"
  shows "arena_ok (set_page i q a\<lparr>ar_free_list := i # ar_free_list a, ar_free_count := ar_free_count a + 1\<rparr>)"
proof -
  have "unat (ar_free_count a) + 1 < 2 ^ 64"
    using free_list_small [OF assms(1)] assms(1) by (simp add: arena_ok_def)
  then have "unat (ar_free_count a + 1) = unat (ar_free_count a) + 1"
    by (simp add: unat_word_ariths)
  then show ?thesis
    using assms
    by (auto simp: arena_ok_def page_count_def arena_range_def nth_list_update)
qed

section \<open>What an allocation takes\<close>

definition afree :: "pmm_arena \<Rightarrow> vm_page_ptr set" where
  "afree a = Pair (ar_id a) ` set (ar_free_list a)"

definition free_pages :: "pmm_arena list \<Rightarrow> vm_page_ptr set" where
  "free_pages as = (\<Union>a\<in>set as. afree a)"

definition all_pages :: "pmm_arena list \<Rightarrow> vm_page_ptr set" where
  "all_pages as = (\<Union>a\<in>set as. Pair (ar_id a) ` {..<unat (page_count a)})"

definition pmm_ok :: "pmm_arena list \<Rightarrow> bool" where
  "pmm_ok as \<longleftrightarrow> distinct (map ar_id as) \<and> (\<forall>a\<in>set as. arena_ok a)"

definition takes1 :: "pmm_arena \<Rightarrow> vm_page_ptr list \<Rightarrow> pmm_arena \<Rightarrow> bool" where
  "takes1 a new a' \<longleftrightarrow> same_arena a a' \<and> arena_ok a' \<and> distinct new \<and> set new \<subseteq> afree a
    \<and> afree a' = afree a - set new"

definition takes :: "pmm_arena list \<Rightarrow> vm_page_ptr list \<Rightarrow> pmm_arena list \<Rightarrow> bool" where
  "takes as new as' \<longleftrightarrow> list_all2 same_arena as as' \<and> (\<forall>a\<in>set as'. arena_ok a) \<and> distinct new
    \<and> set new \<subseteq> free_pages as \<and> free_pages as' = free_pages as - set new"

lemma same_arena_refl [simp]: "same_arena a a"
  by (simp add: same_arena_def)

lemma free_pages_simps [simp]: "free_pages [] = {}" "free_pages (a # as) = afree a \<union> free_pages as"
  by (simp_all add: free_pages_def)

lemma pmm_ok_simps [simp]:
  "pmm_ok []" "pmm_ok (a # as) \<longleftrightarrow> ar_id a \<notin> ar_id ` set as \<and> arena_ok a \<and> pmm_ok as"
  by (auto simp: pmm_ok_def)

lemma takes1_refl: "arena_ok a \<Longrightarrow> takes1 a [] a"
  by (simp add: takes1_def)

lemma takes1_page:
  assumes "arena_ok a" "i \<in> set (ar_free_list a)" "\<not> page_is_free q"
  shows "takes1 a [(ar_id a, i)] (take_page i q a)"
proof -
  have "set (remove1 i (ar_free_list a)) = set (ar_free_list a) - {i}"
    using assms(1) by (simp add: arena_ok_def set_remove1_eq)
  then show ?thesis
    using take_page_ok [OF assms] assms(2)
    by (auto simp: takes1_def same_arena_def afree_def take_page_def)
qed

lemma takes1_trans:
  assumes "takes1 a n1 a'" "takes1 a' n2 a''"
  shows "takes1 a (n1 @ n2) a''"
  using assms by (auto simp: takes1_def same_arena_def)

lemma takes_refl: "pmm_ok as \<Longrightarrow> takes as [] as"
  by (simp add: takes_def pmm_ok_def list_all2_refl)

lemma afree_disjoint:
  "ar_id a \<notin> ar_id ` set as \<Longrightarrow> afree a \<inter> free_pages as = {}"
  by (auto simp: afree_def free_pages_def)

lemma takes_Cons:
  assumes "pmm_ok (a # as)" "takes1 a n1 a'" "takes as n2 as'"
  shows "takes (a # as) (n1 @ n2) (a' # as')"
  using assms afree_disjoint [of a as]
  by (auto simp: takes_def takes1_def)

lemma takes_head:
  assumes "pmm_ok (a # as)" "takes1 a n1 a'"
  shows "takes (a # as) n1 (a' # as)"
  using takes_Cons [OF assms takes_refl] assms(1) by simp

lemma takes_tail:
  assumes "pmm_ok (a # as)" "takes as n2 as'"
  shows "takes (a # as) n2 (a # as')"
  using takes_Cons [OF assms(1) takes1_refl assms(2)] assms(1) by simp

lemma same_arenas:
  assumes "list_all2 same_arena as as'"
  shows "map ar_id as' = map ar_id as" "all_pages as' = all_pages as"
  using assms
  by (induction rule: list_all2_induct) (auto simp: same_arena_def all_pages_def page_count_def)

lemma takes_ok: "pmm_ok as \<Longrightarrow> takes as new as' \<Longrightarrow> pmm_ok as'"
  using same_arenas(1) [of as as'] by (simp add: pmm_ok_def takes_def)

lemma takes_all: "takes as new as' \<Longrightarrow> all_pages as' = all_pages as"
  by (simp add: takes_def same_arenas(2))

lemma free_page_at:
  assumes "arena_ok a" "i \<in> set (ar_free_list a)"
  obtains p where "page_at a i = Some p" "page_is_free p" "pg_node p" "i < unat (page_count a)"
  using assms by (auto simp: arena_ok_def page_at_def)

lemma alloc_state_not_free [simp]: "\<not> page_is_free (p\<lparr>pg_node := b, pg_state := VM_PAGE_STATE_ALLOC\<rparr>)"
  by (simp add: page_is_free_def)

lemma take_page_fold:
  "set_page i q a\<lparr>ar_free_list := remove1 i (ar_free_list a), ar_free_count := ar_free_count a - 1\<rparr>
    = take_page i q a"
  by (simp add: take_page_def)

lemma take_head_fold:
  assumes "ar_free_list a = i # rest"
  shows "set_page i q a\<lparr>ar_free_list := rest, ar_free_count := ar_free_count a - 1\<rparr> = take_page i q a"
  using assms by (simp add: take_page_def)

lemma take_page_sel [simp]:
  "ar_id (take_page i q a) = ar_id a" "ar_flags (take_page i q a) = ar_flags a"
  "ar_base (take_page i q a) = ar_base a" "ar_size (take_page i q a) = ar_size a"
  "ar_free_list (take_page i q a) = remove1 i (ar_free_list a)"
  "ar_page_array (take_page i q a) = (ar_page_array a)[i := q]"
  by (simp_all add: take_page_def)

lemma free_count_pos: "arena_ok a \<Longrightarrow> 0 < ar_free_count a \<longleftrightarrow> ar_free_list a \<noteq> []"
  by (auto simp: arena_ok_def word_less_nat_alt)

lemma pmm_alloc_page_ok:
  assumes "pmm_ok as"
  shows "\<exists>r as'. pmm_alloc_page fl as = Some (r, as')
    \<and> (case r of
         None \<Rightarrow> as' = as \<and> (\<forall>a\<in>set as. skip_arena fl a \<or> ar_free_list a = [])
       | Some (p, pa) \<Rightarrow> takes as [p] as'
           \<and> (\<exists>a\<in>set as. \<not> skip_arena fl a \<and> p \<in> afree a \<and> pa = PAGE_ADDRESS_FROM_ARENA p a))"
  using assms
proof (induction as)
  case (Cons a as)
  then obtain r as' where IH: "pmm_alloc_page fl as = Some (r, as')"
    "case r of
         None \<Rightarrow> as' = as \<and> (\<forall>a\<in>set as. skip_arena fl a \<or> ar_free_list a = [])
       | Some (p, pa) \<Rightarrow> takes as [p] as'
           \<and> (\<exists>a\<in>set as. \<not> skip_arena fl a \<and> p \<in> afree a \<and> pa = PAGE_ADDRESS_FROM_ARENA p a)"
    by auto
  show ?case
  proof (cases "skip_arena fl a \<or> ar_free_list a = []")
    case True
    then have "pmm_alloc_page fl (a # as) = Some (r, a # as')"
      using IH(1) by auto
    then show ?thesis
      using True IH(2) takes_tail [OF Cons.prems]
      by (intro exI [of _ r] exI [of _ "a # as'"]) (auto split: option.splits)
  next
    case False
    then obtain i rest where l: "ar_free_list a = i # rest"
      by (cases "ar_free_list a") auto
    obtain p where p: "page_at a i = Some p" "page_is_free p"
      using free_page_at [of a i] Cons.prems l by auto
    have "takes1 a [(ar_id a, i)] (take_page i (p\<lparr>pg_node := False, pg_state := VM_PAGE_STATE_ALLOC\<rparr>) a)"
      using Cons.prems l by (intro takes1_page) auto
    from takes_head [OF Cons.prems this] show ?thesis
      using False l p take_head_fold [OF l]
      by (auto simp: afree_def PAGE_ADDRESS_FROM_ARENA_def)
  qed
qed simp

lemma uint_to_size [simp]: "unat (ucast (k :: u32) :: 64 word) = unat k"
  by (simp add: unsigned_ucast_eq take_bit_nat_eq_self_iff less_le_trans [OF unsigned_less])

lemma uint_Suc: "unat k < unat (c :: 64 word) \<Longrightarrow> unat c < 2 ^ 32 \<Longrightarrow> unat ((k :: u32) + 1) = unat k + 1"
  by (simp add: unat_word_ariths)

lemma alloc_pages_from_ok:
  assumes "arena_ok a"
  shows "\<exists>n a' new. alloc_pages_from c k a l = Some (False, n, a', l @ new) \<and> takes1 a new a'
    \<and> (unat k \<le> unat c \<and> unat c < 2 ^ 32 \<longrightarrow>
        unat n = unat k + length new \<and> unat n \<le> unat c \<and> (unat n = unat c \<or> ar_free_list a' = []))"
  using assms
proof (induction c k a l rule: alloc_pages_from.induct)
  case (1 c k a l)
  show ?case
  proof (cases "unat k < unat c \<and> ar_free_list a \<noteq> []")
    case False
    then have "alloc_pages_from c k a l = Some (False, k, a, l)"
      using free_count_pos [OF 1(2)] by (subst alloc_pages_from.simps) (auto simp: word_less_nat_alt)
    then show ?thesis
      using False takes1_refl [OF 1(2)] by (intro exI [of _ k] exI [of _ a] exI [of _ "[]"]) auto
  next
    case True
    then have run: "ucast k < c" "0 < ar_free_count a"
      using free_count_pos [OF 1(2)] by (auto simp: word_less_nat_alt)
    from True obtain i rest where l: "ar_free_list a = i # rest"
      by (cases "ar_free_list a") auto
    obtain p where p: "page_at a i = Some p" "page_is_free p"
      using free_page_at [OF 1(2), of i] l by auto
    define a1 where "a1 = take_page i (p\<lparr>pg_node := True, pg_state := VM_PAGE_STATE_ALLOC\<rparr>) a"
    have t1: "takes1 a [(ar_id a, i)] a1"
      unfolding a1_def using 1(2) l by (intro takes1_page) auto
    have step: "alloc_pages_from c k a l = alloc_pages_from c (k + 1) a1 (l @ [(ar_id a, i)])"
      using run l p by (subst alloc_pages_from.simps) (simp add: a1_def take_head_fold [OF l])
    obtain n a' new where IH: "alloc_pages_from c (k + 1) a1 (l @ [(ar_id a, i)])
        = Some (False, n, a', (l @ [(ar_id a, i)]) @ new)" "takes1 a1 new a'"
      "unat (k + 1) \<le> unat c \<and> unat c < 2 ^ 32 \<longrightarrow>
        unat n = unat (k + 1) + length new \<and> unat n \<le> unat c \<and> (unat n = unat c \<or> ar_free_list a' = [])"
      using 1(1) [OF conjI [OF run] l p(1), of "()"] p(2) t1
      unfolding take_head_fold [OF l] a1_def [symmetric]
      by (auto simp: takes1_def)
    show ?thesis
      using IH step takes1_trans [OF t1 IH(2)] True uint_Suc [of k c]
      by (intro exI [of _ n] exI [of _ a'] exI [of _ "(ar_id a, i) # new"]) auto
  qed
qed

lemma alloc_pages_walk_ok:
  assumes "pmm_ok as"
  shows "\<exists>n as' new. alloc_pages_walk c fl k as l = Some (n, as', l @ new) \<and> takes as new as'
    \<and> (unat k \<le> unat c \<and> unat c < 2 ^ 32 \<longrightarrow>
        unat n = unat k + length new \<and> unat n \<le> unat c
        \<and> (unat n = unat c \<or> (\<forall>a\<in>set as'. skip_arena fl a \<or> ar_free_list a = [])))"
  using assms
proof (induction as arbitrary: k l)
  case (Cons a as)
  show ?case
  proof (cases "skip_arena fl a")
    case True
    obtain n as' new where "alloc_pages_walk c fl k as l = Some (n, as', l @ new)" "takes as new as'"
      "unat k \<le> unat c \<and> unat c < 2 ^ 32 \<longrightarrow>
        unat n = unat k + length new \<and> unat n \<le> unat c
        \<and> (unat n = unat c \<or> (\<forall>a\<in>set as'. skip_arena fl a \<or> ar_free_list a = []))"
      using Cons.IH [of k l] Cons.prems by auto
    then show ?thesis
      using True takes_tail [OF Cons.prems, of new as']
      by (intro exI [of _ n] exI [of _ "a # as'"] exI [of _ new]) auto
  next
    case False
    obtain m a' n1 where 1: "alloc_pages_from c k a l = Some (False, m, a', l @ n1)" "takes1 a n1 a'"
      "unat k \<le> unat c \<and> unat c < 2 ^ 32 \<longrightarrow>
        unat m = unat k + length n1 \<and> unat m \<le> unat c \<and> (unat m = unat c \<or> ar_free_list a' = [])"
      using alloc_pages_from_ok [of a c k l] Cons.prems by auto
    obtain n as' n2 where 2: "alloc_pages_walk c fl m as (l @ n1) = Some (n, as', (l @ n1) @ n2)" "takes as n2 as'"
      "unat m \<le> unat c \<and> unat c < 2 ^ 32 \<longrightarrow>
        unat n = unat m + length n2 \<and> unat n \<le> unat c
        \<and> (unat n = unat c \<or> (\<forall>a\<in>set as'. skip_arena fl a \<or> ar_free_list a = []))"
      using Cons.IH [of m "l @ n1"] Cons.prems by auto
    show ?thesis
      using False 1 2 takes_Cons [OF Cons.prems 1(2) 2(2)]
      by (intro exI [of _ n] exI [of _ "a' # as'"] exI [of _ "n1 @ n2"]) auto
  qed
qed (simp add: takes_refl)

subsection \<open>Addresses\<close>

lemma arena_end_nat:
  assumes "arena_range a"
  shows "unat (ar_base a + ar_size a - 1) = unat (ar_base a) + unat (ar_size a) - 1"
proof -
  have "ar_base a + ar_size a - 1 = of_nat (unat (ar_base a) + unat (ar_size a) - 1)"
    using assms by (simp add: arena_range_def of_nat_diff)
  moreover have "unat (ar_base a) + unat (ar_size a) - 1 < 2 ^ 64"
    using assms unfolding arena_range_def by linarith
  ultimately show ?thesis
    by (simp add: unat_of_nat)
qed

lemma ADDRESS_IN_ARENA_nat:
  assumes "arena_range a"
  shows "ADDRESS_IN_ARENA x a \<longleftrightarrow> unat (ar_base a) \<le> unat x \<and> unat x < unat (ar_base a) + unat (ar_size a)"
  using arena_end_nat [OF assms] assms
  by (auto simp: ADDRESS_IN_ARENA_def word_le_nat_alt arena_range_def)

lemma page_address_nat:
  assumes "arena_range a" "i < unat (page_count a)"
  shows "unat (PAGE_ADDRESS_FROM_ARENA (n, i) a) = unat (ar_base a) + i * 4096"
    "unat (ar_base a) + i * 4096 < unat (ar_base a) + unat (ar_size a)"
proof -
  have "Suc i * 4096 \<le> unat (ar_size a)"
    using assms(2) by (metis Suc_leI div_times_less_eq_dividend mult_le_mono1 order_trans page_count_nat)
  then show "unat (ar_base a) + i * 4096 < unat (ar_base a) + unat (ar_size a)"
    by simp
  then have "unat (ar_base a) + i * 4096 < 2 ^ 64"
    using assms(1) unfolding arena_range_def by linarith
  then have "unat (of_nat (unat (ar_base a) + i * 4096) :: 64 word) = unat (ar_base a) + i * 4096"
    unfolding unat_of_nat by simp
  then show "unat (PAGE_ADDRESS_FROM_ARENA (n, i) a) = unat (ar_base a) + i * 4096"
    by (simp add: PAGE_ADDRESS_FROM_ARENA_def add.commute)
qed

lemma address_index:
  assumes "arena_range a" "ADDRESS_IN_ARENA x a"
  shows "unat ((x - ar_base a) div 4096) = (unat x - unat (ar_base a)) div 4096"
    "unat ((x - ar_base a) div 4096) < unat (page_count a)"
proof -
  have "ar_base a \<le> x" "unat x - unat (ar_base a) < unat (ar_size a)"
    using assms ADDRESS_IN_ARENA_nat [OF assms(1)] by (auto simp: ADDRESS_IN_ARENA_def)
  then show *: "unat ((x - ar_base a) div 4096) = (unat x - unat (ar_base a)) div 4096"
    by (simp add: unat_div unat_sub)
  show "unat ((x - ar_base a) div 4096) < unat (page_count a)"
    unfolding * page_count_nat
    using \<open>_ < unat (ar_size a)\<close> assms(1)
    by (metis arena_range_def div_less_iff_less_mult dvd_div_mult_self zero_less_numeral)
qed

lemma address_of_index:
  assumes "arena_range a" "ADDRESS_IN_ARENA x a" "4096 dvd unat x"
  shows "PAGE_ADDRESS_FROM_ARENA (n, unat ((x - ar_base a) div 4096)) a = x"
proof -
  have "4096 dvd unat x - unat (ar_base a)" "unat (ar_base a) \<le> unat x"
    using assms ADDRESS_IN_ARENA_nat [OF assms(1)] by (auto simp: arena_range_def)
  then have "unat (PAGE_ADDRESS_FROM_ARENA (n, unat ((x - ar_base a) div 4096)) a) = unat x"
    using page_address_nat(1) [OF assms(1) address_index(2) [OF assms(1,2)], of n] address_index(1) [OF assms(1,2)]
    by simp
  then show ?thesis
    by (simp add: word_unat_eq_iff)
qed

lemma page_aligned_step: "4096 dvd unat (x :: 64 word) \<Longrightarrow> 4096 dvd unat (x + 4096)"
  by (simp add: unat_word_ariths dvd_mod_iff)

text \<open>The addresses of \<^verbatim>\<open>n\<close> pages in a row.\<close>

fun page_addrs :: "paddr \<Rightarrow> nat \<Rightarrow> paddr list" where
  "page_addrs x 0 = []"
| "page_addrs x (Suc n) = x # page_addrs (x + 4096) n"

lemma page_addrs_append: "page_addrs x (m + n) = page_addrs x m @ page_addrs (x + of_nat m * 4096) n"
  by (induction m arbitrary: x) (simp_all add: algebra_simps)

lemma length_page_addrs [simp]: "length (page_addrs x n) = n"
  by (induction n arbitrary: x) simp_all

lemma free_page_belongs:
  assumes "arena_ok a" "p \<in> afree a"
  shows "PAGE_BELONGS_TO_ARENA p a"
  using assms by (auto simp: afree_def PAGE_BELONGS_TO_ARENA_def arena_ok_def)

lemma vm_page_to_paddr_in:
  assumes "distinct (map ar_id as)" "a \<in> set as" "PAGE_BELONGS_TO_ARENA p a"
  shows "vm_page_to_paddr p as = PAGE_ADDRESS_FROM_ARENA p a"
  using assms by (induction as) (auto simp: PAGE_BELONGS_TO_ARENA_def dest: sym [of "ar_id _"] imageI [of _ _ ar_id])

lemma take_page_address: "same_arena a a' \<Longrightarrow> PAGE_ADDRESS_FROM_ARENA p a' = PAGE_ADDRESS_FROM_ARENA p a"
  by (simp add: PAGE_ADDRESS_FROM_ARENA_def same_arena_def)

lemma same_arena_address:
  "list_all2 same_arena as as' \<Longrightarrow> vm_page_to_paddr p as' = vm_page_to_paddr p as"
  by (induction rule: list_all2_induct)
    (auto simp: same_arena_def PAGE_BELONGS_TO_ARENA_def page_count_def PAGE_ADDRESS_FROM_ARENA_def)

lemma alloc_range_from_ok:
  assumes "arena_ok a" "4096 dvd unat x"
  shows "\<exists>n a' new. alloc_range_from c k x a l = Some (n, x + of_nat (length new) * 4096, a', l @ new)
    \<and> takes1 a new a' \<and> map (\<lambda>p. PAGE_ADDRESS_FROM_ARENA p a) new = page_addrs x (length new)
    \<and> (unat k \<le> unat c \<and> unat c < 2 ^ 32 \<longrightarrow> unat n = unat k + length new \<and> unat n \<le> unat c)"
  using assms
proof (induction c k x a l rule: alloc_range_from.induct)
  case (1 c k x a l)
  define i where "i = unat ((x - ar_base a) div 4096)"
  have range: "arena_range a"
    using 1(2) by (simp add: arena_ok_def)
  show ?case
  proof (cases "unat k < unat c \<and> ADDRESS_IN_ARENA x a \<and> i \<in> set (ar_free_list a)")
    case False
    have "alloc_range_from c k x a l = Some (k, x, a, l)"
    proof (cases "unat k < unat c \<and> ADDRESS_IN_ARENA x a")
      case True
      then have "i < unat (page_count a)" "i \<notin> set (ar_free_list a)"
        using address_index(2) [OF range] False i_def by auto
      then show ?thesis
        using 1(2) True by (subst alloc_range_from.simps)
          (auto simp: word_less_nat_alt arena_ok_def page_at_def i_def [symmetric] Let_def)
    qed (subst alloc_range_from.simps, auto simp: word_less_nat_alt)
    then show ?thesis
      using False takes1_refl [OF 1(2)] by (intro exI [of _ k] exI [of _ a] exI [of _ "[]"]) auto
  next
    case True
    then have run: "ucast k < c" "ADDRESS_IN_ARENA x a" and free: "i \<in> set (ar_free_list a)"
      by (auto simp: word_less_nat_alt)
    obtain p where p: "page_at a i = Some p" "page_is_free p" "pg_node p" "i < unat (page_count a)"
      using free_page_at [OF 1(2) free] by auto
    define a1 where "a1 = take_page i (p\<lparr>pg_node := True, pg_state := VM_PAGE_STATE_ALLOC\<rparr>) a"
    have t1: "takes1 a [(ar_id a, i)] a1"
      unfolding a1_def using 1(2) free by (intro takes1_page) auto
    have step: "alloc_range_from c k x a l = alloc_range_from c (k + 1) (x + 4096) a1 (l @ [(ar_id a, i)])"
      using run p by (subst alloc_range_from.simps) (simp add: a1_def take_page_fold i_def [symmetric] Let_def)
    have addr: "PAGE_ADDRESS_FROM_ARENA (ar_id a, i) a = x"
      unfolding i_def by (rule address_of_index [OF range run(2) 1(3)])
    obtain n a' new where IH: "alloc_range_from c (k + 1) (x + 4096) a1 (l @ [(ar_id a, i)])
        = Some (n, x + 4096 + of_nat (length new) * 4096, a', (l @ [(ar_id a, i)]) @ new)" "takes1 a1 new a'"
      "map (\<lambda>p. PAGE_ADDRESS_FROM_ARENA p a1) new = page_addrs (x + 4096) (length new)"
      "unat (k + 1) \<le> unat c \<and> unat c < 2 ^ 32 \<longrightarrow> unat n = unat (k + 1) + length new \<and> unat n \<le> unat c"
      using 1(1) [OF conjI [OF run] i_def, of p] p t1 page_aligned_step [OF 1(3)]
      unfolding take_page_fold a1_def [symmetric]
      by (auto simp: takes1_def)
    show ?thesis
      using IH step takes1_trans [OF t1 IH(2)] True uint_Suc [of k c] addr
        take_page_address [of a a1] t1
      by (intro exI [of _ n] exI [of _ a'] exI [of _ "(ar_id a, i) # new"])
        (auto simp: takes1_def algebra_simps)
  qed
qed

lemma range_addresses_Cons:
  assumes ok: "pmm_ok (a # as)"
    and new: "set n1 \<subseteq> afree a" "set n2 \<subseteq> free_pages as"
    and addrs: "map (\<lambda>p. PAGE_ADDRESS_FROM_ARENA p a) n1 = page_addrs x (length n1)"
      "map (\<lambda>p. vm_page_to_paddr p as) n2 = page_addrs (x + of_nat (length n1) * 4096) (length n2)"
  shows "map (\<lambda>p. vm_page_to_paddr p (a # as)) (n1 @ n2) = page_addrs x (length (n1 @ n2))"
proof -
  have "map (\<lambda>p. vm_page_to_paddr p (a # as)) n1 = map (\<lambda>p. PAGE_ADDRESS_FROM_ARENA p a) n1"
    using new(1) free_page_belongs [of a] ok by (intro map_cong) auto
  moreover have "map (\<lambda>p. vm_page_to_paddr p (a # as)) n2 = map (\<lambda>p. vm_page_to_paddr p as) n2"
    using new(2) ok by (intro map_cong) (auto simp: PAGE_BELONGS_TO_ARENA_def free_pages_def afree_def)
  ultimately show ?thesis
    using addrs by (simp only: map_append length_append page_addrs_append)
qed

lemma alloc_range_walk_ok:
  assumes "pmm_ok as" "4096 dvd unat x"
  shows "\<exists>n as' new. alloc_range_walk c k x as l = Some (n, as', l @ new) \<and> takes as new as'
    \<and> map (\<lambda>p. vm_page_to_paddr p as) new = page_addrs x (length new)
    \<and> (unat k \<le> unat c \<and> unat c < 2 ^ 32 \<longrightarrow> unat n = unat k + length new \<and> unat n \<le> unat c)"
  using assms
proof (induction as arbitrary: k x l)
  case (Cons a as)
  obtain m a' n1 where 1: "alloc_range_from c k x a l = Some (m, x + of_nat (length n1) * 4096, a', l @ n1)"
    "takes1 a n1 a'" "map (\<lambda>p. PAGE_ADDRESS_FROM_ARENA p a) n1 = page_addrs x (length n1)"
    "unat k \<le> unat c \<and> unat c < 2 ^ 32 \<longrightarrow> unat m = unat k + length n1 \<and> unat m \<le> unat c"
    using alloc_range_from_ok [of a x c k l] Cons.prems by auto
  define x' where "x' = x + of_nat (length n1) * 4096"
  have new1: "set n1 \<subseteq> afree a"
    using 1(2) by (simp add: takes1_def)
  show ?case
  proof (cases "ucast m = c")
    case True
    then show ?thesis
      using 1 takes_head [OF Cons.prems(1) 1(2)] range_addresses_Cons [OF Cons.prems(1) new1, of "[]" x] 
      by (intro exI [of _ m] exI [of _ "a' # as"] exI [of _ n1]) auto
  next
    case False
    have "4096 dvd unat x'"
      unfolding x'_def using Cons.prems(2) by (simp add: unat_word_ariths dvd_mod_iff)
    then obtain n as' n2 where 2: "alloc_range_walk c m x' as (l @ n1) = Some (n, as', (l @ n1) @ n2)" "takes as n2 as'"
      "map (\<lambda>p. vm_page_to_paddr p as) n2 = page_addrs x' (length n2)"
      "unat m \<le> unat c \<and> unat c < 2 ^ 32 \<longrightarrow> unat n = unat m + length n2 \<and> unat n \<le> unat c"
      using Cons.IH [of x' m "l @ n1"] Cons.prems by auto
    have "alloc_range_walk c k x (a # as) l = Some (n, a' # as', l @ n1 @ n2)"
      using False 1(1) 2(1) x'_def by simp
    moreover have "map (\<lambda>p. vm_page_to_paddr p (a # as)) (n1 @ n2) = page_addrs x (length (n1 @ n2))"
      using 2 by (intro range_addresses_Cons [OF Cons.prems(1) new1 _ 1(3)]) (auto simp: takes_def x'_def)
    ultimately show ?thesis
      using 1(4) 2(4) takes_Cons [OF Cons.prems(1) 1(2) 2(2)]
      by (intro exI [of _ n] exI [of _ "a' # as'"] exI [of _ "n1 @ n2"]) auto
  qed
qed (simp add: takes_refl)

subsection \<open>Runs\<close>

lemma take_run_ok:
  assumes "arena_ok a" "\<forall>j<m. s + j \<in> set (ar_free_list a)"
  shows "\<exists>a'. take_run m s a l = Some (a', map_option (\<lambda>l. l @ map (Pair (ar_id a)) [s..<s + m]) l)
    \<and> takes1 a (map (Pair (ar_id a)) [s..<s + m]) a'"
  using assms
proof (induction m arbitrary: s a l)
  case 0
  then show ?case
    by (simp add: takes1_refl option.map_id0 option.map_ident)
next
  case (Suc m)
  have free: "s \<in> set (ar_free_list a)"
    using Suc.prems(2) by (metis add_0_right zero_less_Suc)
  obtain p where p: "page_at a s = Some p" "page_is_free p" "pg_node p"
    using free_page_at [OF Suc.prems(1) free] by auto
  define a1 where "a1 = take_page s (p\<lparr>pg_node := (l \<noteq> None), pg_state := VM_PAGE_STATE_ALLOC\<rparr>) a"
  have t1: "takes1 a [(ar_id a, s)] a1"
    unfolding a1_def using Suc.prems(1) free by (intro takes1_page) auto
  then have ok1: "arena_ok a1" and id1: "ar_id a1 = ar_id a"
    by (auto simp: takes1_def same_arena_def)
  have "Suc s + j \<in> set (ar_free_list a1)" if "j < m" for j
    using Suc.prems(2) that by (auto simp: a1_def in_set_remove1 dest: spec [of _ "Suc j"])
  then obtain a' where a': "take_run m (Suc s) a1 (map_option (\<lambda>l. l @ [(ar_id a, s)]) l)
      = Some (a', map_option (\<lambda>l. l @ map (Pair (ar_id a)) [Suc s..<Suc s + m]) (map_option (\<lambda>l. l @ [(ar_id a, s)]) l))"
    "takes1 a1 (map (Pair (ar_id a)) [Suc s..<Suc s + m]) a'"
    using Suc.IH [OF ok1, of "Suc s" "map_option (\<lambda>l. l @ [(ar_id a, s)]) l"] id1 by auto
  have upt: "[s..<s + Suc m] = s # [Suc s..<Suc s + m]"
    by (simp add: upt_conv_Cons)
  have "take_run (Suc m) s a l = take_run m (Suc s) a1 (map_option (\<lambda>l. l @ [(ar_id a, s)]) l)"
    using p by (simp add: a1_def take_page_fold)
  then show ?case
    unfolding upt using a' takes1_trans [OF t1 a'(2)]
    by (intro exI [of _ a']) (simp add: option.map_comp comp_def)
qed

lemma scan_run_ok:
  assumes "arena_ok a" "p + (unat c - unat i) \<le> unat (page_count a)" "unat c < 2 ^ 32"
  shows "\<exists>r. scan_run a c i p = Some r
    \<and> (case r of
         None \<Rightarrow> \<forall>j. p \<le> j \<and> j < p + (unat c - unat i) \<longrightarrow> j \<in> set (ar_free_list a)
       | Some k \<Rightarrow> unat i \<le> unat k \<and> unat k < unat c \<and> p + (unat k - unat i) \<notin> set (ar_free_list a))"
  using assms
proof (induction a c i p rule: scan_run.induct)
  case (1 a c i p)
  show ?case
  proof (cases "unat i < unat c")
    case False
    then show ?thesis
      by (subst scan_run.simps) (auto simp: word_less_nat_alt)
  next
    case True
    then have run: "ucast i < c" "p < length (ar_page_array a)"
      using 1(2,3) by (auto simp: word_less_nat_alt arena_ok_def)
    then have free: "page_is_free (ar_page_array a ! p) \<longleftrightarrow> p \<in> set (ar_free_list a)"
      using 1(2) by (simp add: arena_ok_def)
    show ?thesis
    proof (cases "p \<in> set (ar_free_list a)")
      case False
      then show ?thesis
        using run free True by (subst scan_run.simps) auto
    next
      case member: True
      have i1: "unat (i + 1) = unat i + 1"
        using uint_Suc [OF True 1(4)] .
      have step: "scan_run a c i p = scan_run a c (i + 1) (Suc p)"
        using run free member by (subst scan_run.simps) simp
      have "Suc p + (unat c - unat (i + 1)) \<le> unat (page_count a)"
        using 1(3) True i1 by simp
      then obtain r where r: "scan_run a c (i + 1) (Suc p) = Some r"
        "case r of
           None \<Rightarrow> \<forall>j. Suc p \<le> j \<and> j < Suc p + (unat c - unat (i + 1)) \<longrightarrow> j \<in> set (ar_free_list a)
         | Some k \<Rightarrow> unat (i + 1) \<le> unat k \<and> unat k < unat c
             \<and> Suc p + (unat k - unat (i + 1)) \<notin> set (ar_free_list a)"
        using 1(1) [OF run _ 1(2) _ 1(4)] free member by auto
      show ?thesis
      proof (cases r)
        case None
        have "j \<in> set (ar_free_list a)" if "p \<le> j" "j < p + (unat c - unat i)" for j
          using r(2) that member True unfolding None i1 by (cases "j = p") auto
        then show ?thesis
          using r(1) None step by auto
      next
        case (Some k)
        then show ?thesis
          using r step by (auto simp: i1 Suc_diff_Suc Suc_le_eq)
      qed
    qed
  qed
qed

lemma mask_nat: "k < 64 \<Longrightarrow> unat (mask k :: 64 word) = 2 ^ k - 1"
proof -
  assume "k < 64"
  have "(mask k :: 64 word) = of_nat (2 ^ k - 1)"
    by (simp add: mask_eq_exp_minus_1 of_nat_diff)
  moreover have "(2 :: nat) ^ k - 1 < 2 ^ 64"
    using power_strict_increasing [OF \<open>k < 64\<close>, of "2 :: nat"] by simp
  ultimately show ?thesis
    by (simp only: unat_of_nat) simp
qed

lemma and_not_mask_nat: "unat ((y :: 64 word) AND NOT (mask k)) = unat y div 2 ^ k * 2 ^ k"
proof -
  have round: "y AND NOT (mask k) = push_bit k (drop_bit k y)"
    by (auto simp: bit_eq_iff bit_simps)
  have "unat y div 2 ^ k * 2 ^ k < 2 ^ 64"
    using le_less_trans [OF div_times_less_eq_dividend unsigned_less [of y, where ?'a = nat], of "2 ^ k"] by simp
  then show ?thesis
    unfolding round using unsigned_less [of y, where ?'a = nat]
    by (simp only: unsigned_push_bit_eq unsigned_drop_bit_eq)
      (simp add: push_bit_eq_mult drop_bit_eq_div take_bit_eq_mod)
qed

lemma ROUNDUP_word: "unat (ROUNDUP x (push_bit k 1)) = unat (x + mask k) div 2 ^ k * 2 ^ k"
proof -
  have "push_bit k 1 - 1 = (mask k :: 64 word)"
    by (simp add: mask_eq_exp_minus_1 push_bit_of_1)
  then show ?thesis
    unfolding ROUNDUP_def by (simp only: and_not_mask_nat)
qed

lemma mask_12: "(4096 :: 64 word) - 1 = mask 12"
  by (simp add: mask_eq_exp_minus_1)

lemma ROUNDDOWN_page: "unat (ROUNDDOWN x 4096) = unat x div 4096 * 4096"
  unfolding ROUNDDOWN_def mask_12 and_not_mask_nat by simp

lemma IS_PAGE_ALIGNED_nat: "IS_PAGE_ALIGNED x \<longleftrightarrow> 4096 dvd unat x"
proof -
  have "x AND (4096 - 1) = take_bit 12 x"
    by (simp only: mask_12 take_bit_eq_mask)
  moreover have "unat (take_bit 12 x) = unat x mod 4096"
    by (simp only: unsigned_take_bit_eq take_bit_eq_mod [where ?'a = nat]) simp
  ultimately show ?thesis
    unfolding IS_PAGE_ALIGNED_def by (metis dvd_eq_mod_eq_0 unsigned_0 unsigned_eq_0_iff)
qed

lemma ROUNDUP_nat:
  assumes "k < 64" "unat x + 2 ^ k \<le> 2 ^ 64"
  shows "unat (ROUNDUP x (push_bit k 1)) = (unat x + 2 ^ k - 1) div 2 ^ k * 2 ^ k"
proof -
  have "1 \<le> (2 :: nat) ^ k"
    by simp
  then have "unat (x + mask k) = unat x + 2 ^ k - 1"
    using assms(2) mask_nat [OF assms(1)] by (simp add: unat_word_ariths)
  then show ?thesis
    unfolding ROUNDUP_word by (simp only:)
qed

lemma ROUNDUP_wraps:
  assumes "k < 64" "2 ^ 64 < unat x + 2 ^ k"
  shows "unat (ROUNDUP x (push_bit k 1)) = 0"
proof -
  have x: "unat x < 2 ^ 64"
    using unsigned_less [of x, where ?'a = nat] by simp
  have "unat (x + mask k) = (unat x + (2 ^ k - 1)) mod 2 ^ 64"
    using mask_nat [OF assms(1)] by (simp add: unat_word_ariths)
  also have "unat x + (2 ^ k - 1) = (unat x + 2 ^ k - 1 - 2 ^ 64) + 2 ^ 64"
    using assms(2) by simp
  also have "\<dots> mod 2 ^ 64 = (unat x + 2 ^ k - 1 - 2 ^ 64) mod 2 ^ 64"
    by (rule mod_add_self2)
  also have "\<dots> \<le> unat x + 2 ^ k - 1 - 2 ^ 64"
    by (rule mod_less_eq_dividend)
  also have "\<dots> < 2 ^ k"
    using x assms(2) by simp
  finally show ?thesis
    unfolding ROUNDUP_word by simp
qed

definition run_free :: "pmm_arena \<Rightarrow> nat \<Rightarrow> nat \<Rightarrow> bool" where
  "run_free a m s \<longleftrightarrow> s + m \<le> unat (page_count a) \<and> (\<forall>j<m. s + j \<in> set (ar_free_list a))"

text \<open>The least multiple of \<^verbatim>\<open>d\<close> that is at least \<^verbatim>\<open>r\<close>.\<close>

lemma round_up_bounds:
  fixes r d :: nat
  assumes "0 < d"
  shows "r \<le> (r + d - 1) div d * d" "(r + d - 1) div d * d \<le> r + d - 1"
    "d dvd m \<Longrightarrow> m < (r + d - 1) div d * d \<Longrightarrow> m < r"
proof -
  have eq: "(r + d - 1) div d * d + (r + d - 1) mod d = r + d - 1"
    by simp
  have rem: "(r + d - 1) mod d \<le> d - 1"
    using assms by (metis One_nat_def Suc_leI Suc_pred mod_less_divisor less_Suc_eq_le)
  show "r \<le> (r + d - 1) div d * d" "(r + d - 1) div d * d \<le> r + d - 1"
    using eq rem assms by linarith+
  show "m < r" if "d dvd m" "m < (r + d - 1) div d * d"
  proof -
    obtain q where q: "m = q * d"
      using \<open>d dvd m\<close> by (metis dvd_div_mult_self)
    then have "q < (r + d - 1) div d"
      using that(2) assms by simp
    then have "(q + 1) * d \<le> (r + d - 1) div d * d"
      by (intro mult_le_mono1) simp
    then have "q * d + d \<le> r + d - 1"
      using div_times_less_eq_dividend [of "r + d - 1" d] unfolding add_mult_distrib nat_mult_1 by (rule order_trans)
    then show ?thesis
      unfolding q using assms by linarith
  qed
qed

lemma next_start_nat:
  fixes start off :: "64 word" and i :: u32
  assumes "unat off \<le> unat start" "unat start < 2 ^ 52" "k < 52"
  shows "unat (ROUNDUP (start - off + ucast i + 1) (push_bit k 1) + off)
      = (unat start - unat off + unat i + 1 + 2 ^ k - 1) div 2 ^ k * 2 ^ k + unat off"
    "unat (ROUNDUP (start - off + ucast i + 1) (push_bit k 1) + off) < 2 ^ 54"
proof -
  have pow: "(2 :: nat) ^ k \<le> 2 ^ 52"
    using assms(3) by (intro power_increasing) auto
  have i: "unat i < 2 ^ 32"
    using unsigned_less [of i, where ?'a = nat] by simp
  have "unat (start - off) = unat start - unat off"
    using assms(1) by (simp add: unat_sub word_le_nat_alt)
  then have r: "unat (start - off + ucast i + 1) = unat start - unat off + unat i + 1"
    using assms(2) i by (simp add: unat_word_ariths)
  then have up: "unat (ROUNDUP (start - off + ucast i + 1) (push_bit k 1))
      = (unat start - unat off + unat i + 1 + 2 ^ k - 1) div 2 ^ k * 2 ^ k"
    using assms(2,3) i pow by (subst ROUNDUP_nat) auto
  define R where "R = (unat start - unat off + unat i + 1 + 2 ^ k - 1) div 2 ^ k * 2 ^ k"
  have "R \<le> unat start - unat off + unat i + 1 + 2 ^ k - 1"
    unfolding R_def by (rule round_up_bounds(2)) simp
  then have lt: "R + unat off < 2 ^ 54"
    using assms(1,2) i pow by simp
  have "unat (y + off) = unat y + unat off" if "unat y + unat off < 2 ^ 54" for y
    using that by (simp add: unat_word_ariths)
  from this [of "ROUNDUP (start - off + ucast i + 1) (push_bit k 1)"]
  have "unat (ROUNDUP (start - off + ucast i + 1) (push_bit k 1) + off) = R + unat off"
    using lt unfolding up R_def [symmetric] by blast
  with lt show "unat (ROUNDUP (start - off + ucast i + 1) (push_bit k 1) + off)
      = (unat start - unat off + unat i + 1 + 2 ^ k - 1) div 2 ^ k * 2 ^ k + unat off"
    "unat (ROUNDUP (start - off + ucast i + 1) (push_bit k 1) + off) < 2 ^ 54"
    unfolding R_def [symmetric] by (simp_all only:)
qed

text \<open>A run that starts between a broken run and the next start holds the page that broke the first.\<close>

lemma skipped_run_broken:
  fixes s start off i m d :: nat
  assumes "0 < d" "off \<le> start" "i < m" "start \<le> s" "d dvd s - off"
    and "s < (start - off + i + 1 + d - 1) div d * d + off" "start + i \<notin> set (ar_free_list a)"
  shows "\<not> run_free a m s"
proof -
  have "s - off < (start - off + i + 1 + d - 1) div d * d"
    using assms(6) less_diff_conv2 [OF order_trans [OF assms(2,4)]] by simp
  then have "s - off < start - off + i + 1"
    by (rule round_up_bounds(3) [OF assms(1,5)])
  then have "s \<le> start + i"
    using assms(2,4) by linarith
  then have "s + (start + i - s) = start + i" "start + i - s < m"
    using assms(3,4) by linarith+
  then show ?thesis
    using assms(7) unfolding run_free_def by metis
qed

lemma page_count_small: "unat (page_count a) < 2 ^ 52"
  using unsigned_less [of "ar_size a", where ?'a = nat] by (simp add: page_count_nat)

lemma search_run_ok:
  assumes ok: "arena_ok a" and c: "unat c < 2 ^ 32" and k: "align_log2 < 64"
    and start: "unat off \<le> unat start" "2 ^ (align_log2 - 12) dvd unat start - unat off" "unat start < 2 ^ 54"
  shows "\<exists>r. search_run a c align_log2 off start = Some r
    \<and> (case r of
         None \<Rightarrow> \<forall>s\<ge>unat start. 2 ^ (align_log2 - 12) dvd s - unat off \<longrightarrow> 0 < unat c \<longrightarrow> \<not> run_free a (unat c) s
       | Some t \<Rightarrow> unat off \<le> unat t \<and> 2 ^ (align_log2 - 12) dvd unat t - unat off \<and> run_free a (unat c) (unat t))"
  using start
proof (induction "unat (page_count a) - unat start" arbitrary: start rule: less_induct)
  case less
  have sum: "unat (start + c) = unat start + unat c"
    using less.prems(3) c by (simp add: unat_word_ariths)
  show ?case
  proof (cases "unat start < unat (page_count a) \<and> unat start + unat c \<le> unat (page_count a)")
    case False
    then have "search_run a c align_log2 off start = Some None"
      using sum by (subst search_run.simps) (auto simp: word_less_nat_alt word_le_nat_alt)
    moreover have "\<not> run_free a (unat c) s" if "unat start \<le> s" "0 < unat c" for s
      using False that by (auto simp: run_free_def)
    ultimately show ?thesis
      by auto
  next
    case True
    then have guard: "start < page_count a" "start + c \<le> page_count a"
      using sum by (auto simp: word_less_nat_alt word_le_nat_alt)
    obtain r where r: "scan_run a c 0 (unat start) = Some r"
      "case r of
         None \<Rightarrow> \<forall>j. unat start \<le> j \<and> j < unat start + unat c \<longrightarrow> j \<in> set (ar_free_list a)
       | Some i \<Rightarrow> 0 \<le> unat i \<and> unat i < unat c \<and> unat start + unat i \<notin> set (ar_free_list a)"
      using scan_run_ok [OF ok, of "unat start" c 0] True c unfolding unsigned_0 diff_zero by auto
    show ?thesis
    proof (cases r)
      case None
      then have "search_run a c align_log2 off start = Some (Some start)"
        using guard r(1) by (subst search_run.simps) simp
      moreover have "run_free a (unat c) (unat start)"
        using r(2) None True by (simp add: run_free_def)
      ultimately show ?thesis
        using less.prems by (intro exI [of _ "Some start"]) simp
    next
      case (Some i)
      define s' where "s' = ROUNDUP (start - off + ucast i + 1) (push_bit (align_log2 - 12) 1) + off"
      have step: "search_run a c align_log2 off start = search_run a c align_log2 off s'"
        using guard r(1) Some s'_def by (subst search_run.simps) simp
      have nat: "unat s' = (unat start - unat off + unat i + 1 + 2 ^ (align_log2 - 12) - 1)
          div 2 ^ (align_log2 - 12) * 2 ^ (align_log2 - 12) + unat off" and s54: "unat s' < 2 ^ 54"
        unfolding s'_def using True k page_count_small [of a] less.prems(1)
        by (intro next_start_nat; linarith)+
      have dvd: "2 ^ (align_log2 - 12) dvd unat s' - unat off" "unat off \<le> unat s'"
        unfolding nat by simp_all
      have "unat start - unat off + unat i + 1 \<le> unat s' - unat off"
        unfolding nat by (simp only: add_diff_cancel_right') (rule round_up_bounds(1), simp)
      then have gt: "unat start < unat s'"
        using less.prems(1) dvd(2) by linarith
      have "unat (page_count a) - unat s' < unat (page_count a) - unat start"
        using gt True by linarith
      from less.hyps [OF this dvd(2,1) s54] obtain q where
        q: "search_run a c align_log2 off s' = Some q"
        "case q of
           None \<Rightarrow> \<forall>s\<ge>unat s'. 2 ^ (align_log2 - 12) dvd s - unat off \<longrightarrow> 0 < unat c \<longrightarrow> \<not> run_free a (unat c) s
         | Some t \<Rightarrow> unat off \<le> unat t \<and> 2 ^ (align_log2 - 12) dvd unat t - unat off \<and> run_free a (unat c) (unat t)"
        by blast
      have "\<not> run_free a (unat c) s"
        if "unat start \<le> s" "s < unat s'" "2 ^ (align_log2 - 12) dvd s - unat off" for s
        using r(2) that less.prems(1) unfolding Some nat
        by (intro skipped_run_broken [of "2 ^ (align_log2 - 12)" "unat off" "unat start" "unat i"]) auto
      then show ?thesis
        using q unfolding step
        by (intro exI [of _ q]) (auto split: option.splits simp: not_less [symmetric])
    qed
  qed
qed

subsection \<open>Alignment boundaries of an arena\<close>

definition aligned_run :: "nat \<Rightarrow> pmm_arena \<Rightarrow> nat \<Rightarrow> nat \<Rightarrow> bool" where
  "aligned_run align_log2 a m s \<longleftrightarrow> run_free a m s \<and> 2 ^ align_log2 dvd unat (ar_base a) + s * 4096"

text \<open>The least multiple of the alignment that is not below the base.\<close>

definition first_boundary :: "nat \<Rightarrow> pmm_arena \<Rightarrow> nat" where
  "first_boundary align_log2 a = (unat (ar_base a) + 2 ^ align_log2 - 1) div 2 ^ align_log2 * 2 ^ align_log2"

lemma first_boundary_le:
  assumes "2 ^ k dvd x" "unat (ar_base a) \<le> x"
  shows "first_boundary k a \<le> x"
  using round_up_bounds(3) [of "2 ^ k" x "unat (ar_base a)"] assms unfolding first_boundary_def
  by (metis leI not_less zero_less_numeral zero_less_power)

lemma first_boundary_ge: "unat (ar_base a) \<le> first_boundary k a" "2 ^ k dvd first_boundary k a"
  unfolding first_boundary_def by (rule round_up_bounds(1)) simp_all

lemma rounded_base_cases:
  assumes "k < 64"
  shows "unat (rounded_base k a) = first_boundary k a
    \<or> rounded_base k a < ar_base a \<and> 2 ^ 64 \<le> first_boundary k a"
proof (cases "unat (ar_base a) + 2 ^ k \<le> 2 ^ 64")
  case True
  then show ?thesis
    unfolding rounded_base_def first_boundary_def by (intro disjI1 ROUNDUP_nat [OF assms])
next
  case False
  then have wrap: "2 ^ 64 < unat (ar_base a) + 2 ^ k"
    by simp
  have "(2 :: nat) ^ k < 2 ^ 64"
    using assms by (intro power_strict_increasing) auto
  then have "0 < unat (ar_base a)"
    using wrap by simp
  then have "rounded_base k a < ar_base a"
    using ROUNDUP_wraps [OF assms wrap] by (simp only: rounded_base_def word_less_nat_alt)
  moreover have "2 ^ 64 \<le> first_boundary k a"
  proof (rule ccontr)
    assume below: "\<not> 2 ^ 64 \<le> first_boundary k a"
    have "(2 :: nat) ^ k dvd 2 ^ 64 - first_boundary k a"
      using assms first_boundary_ge(2) [of k a] by (intro dvd_diff_nat le_imp_power_dvd) auto
    then have "(2 :: nat) ^ k \<le> 2 ^ 64 - first_boundary k a"
      using below by (intro dvd_imp_le) auto
    then show False
      using wrap first_boundary_ge(1) [of a k] below by linarith
  qed
  ultimately show ?thesis
    by blast
qed

lemma no_boundary_no_run:
  assumes "arena_ok a" "0 < m" "unat (ar_base a) + unat (ar_size a) \<le> first_boundary k a"
  shows "\<not> aligned_run k a m s"
proof
  assume run: "aligned_run k a m s"
  have "s < unat (page_count a)"
    using run assms(2) by (auto simp: aligned_run_def run_free_def)
  then have "unat (ar_base a) + s * 4096 < unat (ar_base a) + unat (ar_size a)"
    using page_address_nat(2) [of a s] assms(1) by (simp add: arena_ok_def)
  moreover have "first_boundary k a \<le> unat (ar_base a) + s * 4096"
    using run by (intro first_boundary_le) (auto simp: aligned_run_def)
  ultimately show False
    using assms(3) by linarith
qed

text \<open>Index arithmetic: a page is aligned exactly when its distance from the first boundary is.\<close>

lemma aligned_index:
  assumes "arena_range a" "12 \<le> k"
  defines "off \<equiv> (first_boundary k a - unat (ar_base a)) div 4096"
  shows "2 ^ k dvd unat (ar_base a) + s * 4096 \<longleftrightarrow> off \<le> s \<and> 2 ^ (k - 12) dvd s - off"
proof -
  have pow: "(2 :: nat) ^ k = 2 ^ (k - 12) * 4096"
    using power_add [of "2 :: nat" "k - 12" 12] assms(2) by simp
  have "4096 dvd first_boundary k a"
    using first_boundary_ge(2) [of k a] pow by (metis dvd_mult_right)
  then have "4096 dvd first_boundary k a - unat (ar_base a)"
    using assms(1) by (intro dvd_diff_nat) (auto simp: arena_range_def)
  then have off: "unat (ar_base a) + off * 4096 = first_boundary k a"
    using first_boundary_ge(1) [of a k] unfolding off_def by simp
  have iff: "2 ^ k dvd unat (ar_base a) + s * 4096 \<longleftrightarrow> 2 ^ (k - 12) dvd s - off" if "off \<le> s"
  proof -
    have "unat (ar_base a) + s * 4096 = first_boundary k a + (s - off) * 4096"
      using that off by (simp add: diff_mult_distrib)
    then have "2 ^ k dvd unat (ar_base a) + s * 4096 \<longleftrightarrow> 2 ^ k dvd (s - off) * 4096"
      using first_boundary_ge(2) [of k a] by (simp add: dvd_add_right_iff)
    then show ?thesis
      unfolding pow by simp
  qed
  have "off \<le> s" if "2 ^ k dvd unat (ar_base a) + s * 4096"
    using first_boundary_le [OF that, of a] off by simp
  then show ?thesis
    using iff by blast
qed

text \<open>One arena of \<^verbatim>\<open>pmm_alloc_contiguous\<close>: the search finds an aligned run when there is one.\<close>

lemma arena_search_ok:
  assumes ok: "arena_ok a" and c: "0 < unat c" "unat c < 2 ^ 32" and k: "12 \<le> k" "k < 64"
    and here: "\<not> rounded_base k a < ar_base a" "\<not> rounded_base k a > ar_base a + ar_size a - 1"
  defines "off \<equiv> (rounded_base k a - ar_base a) div 4096"
  shows "\<exists>r. search_run a c k off off = Some r
    \<and> (case r of None \<Rightarrow> \<forall>s. \<not> aligned_run k a (unat c) s | Some t \<Rightarrow> aligned_run k a (unat c) (unat t))"
proof -
  have range: "arena_range a"
    using ok by (simp add: arena_ok_def)
  have rb: "unat (rounded_base k a) = first_boundary k a"
    using rounded_base_cases [OF k(2)] here(1) by blast
  have off: "unat off = (first_boundary k a - unat (ar_base a)) div 4096"
    using here(1) rb unfolding off_def by (simp add: unat_div unat_sub)
  have "unat off < 2 ^ 54"
    using unsigned_less [of "rounded_base k a", where ?'a = nat] rb unfolding off by simp
  moreover have "aligned_run k a (unat c) s
      \<longleftrightarrow> unat off \<le> s \<and> 2 ^ (k - 12) dvd s - unat off \<and> run_free a (unat c) s" for s
    using aligned_index [OF range k(1), of s] unfolding off aligned_run_def by blast
  ultimately show ?thesis
    using search_run_ok [OF ok c(2) k(2), of off off] c(1)
    by (auto split: option.splits)
qed

lemma arena_skip_ok:
  assumes ok: "arena_ok a" and c: "0 < m" and k: "k < 64"
    and away: "rounded_base k a < ar_base a \<or> rounded_base k a > ar_base a + ar_size a - 1"
  shows "\<not> aligned_run k a m s"
proof (rule no_boundary_no_run [OF ok c])
  have range: "arena_range a"
    using ok by (simp add: arena_ok_def)
  show "unat (ar_base a) + unat (ar_size a) \<le> first_boundary k a"
    using rounded_base_cases [OF k, of a]
  proof (elim disjE)
    assume rb: "unat (rounded_base k a) = first_boundary k a"
    then have "\<not> rounded_base k a < ar_base a"
      using first_boundary_ge(1) [of a k] by (simp add: word_less_nat_alt)
    then have "unat (ar_base a) + unat (ar_size a) - 1 < first_boundary k a"
      using away arena_end_nat [OF range] rb by (simp add: word_less_nat_alt)
    then show ?thesis
      by linarith
  next
    assume "rounded_base k a < ar_base a \<and> 2 ^ 64 \<le> first_boundary k a"
    then show ?thesis
      using range unfolding arena_range_def by linarith
  qed
qed

lemma contiguous_walk_ok:
  assumes "pmm_ok as" "0 < unat c" "unat c < 2 ^ 32" "12 \<le> k" "k < 64"
  shows "\<exists>r as' l'. contiguous_walk c fl k l as = Some (r, as', l')
    \<and> (case r of
         None \<Rightarrow> as' = as \<and> l' = l \<and> (\<forall>a\<in>set as. \<not> skip_arena fl a \<longrightarrow> (\<forall>s. \<not> aligned_run k a (unat c) s))
       | Some pa \<Rightarrow> \<exists>a\<in>set as. \<exists>s. \<not> skip_arena fl a \<and> aligned_run k a (unat c) s
           \<and> pa = ar_base a + of_nat s * 4096
           \<and> l' = map_option (\<lambda>l. l @ map (Pair (ar_id a)) [s..<s + unat c]) l
           \<and> takes as (map (Pair (ar_id a)) [s..<s + unat c]) as')"
  using assms
proof (induction as)
  case (Cons a as)
  let ?new = "\<lambda>a s. map (Pair (ar_id a)) [s..<s + unat c]"
  have oka: "arena_ok a"
    using Cons.prems by simp
  obtain r as' l' where IH: "contiguous_walk c fl k l as = Some (r, as', l')"
    "case r of
         None \<Rightarrow> as' = as \<and> l' = l \<and> (\<forall>a\<in>set as. \<not> skip_arena fl a \<longrightarrow> (\<forall>s. \<not> aligned_run k a (unat c) s))
       | Some pa \<Rightarrow> \<exists>a\<in>set as. \<exists>s. \<not> skip_arena fl a \<and> aligned_run k a (unat c) s
           \<and> pa = ar_base a + of_nat s * 4096
           \<and> l' = map_option (\<lambda>l. l @ map (Pair (ar_id a)) [s..<s + unat c]) l
           \<and> takes as (map (Pair (ar_id a)) [s..<s + unat c]) as'"
    using Cons by auto
  have next_arena: ?case
    if "contiguous_walk c fl k l (a # as) = Some (r, a # as', l')"
      "skip_arena fl a \<or> (\<forall>s. \<not> aligned_run k a (unat c) s)"
  proof (cases r)
    case None
    then show ?thesis
      using IH(2) that by (intro exI [of _ r] exI [of _ "a # as'"] exI [of _ l']) auto
  next
    case (Some pa)
    then obtain b s where b: "b \<in> set as" "\<not> skip_arena fl b" "aligned_run k b (unat c) s"
      "pa = ar_base b + of_nat s * 4096" "l' = map_option (\<lambda>l. l @ ?new b s) l" "takes as (?new b s) as'"
      using IH(2) by auto
    then show ?thesis
      using that Some takes_tail [OF Cons.prems(1) b(6)]
      by (intro exI [of _ r] exI [of _ "a # as'"] exI [of _ l']) (auto intro!: bexI [of _ b] exI [of _ s])
  qed
  show ?case
  proof (cases "skip_arena fl a \<or> rounded_base k a < ar_base a \<or> rounded_base k a > ar_base a + ar_size a - 1")
    case True
    then show ?thesis
      using IH(1) arena_skip_ok [OF oka Cons.prems(2,5)] by (intro next_arena) auto
  next
    case False
    define off where "off = (rounded_base k a - ar_base a) div 4096"
    obtain q where q: "search_run a c k off off = Some q"
      "case q of None \<Rightarrow> \<forall>s. \<not> aligned_run k a (unat c) s | Some t \<Rightarrow> aligned_run k a (unat c) (unat t)"
      using arena_search_ok [OF oka Cons.prems(2-5)] False off_def by blast
    show ?thesis
    proof (cases q)
      case None
      then show ?thesis
        using IH(1) q False off_def by (intro next_arena) (auto simp: Let_def)
    next
      case (Some t)
      then have run: "aligned_run k a (unat c) (unat t)"
        using q(2) by simp
      then obtain a' where a': "take_run (unat c) (unat t) a l = Some (a', map_option (\<lambda>l. l @ ?new a (unat t)) l)"
        "takes1 a (?new a (unat t)) a'"
        using take_run_ok [OF oka, of "unat c" "unat t" l] by (auto simp: aligned_run_def run_free_def)
      have "ar_base a' = ar_base a"
        using a'(2) by (simp add: takes1_def same_arena_def)
      then have "contiguous_walk c fl k l (a # as)
          = Some (Some (ar_base a + t * 4096), a' # as, map_option (\<lambda>l. l @ ?new a (unat t)) l)"
        using q(1) Some False a'(1) off_def by (simp add: Let_def)
      then show ?thesis
        using run False takes_head [OF Cons.prems(1) a'(2)] by (auto intro!: exI [of _ "unat t"])
    qed
  qed
qed simp

section \<open>What freeing gives back\<close>

lemma all_pages_simps [simp]:
  "all_pages [] = {}" "all_pages (a # as) = Pair (ar_id a) ` {..<unat (page_count a)} \<union> all_pages as"
  by (simp_all add: all_pages_def)

lemma all_pages_ids: "p \<in> all_pages as \<Longrightarrow> fst p \<in> ar_id ` set as"
  by (auto simp: all_pages_def)

lemma allocated_page:
  assumes "pmm_ok as" "p \<in> all_pages as" "p \<notin> free_pages as"
  obtains page where "deref p as = Some page" "\<not> page_is_free page"
proof -
  have "\<exists>page. deref p as = Some page \<and> \<not> page_is_free page"
    using assms
  proof (induction as)
    case (Cons a as)
    show ?case
    proof (cases "fst p = ar_id a")
      case True
      then have "p \<notin> all_pages as"
        using Cons.prems(1) all_pages_ids [of p as] by auto
      then have "snd p < unat (page_count a)" "snd p \<notin> set (ar_free_list a)"
        using Cons.prems True by (auto simp: afree_def)
      then show ?thesis
        using Cons.prems(1) True by (auto simp: arena_ok_def page_at_def)
    next
      case False
      then show ?thesis
        using Cons by auto
    qed
  qed simp
  then show ?thesis
    using that by blast
qed

lemma return_page_ok:
  assumes "pmm_ok as" "p \<in> all_pages as" "p \<notin> free_pages as"
  shows "\<exists>as'. return_page p as = (True, as') \<and> list_all2 same_arena as as' \<and> pmm_ok as'
    \<and> free_pages as' = insert p (free_pages as)"
  using assms
proof (induction as)
  case (Cons a as)
  show ?case
  proof (cases "PAGE_BELONGS_TO_ARENA p a")
    case True
    define a1 where "a1 = set_page (snd p) ((ar_page_array a ! snd p)\<lparr>pg_node := True, pg_state := VM_PAGE_STATE_FREE\<rparr>) a
      \<lparr>ar_free_list := snd p # ar_free_list a, ar_free_count := ar_free_count a + 1\<rparr>"
    have "snd p \<notin> set (ar_free_list a)"
      using True Cons.prems(3) by (cases p) (auto simp: PAGE_BELONGS_TO_ARENA_def afree_def)
    then have "arena_ok a1"
      unfolding a1_def using Cons.prems(1) True
      by (intro give_page_ok) (auto simp: PAGE_BELONGS_TO_ARENA_def page_is_free_def)
    moreover have "ar_id a1 = ar_id a" "same_arena a a1" "afree a1 = insert p (afree a)"
      using True by (cases p; auto simp: a1_def same_arena_def afree_def PAGE_BELONGS_TO_ARENA_def)+
    ultimately show ?thesis
      using True Cons.prems(1) a1_def by (auto simp: list_all2_refl)
  next
    case False
    then have "p \<in> all_pages as" "p \<notin> free_pages as"
      using Cons.prems(2,3) by (auto simp: PAGE_BELONGS_TO_ARENA_def)
    then obtain as' where IH: "return_page p as = (True, as')" "list_all2 same_arena as as'" "pmm_ok as'"
      "free_pages as' = insert p (free_pages as)"
      using Cons by auto
    have "ar_id ` set as' = ar_id ` set as"
      using same_arenas(1) [OF IH(2)] by (metis list.set_map)
    then show ?thesis
      using False IH Cons.prems(1) by auto
  qed
qed simp

lemma list_all2_same_trans:
  "list_all2 same_arena as bs \<Longrightarrow> list_all2 same_arena bs cs \<Longrightarrow> list_all2 same_arena as cs"
  by (rule list_all2_trans [of same_arena same_arena]) (auto simp: same_arena_def)

lemma pmm_free_ok:
  assumes "pmm_ok as" "distinct l" "set l \<subseteq> all_pages as - free_pages as"
  shows "\<exists>as'. pmm_free l as = Some (of_nat (length l), as') \<and> list_all2 same_arena as as' \<and> pmm_ok as'
    \<and> free_pages as' = free_pages as \<union> set l"
  using assms
proof (induction l arbitrary: as)
  case Nil
  then show ?case
    by (simp add: list_all2_refl)
next
  case (Cons p l)
  obtain page where page: "deref p as = Some page" "\<not> page_is_free page"
    using allocated_page [of as p] Cons.prems by auto
  obtain as1 where 1: "return_page p as = (True, as1)" "list_all2 same_arena as as1" "pmm_ok as1"
    "free_pages as1 = insert p (free_pages as)"
    using return_page_ok [of as p] Cons.prems by auto
  have "set l \<subseteq> all_pages as1 - free_pages as1"
    using Cons.prems(2,3) 1 same_arenas(2) [OF 1(2)] by auto
  then obtain as' where 2: "pmm_free l as1 = Some (of_nat (length l), as')" "list_all2 same_arena as1 as'"
    "pmm_ok as'" "free_pages as' = free_pages as1 \<union> set l"
    using Cons.IH [OF 1(3)] Cons.prems(2) by auto
  show ?case
    using page 1 2 list_all2_same_trans [OF 1(2) 2(2)] by auto
qed

section \<open>New arenas\<close>

lemma add_free_pages_all:
  "same_arena a (add_free_pages n i a) \<and> ar_free_list (add_free_pages n i a) = ar_free_list a @ [i..<i + n]
    \<and> ar_free_count (add_free_pages n i a) = ar_free_count a + of_nat n
    \<and> length (ar_page_array (add_free_pages n i a)) = length (ar_page_array a)"
proof (induction n arbitrary: i a)
  case (Suc n)
  show ?case
    using Suc [where i = "Suc i"] upt_conv_Cons [of i "i + Suc n"] by (simp add: same_arena_def algebra_simps)
qed simp

lemmas add_free_pages_sel = add_free_pages_all [THEN conjunct1] add_free_pages_all [THEN conjunct2, THEN conjunct1]
  add_free_pages_all [THEN conjunct2, THEN conjunct2, THEN conjunct1]
  add_free_pages_all [THEN conjunct2, THEN conjunct2, THEN conjunct2]

lemma add_free_pages_nth:
  assumes "i + n \<le> length (ar_page_array a)" "j < length (ar_page_array a)"
  shows "ar_page_array (add_free_pages n i a) ! j
    = (if i \<le> j \<and> j < i + n then (ar_page_array a ! j)\<lparr>pg_node := True\<rparr> else ar_page_array a ! j)"
  using assms
proof (induction n arbitrary: i a)
  case (Suc n)
  then show ?case
    by (cases "j = i") (auto simp: nth_list_update)
qed auto

lemma init_arena_ok:
  assumes "arena_range a"
  shows "arena_ok (init_arena a)" "same_arena a (init_arena a)"
    "afree (init_arena a) = Pair (ar_id a) ` {..<unat (page_count a)}"
proof -
  let ?z = "a\<lparr>ar_free_count := 0, ar_free_list := [], ar_page_array := replicate (unat (page_count a)) zero_page\<rparr>"
  let ?n = "unat (page_count a)"
  show same: "same_arena a (init_arena a)"
    using add_free_pages_sel(1) [of ?z ?n 0] by (simp add: init_arena_def same_arena_def)
  have lists: "ar_free_list (init_arena a) = [0..<?n]" "ar_free_count (init_arena a) = of_nat ?n"
    "length (ar_page_array (init_arena a)) = ?n"
    using add_free_pages_sel(2-4) [of ?n 0 ?z] by (simp_all add: init_arena_def)
  show "afree (init_arena a) = Pair (ar_id a) ` {..<?n}"
    using same lists(1) by (auto simp: afree_def same_arena_def)
  have "ar_page_array (init_arena a) ! j = zero_page\<lparr>pg_node := True\<rparr>" if "j < ?n" for j
    using add_free_pages_nth [of 0 ?n ?z j] that by (simp add: init_arena_def)
  moreover have "page_count (init_arena a) = page_count a" "arena_range (init_arena a)"
    using same assms by (simp_all add: same_arena_def page_count_def arena_range_def)
  ultimately show "arena_ok (init_arena a)"
    using lists by (auto simp: arena_ok_def page_is_free_def zero_page_def)
qed

lemma add_by_priority_set [simp]: "set (add_by_priority r as) = insert r (set as)"
  by (induction as) auto

lemma add_by_priority_ids:
  "distinct (map ar_id (add_by_priority r as)) \<longleftrightarrow> ar_id r \<notin> ar_id ` set as \<and> distinct (map ar_id as)"
  by (induction as) auto

lemma pmm_add_arena_ok:
  assumes "pmm_ok as" "pmm_add_arena r as = Some (e, as')" "ar_id r \<notin> ar_id ` set as"
    and "unat (ar_base r) + unat (ar_size r) \<le> 2 ^ 64"
  shows "pmm_ok as'" "free_pages as' = free_pages as \<union> Pair (ar_id r) ` {..<unat (page_count r)}"
    "all_pages as' = all_pages as \<union> Pair (ar_id r) ` {..<unat (page_count r)}"
proof -
  have as': "as' = add_by_priority (init_arena r) as" and range: "arena_range r"
    using assms(2,4) by (auto simp: pmm_add_arena_def arena_range_def IS_PAGE_ALIGNED_nat word_less_nat_alt)
  note new = init_arena_ok [OF range]
  have same: "ar_id (init_arena r) = ar_id r" "page_count (init_arena r) = page_count r"
    using new(2) by (simp_all add: same_arena_def page_count_def)
  show "pmm_ok as'"
    using assms(1,3) new(1) same(1) by (auto simp: as' pmm_ok_def add_by_priority_ids)
  show "free_pages as' = free_pages as \<union> Pair (ar_id r) ` {..<unat (page_count r)}"
    using new(3) by (auto simp: as' free_pages_def)
  show "all_pages as' = all_pages as \<union> Pair (ar_id r) ` {..<unat (page_count r)}"
    using same by (auto simp: as' all_pages_def)
qed

section \<open>Runs of the allocator\<close>

text \<open>
  The states that arenas and clients reach: the arenas, and the pages that clients hold. A client
  frees only pages that are held, each once, and a new arena is a structure of its own whose range
  does not run past the end of the address space.
\<close>

inductive pmm_reach :: "pmm_arena list \<Rightarrow> vm_page_ptr list \<Rightarrow> bool" where
  reach_start: "pmm_reach [] []"
| reach_arena: "pmm_reach as held \<Longrightarrow> ar_id r \<notin> ar_id ` set as \<Longrightarrow>
    unat (ar_base r) + unat (ar_size r) \<le> 2 ^ 64 \<Longrightarrow> pmm_add_arena r as = Some (e, as') \<Longrightarrow> pmm_reach as' held"
| reach_page: "pmm_reach as held \<Longrightarrow> pmm_alloc_page fl as = Some (Some (p, pa), as') \<Longrightarrow> pmm_reach as' (p # held)"
| reach_no_page: "pmm_reach as held \<Longrightarrow> pmm_alloc_page fl as = Some (None, as') \<Longrightarrow> pmm_reach as' held"
| reach_pages: "pmm_reach as held \<Longrightarrow> pmm_alloc_pages count fl [] as = Some (n, as', l) \<Longrightarrow> pmm_reach as' (l @ held)"
| reach_range: "pmm_reach as held \<Longrightarrow> pmm_alloc_range x count [] as = Some (n, as', l) \<Longrightarrow> pmm_reach as' (l @ held)"
| reach_run: "pmm_reach as held \<Longrightarrow> unat count < 2 ^ 32 \<Longrightarrow>
    pmm_alloc_contiguous count fl align_log2 (Some []) as = Some (n, r, as', Some l) \<Longrightarrow> pmm_reach as' (l @ held)"
| reach_free: "pmm_reach as held \<Longrightarrow> distinct l \<Longrightarrow> set l \<subseteq> set held \<Longrightarrow> pmm_free l as = Some (n, as') \<Longrightarrow>
    pmm_reach as' (filter (\<lambda>p. p \<notin> set l) held)"

definition held_ok :: "pmm_arena list \<Rightarrow> vm_page_ptr list \<Rightarrow> bool" where
  "held_ok as held \<longleftrightarrow> pmm_ok as \<and> distinct held \<and> set held \<inter> free_pages as = {}
    \<and> set held \<union> free_pages as = all_pages as"

lemma held_takes:
  assumes "held_ok as held" "takes as new as'"
  shows "held_ok as' (new @ held)"
  using assms takes_ok [of as new as'] takes_all [OF assms(2)]
  by (auto simp: held_ok_def takes_def)

lemma held_arena:
  assumes "held_ok as held" "ar_id r \<notin> ar_id ` set as" "pmm_ok as'"
    and "free_pages as' = free_pages as \<union> Pair (ar_id r) ` {..<n}" "all_pages as' = all_pages as \<union> Pair (ar_id r) ` {..<n}"
  shows "held_ok as' held"
proof -
  have "p \<notin> Pair (ar_id r) ` {..<n}" if "p \<in> set held" for p
  proof -
    have "p \<in> all_pages as"
      using that assms(1) by (auto simp: held_ok_def)
    then show ?thesis
      using all_pages_ids [of p as] assms(2) by auto
  qed
  then show ?thesis
    using assms by (auto simp: held_ok_def)
qed

lemma pmm_alloc_pages_ok:
  assumes "pmm_ok as"
  shows "\<exists>n as' new. pmm_alloc_pages c fl l as = Some (n, as', l @ new) \<and> takes as new as'
    \<and> (unat c < 2 ^ 32 \<longrightarrow> unat n = length new \<and> unat n \<le> unat c
        \<and> (unat n = unat c \<or> (\<forall>a\<in>set as'. skip_arena fl a \<or> ar_free_list a = [])))"
proof (cases "c = 0")
  case True
  then show ?thesis
    using takes_refl [OF assms] by (simp add: pmm_alloc_pages_def)
next
  case False
  obtain n as' new where w: "alloc_pages_walk c fl 0 as l = Some (n, as', l @ new)" "takes as new as'"
    "unat c < 2 ^ 32 \<longrightarrow> unat n = length new \<and> unat n \<le> unat c
        \<and> (unat n = unat c \<or> (\<forall>a\<in>set as'. skip_arena fl a \<or> ar_free_list a = []))"
    using alloc_pages_walk_ok [OF assms, of c fl 0 l] by auto
  then show ?thesis
    using False
    by (intro exI [of _ "ucast n"] exI [of _ as'] exI [of _ new]) (auto simp: pmm_alloc_pages_def)
qed

lemma pmm_alloc_range_ok:
  assumes "pmm_ok as"
  shows "\<exists>n as' new. pmm_alloc_range x c l as = Some (n, as', l @ new) \<and> takes as new as'
    \<and> map (\<lambda>p. vm_page_to_paddr p as) new = page_addrs (ROUNDDOWN x 4096) (length new)
    \<and> (unat c < 2 ^ 32 \<longrightarrow> unat n = length new \<and> unat n \<le> unat c)"
proof (cases "c = 0")
  case True
  then show ?thesis
    using takes_refl [OF assms] by (simp add: pmm_alloc_range_def)
next
  case False
  have "4096 dvd unat (ROUNDDOWN x 4096)"
    by (simp add: ROUNDDOWN_page)
  from alloc_range_walk_ok [OF assms this, of c 0 l]
  obtain n as' new where w: "alloc_range_walk c 0 (ROUNDDOWN x 4096) as l = Some (n, as', l @ new)" "takes as new as'"
    "map (\<lambda>p. vm_page_to_paddr p as) new = page_addrs (ROUNDDOWN x 4096) (length new)"
    "unat c < 2 ^ 32 \<longrightarrow> unat n = length new \<and> unat n \<le> unat c"
    by auto
  then show ?thesis
    using False
    by (intro exI [of _ "ucast n"] exI [of _ as'] exI [of _ new]) (auto simp: pmm_alloc_range_def)
qed

lemma pmm_alloc_contiguous_ok:
  assumes "pmm_ok as" "unat c < 2 ^ 32" "align_log2 < 64"
  shows "\<exists>n r as' l'. pmm_alloc_contiguous c fl align_log2 l as = Some (n, r, as', l')
    \<and> (case r of
         None \<Rightarrow> n = 0 \<and> as' = as \<and> l' = l
           \<and> (0 < unat c \<longrightarrow> (\<forall>a\<in>set as. \<not> skip_arena fl a \<longrightarrow> (\<forall>s. \<not> aligned_run (max align_log2 12) a (unat c) s)))
       | Some pa \<Rightarrow> n = c \<and> 0 < unat c \<and> (\<exists>a\<in>set as. \<exists>s. \<not> skip_arena fl a \<and> aligned_run (max align_log2 12) a (unat c) s
           \<and> pa = ar_base a + of_nat s * 4096
           \<and> l' = map_option (\<lambda>l. l @ map (Pair (ar_id a)) [s..<s + unat c]) l
           \<and> takes as (map (Pair (ar_id a)) [s..<s + unat c]) as'))"
proof (cases "c = 0")
  case True
  then show ?thesis
    by (simp add: pmm_alloc_contiguous_def)
next
  case False
  then have c: "0 < unat c"
    by (simp add: unat_gt_0)
  define k where "k = (if align_log2 < 12 then 12 else align_log2)"
  have k: "12 \<le> k" "k < 64" "max align_log2 12 = k"
    using assms(3) by (auto simp: k_def)
  from contiguous_walk_ok [OF assms(1) c assms(2) k(1,2), of fl l]
  obtain r as' l' where w: "contiguous_walk c fl k l as = Some (r, as', l')"
    "case r of
         None \<Rightarrow> as' = as \<and> l' = l \<and> (\<forall>a\<in>set as. \<not> skip_arena fl a \<longrightarrow> (\<forall>s. \<not> aligned_run k a (unat c) s))
       | Some pa \<Rightarrow> \<exists>a\<in>set as. \<exists>s. \<not> skip_arena fl a \<and> aligned_run k a (unat c) s
           \<and> pa = ar_base a + of_nat s * 4096
           \<and> l' = map_option (\<lambda>l. l @ map (Pair (ar_id a)) [s..<s + unat c]) l
           \<and> takes as (map (Pair (ar_id a)) [s..<s + unat c]) as'"
    by blast
  have "pmm_alloc_contiguous c fl align_log2 l as = Some (if r = None then 0 else c, r, as', l')"
    using False w(1) k(2) by (simp add: pmm_alloc_contiguous_def Let_def k_def)
  then show ?thesis
    unfolding k(3) using w(2) c
    by (intro exI [of _ "if r = None then 0 else c"] exI [of _ r] exI [of _ as'] exI [of _ l'])
      (simp split: option.splits)
qed

lemma reach_held_ok: "pmm_reach as held \<Longrightarrow> held_ok as held"
proof (induction rule: pmm_reach.induct)
  case reach_start
  then show ?case
    by (simp add: held_ok_def)
next
  case (reach_arena as held r e as')
  then have ok: "pmm_ok as"
    by (simp add: held_ok_def)
  show ?case
    using held_arena [OF reach_arena.IH reach_arena.hyps(2)]
      pmm_add_arena_ok [OF ok reach_arena.hyps(4) reach_arena.hyps(2,3)] by blast
next
  case (reach_page as held fl p pa as')
  then show ?case
    using held_takes [of as held "[p]" as'] pmm_alloc_page_ok [of as fl] by (simp add: held_ok_def)
next
  case (reach_no_page as held fl as')
  then show ?case
    using pmm_alloc_page_ok [of as fl] by (simp add: held_ok_def)
next
  case (reach_pages as held count fl n as' l)
  then show ?case
    using held_takes [of as held l as'] pmm_alloc_pages_ok [of as count fl "[]"] by (auto simp: held_ok_def)
next
  case (reach_range as held x count n as' l)
  then show ?case
    using held_takes [of as held l as'] pmm_alloc_range_ok [of as x count "[]"] by (auto simp: held_ok_def)
next
  case (reach_run as held count fl align_log2 n r as' l)
  have "align_log2 < 64 \<or> l = [] \<and> as' = as"
    using reach_run.hyps(3) by (auto simp: pmm_alloc_contiguous_def Let_def split: if_splits)
  then show ?case
  proof
    assume "align_log2 < 64"
    then have "takes as l as'"
      using pmm_alloc_contiguous_ok [of as count align_log2 fl "Some []"] reach_run takes_refl [of as]
      by (auto simp: held_ok_def split: option.splits)
    then show ?thesis
      using held_takes reach_run.IH by blast
  qed (use reach_run.IH in simp)
next
  case (reach_free as held l n as')
  then have "set l \<subseteq> all_pages as - free_pages as" "pmm_ok as"
    by (auto simp: held_ok_def)
  from pmm_free_ok [OF this(2) reach_free.hyps(2) this(1)] reach_free show ?case
    using same_arenas(2) [of as as'] by (auto simp: held_ok_def)
qed

section \<open>Properties\<close>

text \<open>
  C12. Physical pages are never handed out twice and never lost: in every state that arenas and clients
  reach by any sequence of calls to \<^verbatim>\<open>pmm_add_arena\<close>, the four allocation functions and
  \<^verbatim>\<open>pmm_free\<close>, the pages that clients hold are distinct, none of them is on a free list, every page of
  every arena is either held or on the free list of its arena, and the counters, page states and
  node links of the arenas agree with the free lists.
\<close>

theorem pmm_pages_exclusive:
  assumes "pmm_reach as held"
  shows "distinct held \<and> set held \<inter> free_pages as = {} \<and> set held \<union> free_pages as = all_pages as
    \<and> (\<forall>a\<in>set as. unat (ar_free_count a) = length (ar_free_list a) \<and> distinct (ar_free_list a)
        \<and> (\<forall>i<length (ar_page_array a). page_is_free (ar_page_array a ! i) \<longleftrightarrow> i \<in> set (ar_free_list a)))"
  using reach_held_ok [OF assms] by (auto simp: held_ok_def pmm_ok_def arena_ok_def)

text \<open>
  C13. No call of the allocator fails an assertion, reads a page structure that does not exist or
  loops for ever: in every such state each allocation function returns, for counts below \<^verbatim>\<open>2^32\<close> and
  alignments below \<^verbatim>\<open>2^64\<close>, and so does \<^verbatim>\<open>pmm_free\<close> on pages that are held, which counts them all.
\<close>

theorem pmm_never_fails:
  assumes "pmm_reach as held" "unat count < 2 ^ 32" "align_log2 < 64" "distinct l" "set l \<subseteq> set held"
  shows "pmm_alloc_page fl as \<noteq> None \<and> pmm_alloc_pages count fl list as \<noteq> None
    \<and> pmm_alloc_range x count list as \<noteq> None \<and> pmm_alloc_contiguous count fl align_log2 olist as \<noteq> None
    \<and> (\<exists>as'. pmm_free l as = Some (of_nat (length l), as'))"
proof -
  have ok: "pmm_ok as" and l: "set l \<subseteq> all_pages as - free_pages as"
    using reach_held_ok [OF assms(1)] assms(5) by (auto simp: held_ok_def)
  show ?thesis
    using pmm_alloc_page_ok [OF ok, of fl] pmm_alloc_pages_ok [OF ok, of count fl list]
      pmm_alloc_range_ok [OF ok, of x count list] pmm_alloc_contiguous_ok [OF ok assms(2,3), of fl olist]
      pmm_free_ok [OF ok assms(4) l]
    by auto
qed

text \<open>
  C14. \<^verbatim>\<open>pmm_alloc_contiguous\<close> is exact: when it returns the count, the address it stores is that of a
  run of free pages of one arena that the flags allow, a multiple of the alignment asked for and of
  the page size, and the pages of the run, in order, are what the list gained and the free lists
  lost; when it returns 0, no arena that the flags allow has such a run. The search thus misses no
  run, although it steps over the starts that a page in use rules out.
\<close>

theorem pmm_contiguous_exact:
  assumes "pmm_ok as" "0 < unat count" "unat count < 2 ^ 32" "align_log2 < 64"
  shows "\<exists>r as' l'. pmm_alloc_contiguous count fl align_log2 l as = Some (if r = None then 0 else count, r, as', l')
    \<and> (case r of
         None \<Rightarrow> as' = as \<and> l' = l \<and>
           (\<forall>a\<in>set as. \<not> skip_arena fl a \<longrightarrow> (\<forall>s. \<not> aligned_run (max align_log2 12) a (unat count) s))
       | Some pa \<Rightarrow> \<exists>a\<in>set as. \<exists>s. \<not> skip_arena fl a \<and> aligned_run (max align_log2 12) a (unat count) s
           \<and> pa = ar_base a + of_nat s * 4096
           \<and> l' = map_option (\<lambda>l. l @ map (Pair (ar_id a)) [s..<s + unat count]) l
           \<and> free_pages as' = free_pages as - Pair (ar_id a) ` {s..<s + unat count} \<and> pmm_ok as')"
proof -
  obtain n r as' l' where w: "pmm_alloc_contiguous count fl align_log2 l as = Some (n, r, as', l')"
    "case r of
         None \<Rightarrow> n = 0 \<and> as' = as \<and> l' = l
           \<and> (0 < unat count \<longrightarrow> (\<forall>a\<in>set as. \<not> skip_arena fl a \<longrightarrow> (\<forall>s. \<not> aligned_run (max align_log2 12) a (unat count) s)))
       | Some pa \<Rightarrow> n = count \<and> 0 < unat count \<and> (\<exists>a\<in>set as. \<exists>s. \<not> skip_arena fl a
           \<and> aligned_run (max align_log2 12) a (unat count) s \<and> pa = ar_base a + of_nat s * 4096
           \<and> l' = map_option (\<lambda>l. l @ map (Pair (ar_id a)) [s..<s + unat count]) l
           \<and> takes as (map (Pair (ar_id a)) [s..<s + unat count]) as')"
    using pmm_alloc_contiguous_ok [OF assms(1,3,4), of fl l] by blast
  show ?thesis
  proof (cases r)
    case None
    then show ?thesis
      using w assms(2) by (intro exI [of _ r] exI [of _ as'] exI [of _ l']) simp
  next
    case (Some pa)
    then obtain a s where a: "a \<in> set as" "\<not> skip_arena fl a" "aligned_run (max align_log2 12) a (unat count) s"
      "pa = ar_base a + of_nat s * 4096" "l' = map_option (\<lambda>l. l @ map (Pair (ar_id a)) [s..<s + unat count]) l"
      "takes as (map (Pair (ar_id a)) [s..<s + unat count]) as'" "n = count"
      using w(2) by auto
    have "free_pages as' = free_pages as - Pair (ar_id a) ` {s..<s + unat count}" "pmm_ok as'"
      using a(6) takes_ok [OF assms(1) a(6)] by (auto simp: takes_def)
    then show ?thesis
      using w(1) Some a by (intro exI [of _ r] exI [of _ as'] exI [of _ l']) auto
  qed
qed

text \<open>
  C15. \<^verbatim>\<open>pmm_alloc_range\<close> takes the pages it is asked for: the pages that join the list were free, no
  other page leaves a free list, and their physical addresses are those of consecutive pages from
  the given address, rounded down to a page, on; the result is their number, at most the count.
\<close>

theorem pmm_range_consecutive:
  assumes "pmm_ok as" "unat count < 2 ^ 32"
  shows "\<exists>n as' new. pmm_alloc_range x count l as = Some (n, as', l @ new)
    \<and> map (\<lambda>p. vm_page_to_paddr p as) new = page_addrs (ROUNDDOWN x 4096) (length new)
    \<and> distinct new \<and> set new \<subseteq> free_pages as \<and> free_pages as' = free_pages as - set new
    \<and> unat n = length new \<and> unat n \<le> unat count"
  using pmm_alloc_range_ok [OF assms(1), of x count l] assms(2) by (auto simp: takes_def)

definition arenas_apart :: "pmm_arena list \<Rightarrow> bool" where
  "arenas_apart as \<longleftrightarrow> (\<forall>a\<in>set as. \<forall>b\<in>set as. ar_id a \<noteq> ar_id b \<longrightarrow>
    unat (ar_base a) + unat (ar_size a) \<le> unat (ar_base b) \<or> unat (ar_base b) + unat (ar_size b) \<le> unat (ar_base a))"

lemma paddr_to_vm_page_in:
  assumes "pmm_ok as" "arenas_apart as" "a \<in> set as" "ADDRESS_IN_ARENA x a"
  shows "paddr_to_vm_page x as = Some (ar_id a, unat ((x - ar_base a) div 4096))"
  using assms
proof (induction as)
  case (Cons b as)
  show ?case
  proof (cases "ADDRESS_IN_ARENA x b")
    case True
    have "arena_range a" "arena_range b"
      using Cons.prems by (auto simp: arena_ok_def pmm_ok_def)
    then have "unat (ar_base a) \<le> unat x" "unat x < unat (ar_base a) + unat (ar_size a)"
      "unat (ar_base b) \<le> unat x" "unat x < unat (ar_base b) + unat (ar_size b)"
      using Cons.prems(4) True ADDRESS_IN_ARENA_nat by blast+
    moreover have "ar_id a \<noteq> ar_id b \<longrightarrow> unat (ar_base a) + unat (ar_size a) \<le> unat (ar_base b)
        \<or> unat (ar_base b) + unat (ar_size b) \<le> unat (ar_base a)"
      using Cons.prems(2,3) unfolding arenas_apart_def by (meson list.set_intros(1))
    ultimately have "ar_id a = ar_id b"
      by linarith
    then have "a = b"
      using Cons.prems(1,3) by (metis imageI pmm_ok_simps(2) set_ConsD)
    then show ?thesis
      using True by (simp add: ADDRESS_IN_ARENA_def)
  next
    case False
    then have "a \<in> set as"
      using Cons.prems by auto
    then show ?thesis
      using Cons False by (auto simp: ADDRESS_IN_ARENA_def arenas_apart_def)
  qed
qed simp

text \<open>
  C16. The two translations are inverse to each other: \<^verbatim>\<open>paddr_to_vm_page\<close> leads from the physical
  address of a page, as \<^verbatim>\<open>vm_page_to_paddr\<close> gives it, back to the same page structure, for every page of
  every arena, when the ranges of the arenas do not overlap.
\<close>

theorem page_address_roundtrip:
  assumes "pmm_ok as" "arenas_apart as" "p \<in> all_pages as"
  shows "paddr_to_vm_page (vm_page_to_paddr p as) as = Some p"
proof -
  obtain a i where a: "a \<in> set as" "p = (ar_id a, i)" "i < unat (page_count a)"
    using assms(3) by (auto simp: all_pages_def)
  have range: "arena_range a"
    using assms(1) a(1) by (auto simp: pmm_ok_def arena_ok_def)
  note addr = page_address_nat(1) [OF range a(3), of "ar_id a"] page_address_nat(2) [OF range a(3)]
  have "vm_page_to_paddr p as = PAGE_ADDRESS_FROM_ARENA (ar_id a, i) a"
    using vm_page_to_paddr_in [of as a p] assms(1) a by (simp add: pmm_ok_def PAGE_BELONGS_TO_ARENA_def)
  moreover have here: "ADDRESS_IN_ARENA (PAGE_ADDRESS_FROM_ARENA (ar_id a, i) a) a"
    using addr ADDRESS_IN_ARENA_nat [OF range] by simp
  moreover have "unat ((PAGE_ADDRESS_FROM_ARENA (ar_id a, i) a - ar_base a) div 4096) = i"
    using address_index(1) [OF range here] addr(1) by simp
  ultimately show ?thesis
    using paddr_to_vm_page_in [OF assms(1,2) a(1) here] a(2) by simp
qed

subsection \<open>An arena of four pages\<close>

definition demo_arena :: pmm_arena where
  "demo_arena = \<lparr>ar_id = 0, ar_flags = 1, ar_priority = 0, ar_base = 4096, ar_size = 16384,
    ar_free_count = 0, ar_page_array = [], ar_free_list = []\<rparr>"

definition demo_arenas :: "pmm_arena list" where
  "demo_arenas = [init_arena demo_arena]"

definition demo_taken :: "pmm_arena list" where
  "demo_taken = snd (the (pmm_alloc_page 0 demo_arenas))"

definition demo_page :: vm_page where
  "demo_page = \<lparr>pg_node = True, pg_state = VM_PAGE_STATE_FREE\<rparr>"

lemma demo_count: "unat (page_count demo_arena) = 4" "arena_range demo_arena"
  by (simp_all add: page_count_nat demo_arena_def arena_range_def)

lemma demo_arenas_eq:
  "demo_arenas = [demo_arena\<lparr>ar_free_count := 4, ar_free_list := [0, 1, 2, 3],
    ar_page_array := [demo_page, demo_page, demo_page, demo_page]\<rparr>]"
  by (simp add: demo_arenas_def init_arena_def demo_count set_page_def zero_page_def demo_page_def eval_nat_numeral)

lemma demo_ok: "pmm_ok demo_arenas"
  using init_arena_ok(1) [OF demo_count(2)] by (simp add: demo_arenas_def)

lemma demo_reach: "pmm_reach demo_taken [(0, 0)]"
proof -
  have "pmm_add_arena demo_arena [] = Some (0, demo_arenas)"
    by (simp add: pmm_add_arena_def demo_arenas_def IS_PAGE_ALIGNED_def) (simp add: demo_arena_def)
  then have "pmm_reach demo_arenas []"
    by (rule reach_arena [OF reach_start, rotated 2]) (simp_all add: demo_arena_def)
  moreover have "pmm_alloc_page 0 demo_arenas = Some (Some ((0, 0), 4096), demo_taken)"
    unfolding demo_taken_def demo_arenas_eq
    by (simp add: skip_arena_def page_at_def page_is_free_def demo_page_def PAGE_ADDRESS_FROM_ARENA_def demo_arena_def)
  ultimately show ?thesis
    by (rule reach_page)
qed

theorem pmm_pages_exclusive_witness:
  "pmm_reach demo_taken [(0, 0)] \<and> {(0, 0)} \<inter> free_pages demo_taken = {}"
  using demo_reach pmm_pages_exclusive [OF demo_reach] by simp

theorem pmm_never_fails_witness:
  "pmm_reach demo_taken [(0, 0)] \<and> (\<exists>as'. pmm_free [(0, 0)] demo_taken = Some (1, as'))
    \<and> pmm_alloc_contiguous 2 1 13 None demo_taken \<noteq> None"
  using demo_reach pmm_never_fails [OF demo_reach, of 2 13 "[(0, 0)]" 1 "[]" 0 None] by simp

lemma demo_run: "\<exists>a\<in>set demo_arenas. \<not> skip_arena 1 a \<and> aligned_run 13 a 2 1"
proof -
  have "page_count (demo_arena\<lparr>ar_free_count := 4, ar_free_list := l, ar_page_array := ps\<rparr>) = page_count demo_arena" for l ps
    by (simp add: page_count_def)
  then show ?thesis
    unfolding demo_arenas_eq
    by (simp add: aligned_run_def run_free_def skip_arena_def demo_count less_2_cases_iff)
      (simp add: demo_arena_def)
qed

theorem pmm_contiguous_exact_witness:
  "pmm_ok demo_arenas \<and> (\<exists>pa as' l'. pmm_alloc_contiguous 2 1 13 None demo_arenas = Some (2, Some pa, as', l') \<and> pmm_ok as')"
proof -
  have "\<exists>r as' l'. pmm_alloc_contiguous 2 1 13 None demo_arenas = Some (if r = None then 0 else 2, r, as', l')
      \<and> (r = None \<longrightarrow> (\<forall>a\<in>set demo_arenas. \<not> skip_arena 1 a \<longrightarrow> (\<forall>s. \<not> aligned_run 13 a 2 s)))
      \<and> (r \<noteq> None \<longrightarrow> pmm_ok as')"
    using pmm_contiguous_exact [OF demo_ok, of 2 13 1 None]
  proof (simp, elim exE conjE, goal_cases)
    case (1 r as' l')
    then show ?case
      by (intro exI [of _ r] exI [of _ as'] exI [of _ l']) (auto split: option.splits)
  qed
  then obtain r as' l' where r: "pmm_alloc_contiguous 2 1 13 None demo_arenas = Some (if r = None then 0 else 2, r, as', l')"
    "r = None \<longrightarrow> (\<forall>a\<in>set demo_arenas. \<not> skip_arena 1 a \<longrightarrow> (\<forall>s. \<not> aligned_run 13 a 2 s))"
    "r \<noteq> None \<longrightarrow> pmm_ok as'"
    by blast
  then have "r \<noteq> None"
    using demo_run by auto
  then show ?thesis
    using r demo_ok by auto
qed

theorem pmm_range_consecutive_witness:
  "pmm_ok demo_arenas \<and> (\<exists>n as' new. pmm_alloc_range 8200 2 [] demo_arenas = Some (n, as', new)
    \<and> map (\<lambda>p. vm_page_to_paddr p demo_arenas) new = page_addrs (ROUNDDOWN 8200 4096) (length new))"
  using demo_ok pmm_range_consecutive [OF demo_ok, of 2 8200 "[]"] by auto

theorem page_address_roundtrip_witness:
  "paddr_to_vm_page (vm_page_to_paddr (0, 3) demo_arenas) demo_arenas = Some (0, 3)"
proof (rule page_address_roundtrip [OF demo_ok])
  show "arenas_apart demo_arenas"
    by (simp add: arenas_apart_def demo_arenas_def)
  have "ar_id (init_arena demo_arena) = 0" "page_count (init_arena demo_arena) = page_count demo_arena"
    using init_arena_ok(2) [OF demo_count(2)] by (simp_all add: same_arena_def page_count_def demo_arena_def)
  then show "(0, 3) \<in> all_pages demo_arenas"
    by (simp add: demo_arenas_def demo_count)
qed

end
