(* ===== verification/Spec2Isabelle.thy ===== *)
theory Spec2Isabelle
  imports List_Node Pow2 Scenario Cnum Cbuf Port Pmm
begin

text \<open>
  A verification library of Punkt OS, a kernel in C. All paths are below \<^verbatim>\<open>src/punkt\<close>.

  \<^bold>\<open>The program.\<close> The kernel schedules threads on several cpus: one run queue per priority and a bitmap
  of those that are not empty (\<^verbatim>\<open>kernel/thread.c\<close>), a queue of timers per cpu that drives preemption and
  timeouts (\<^verbatim>\<open>kernel/timer.c\<close>), wait queues on which threads block, and on top of these mutexes,
  semaphores, events (\<^verbatim>\<open>kernel/mutex.c\<close>, \<^verbatim>\<open>semaphore.c\<close>, \<^verbatim>\<open>event.c\<close>) and ports (\<^verbatim>\<open>kernel/port.c\<close>).
  \<^verbatim>\<open>top/main.c\<close> and \<^verbatim>\<open>kernel/init.c\<close> bring this up. All of it is built on the intrusive lists and the
  power-of-two helpers of \<^verbatim>\<open>top/include/lk\<close>. Beside it stand the allocator of physical pages
  (\<^verbatim>\<open>vm/pmm.c\<close>), the circular buffer of the consoles and drivers (\<^verbatim>\<open>lib/cbuf\<close>), which blocks on an
  event, and the C library (\<^verbatim>\<open>lib/libc\<close>).

  \<^bold>\<open>Conventions.\<close> A failed \<^verbatim>\<open>DEBUG_ASSERT\<close>, a panic, a null dereference, an access outside an array and a
  loop that does not end are the value \<^term>\<open>None\<close>; that an operation returns is a statement that its
  value is \<^term>\<open>Some\<close>. Status codes are those of \<^verbatim>\<open>lk/err.h\<close>. The kernel is the SMP build with a dynamic
  timer and assertions on. What runs under the thread lock or a spin lock is one step; the interrupt
  mask is not modelled. A call that blocks is two definitions, split at its context switch; the part
  with the name \<open>_resume\<close> runs when the scheduler comes back to the thread. Times are 32-bit words and
  wrap. The counts of mutexes and semaphores are unbounded integers: a wrap-around would need
  \<open>2^31\<close> threads or posts. The library runs on a 64-bit little-endian machine with signed \<^verbatim>\<open>char\<close>.

  \<^bold>\<open>Theories, in the order of their imports.\<close>
  \<^item> \<open>Prelude\<close>: widths, status codes, the assertion monad, shared lemmas.
  \<^item> \<open>List_Node\<close> (\<^verbatim>\<open>lk/list.h\<close>): the operations as loads and stores on a heap of nodes. \<open>list_repr\<close> is
    the abstraction; every operation refines its counterpart on sequences. The locale
    \<open>intrusive_list\<close> is the contract, interpreted on the heap operations. The kernel theories use
    sequences for the queues on this ground.
  \<^item> \<open>Pow2\<close> (\<^verbatim>\<open>lk/pow2.h\<close>): bit tricks against arithmetic.
  \<^item> \<open>Timer\<close> (\<^verbatim>\<open>kernel/timer.c\<close>): \<open>timer_sys\<close> holds the timers and queues; insertion is sorted across the
    wrap of the clock; the locale \<open>timer_client\<close> says what callbacks have to keep for the tick to end.
  \<^item> \<open>Thread\<close> (\<^verbatim>\<open>kernel/thread.c\<close>, \<^verbatim>\<open>kernel/mp.c\<close>): the record \<open>kernel\<close> extends \<open>timer_sys\<close>. \<open>Thread_Inv\<close> has
    the scheduler's invariant and \<open>thread_resched\<close>, \<open>Thread_Ops\<close> and \<open>Thread_Life\<close> the other operations: each
    keeps the invariant and fails no assertion; the scheduler's callbacks interpret \<open>timer_client\<close>.
  \<^item> \<open>Boot\<close> (\<^verbatim>\<open>top/main.c\<close>, \<^verbatim>\<open>kernel/init.c\<close>): the invariant holds after boot.
  \<^item> \<open>Sync\<close> (\<^verbatim>\<open>mutex.c\<close>, \<^verbatim>\<open>semaphore.c\<close>, \<^verbatim>\<open>event.c\<close>): the record \<open>sync\<close> extends \<open>kernel\<close>; every branch of
    every operation.
  \<^item> \<open>Gate\<close>: the abstract specification of mutexes and semaphores, a counting gate with steps
    \<open>gate_step\<close>, and its invariants.
  \<^item> \<open>Machine\<close>: the calls of all threads on all cpus, in any order, as steps on one state; \<open>contract\<close> is what
    callers respect, \<open>minv\<close> the invariant. \<open>Machine_Inv\<close>, \<open>Machine_Ops\<close>, \<open>Machine_Calls\<close> and \<open>Machine_Safe\<close> show
    call by call that a call within its contract returns, keeps the invariant and is a sequence of gate
    steps; \<open>reachable\<close> closes it over runs from boot. \<open>Scenario\<close> is a race written out.
  \<^item> \<open>Memory\<close>, \<open>Cstring\<close>, \<open>Cnum\<close> (\<^verbatim>\<open>lib/libc\<close>): block operations, strings, number parsers, search and random
    numbers on a byte memory, against references on lists and unbounded integers.
  \<^item> \<open>Fifo\<close>: the locale \<open>fifo\<close> of a bounded queue; \<open>Cbuf\<close> (\<^verbatim>\<open>lib/cbuf/cbuf.c\<close>) and \<open>Port\<close>
    (\<^verbatim>\<open>kernel/port.c\<close>) interpret it, on the circular buffer and on the packet buffer.
  \<^item> \<open>Pmm\<close> (\<^verbatim>\<open>vm/pmm.c\<close>): arenas and page structures; what each allocation takes and each free gives back, and
    the states \<open>pmm_reach\<close> of any sequence of calls.
  \<^item> This theory: the properties of the kernel as a whole, the scheduler and the timers.

  \<^bold>\<open>What is shown.\<close> Within their contracts the calls of the kernel never fail an assertion, in any
  interleaving of calls from boot on; mutexes exclude; mutexes and semaphores refine the gate; without
  timeouts no wake-up is lost, and with timeouts one can be. The scheduler takes the first eligible thread of the
  highest priority. The timer interrupt ends and leaves the hardware timer armed for the next expiry.
  Physical pages are handed out once, and a contiguous run is found exactly when there is one. The
  buffers deliver in order and lose nothing. The number parsers are exact at their limits. Some
  theorems state what the code does where it departs from its comments or from the C standard; they
  say so in the text before them.

  \<^bold>\<open>Loops and bounds.\<close> No definition has fuel. A loop whose end follows from its data is a total function
  with a measure; one that may run on (a string without a terminator, a blocking read that retries, the
  timer tick, the search for a run of pages) is a partial function, and the theorems show that it
  returns. The counts of the page allocator are below \<open>2^32\<close> where the code keeps them in an \<^verbatim>\<open>uint\<close>, as a
  hypothesis. The witnesses run on two cpus, an arena of four pages and small buffers.

  \<^bold>\<open>Not modelled.\<close> Thread statistics, the contents of stacks and the machine context switch itself: the
  switch is a step. The hooks of architectures, platforms and targets, drivers, page tables and with them
  the virtual memory manager: assembly and hardware state; where modelled code calls them their results are
  arguments. The heap: the addresses it returns are arguments. The init hooks, which the linker
  collects. Console commands, printing and logs: output. File systems, block devices, network stacks,
  graphics, boot data parsers and applications are clients of the modelled parts or stand beside them,
  behind function pointers and device formats. Third-party code kept as imported: lwIP, miniz, libm,
  AES, the checksums and digests, the flattened device tree library.
\<close>

unbundle bit_operations_syntax

section \<open>The kernel as a whole\<close>

text \<open>The machine of the witnesses: two cpus configured, the boot cpu in \<^verbatim>\<open>bootstrap2\<close>.\<close>

definition first_machine :: machine where
  "first_machine = boot_machine (the (lk_main 2 0 4096 (Some (Thread 0)) (Some 0) sync_bss))"

lemma first_machine_boot: "\<exists>s. first_machine = boot_machine s \<and>
    lk_main (Suc 1) 0 4096 (Some (Thread 0)) (Some 0) sync_bss = Some s \<and> booted 0 (kernel.more sync_bss) s"
proof -
  have "sync_bss = bss (kernel.more sync_bss)" by (simp add: sync_bss_def bss_def)
  then show ?thesis using lk_main_ok [of 2 0 4096 0 0 "kernel.more sync_bss"]
    by (auto simp: first_machine_def numeral_2_eq_2)
qed

lemma first_machine_reachable: "reachable first_machine"
  using first_machine_boot reachable.boot by metis

lemma first_machine_ready: "can_block first_machine 0" "\<not> active first_machine (MutexWQ m)"
    "\<not> active first_machine (SemWQ m)" "\<not> active first_machine (EventWQ m)"
    "current_thread (kern first_machine) 0 = Some (Thread 0)"
proof -
  obtain s where s: "first_machine = boot_machine s" "booted 0 (kernel.more sync_bss) s"
    using first_machine_boot by blast
  then have "live s (Thread 0)" and "thread_ok {} s (Thread 0)" and c: "current_thread s 0 = Some (Thread 0)"
    by (auto simp: booted_def kinv_def threads_ok_def cpus_ok_def)
  then have "\<not> thread_is_idle (threads s (Thread 0))" by (simp add: thread_ok_def Let_def)
  then show "can_block first_machine 0" unfolding s(1) using c by (simp add: can_block_def boot_machine_def)
  show "current_thread (kern first_machine) 0 = Some (Thread 0)" unfolding s(1) using c by (simp add: boot_machine_def)
  show "\<not> active first_machine (MutexWQ m)" "\<not> active first_machine (SemWQ m)" "\<not> active first_machine (EventWQ m)"
    unfolding s(1) using s(2) by (auto simp: active_def boot_machine_def booted_def)
qed

lemma reachable_exec:
  assumes "reachable M" and "contract call c M"
  shows "\<exists>N. exec call c M = Some N \<and> reachable N \<and> sim M N"
  using exec_ok [OF reachable_minv [OF assms(1)] assms(2)] reachable.call [OF assms] by (auto simp: step_ok_def)



text \<open>Thread 0 has initialised mutex 0 and acquired it.\<close>

definition mutex_machine :: machine where
  "mutex_machine = the (exec (MutexInit 0) 0 first_machine)"

definition held_machine :: machine where
  "held_machine = the (exec (MutexAcquire 0 INFINITE_TIME) 0 mutex_machine)"

lemma mutex_machine_ready:
  "reachable mutex_machine" "contract (MutexAcquire 0 INFINITE_TIME) 0 mutex_machine"
  "active mutex_machine (MutexWQ 0)" "timed mutex_machine = {}"
  "mutexes (kern mutex_machine) 0 = MUTEX_INITIAL_VALUE"
proof -
  have M: "mutex_machine = first_machine\<lparr>kern := mutex_init 0 (kern first_machine), owns := (owns first_machine)(0 := {})\<rparr>"
    by (simp add: mutex_machine_def)
  show "reachable mutex_machine"
    using reachable_exec [OF first_machine_reachable, of "MutexInit 0" 0] first_machine_ready
    by (auto simp: mutex_machine_def)
  show m: "mutexes (kern mutex_machine) 0 = MUTEX_INITIAL_VALUE" and "active mutex_machine (MutexWQ 0)"
    unfolding M by (simp_all add: mutex_init_def upd_mutex_def wait_queue_init_def active_def WAIT_QUEUE_INITIAL_VALUE_def)
  have "can_block mutex_machine 0"
    unfolding M using first_machine_ready(1) by (simp add: can_block_def mutex_init_def upd_mutex_def wait_queue_init_def)
  then show "contract (MutexAcquire 0 INFINITE_TIME) 0 mutex_machine"
    using m by (auto simp: is_mutex_held_def MUTEX_INITIAL_VALUE_def can_block_def)
  show "timed mutex_machine = {}" unfolding M by (simp add: first_machine_def boot_machine_def)
qed

lemma held_machine_ready:
  "exec (MutexAcquire 0 INFINITE_TIME) 0 mutex_machine = Some held_machine" "reachable held_machine"
  "contract (MutexRelease 0) 0 held_machine" "active held_machine (MutexWQ 0)"
  "mx_magic (mutexes (kern held_machine) 0) = MUTEX_MAGIC" "mx_holder (mutexes (kern held_machine) 0) = Some (Thread 0)"
  "timed held_machine = {}"
proof -
  show e: "exec (MutexAcquire 0 INFINITE_TIME) 0 mutex_machine = Some held_machine" and "reachable held_machine"
    using reachable_exec [OF mutex_machine_ready(1,2)] by (auto simp: held_machine_def)
  have cb: "can_block mutex_machine 0" using mutex_machine_ready(2) by simp
  have c: "current_thread (kern mutex_machine) 0 = Some (Thread 0)"
    using first_machine_ready(5) by (simp add: mutex_machine_def mutex_init_def upd_mutex_def wait_queue_init_def)
  let ?s = "upd_mutex 0 (\<lambda>x. x\<lparr>mx_holder := Some (Thread 0)\<rparr>)
      (upd_mutex 0 (\<lambda>x. x\<lparr>mx_count := mx_count x + 1\<rparr>) (kern mutex_machine))"
  have "mutex_acquire_timeout 0 INFINITE_TIME 0 (kern mutex_machine) = Some (Returns NO_ERROR, ?s)"
    using c mutex_machine_ready(5)
    by (simp add: mutex_acquire_timeout_def mutex_acquire_finish_def upd_mutex_def MUTEX_INITIAL_VALUE_def chk_def)
  then have h: "held_machine = owned 0 (Thread 0) (mutex_machine\<lparr>kern := ?s\<rparr>)"
    using e c by simp
  have mx: "mutexes (kern held_machine) 0 = MUTEX_INITIAL_VALUE\<lparr>mx_count := 1, mx_holder := Some (Thread 0)\<rparr>"
    and cur: "current_thread (kern held_machine) 0 = Some (Thread 0)"
    and cts: "conts held_machine = conts mutex_machine" "threads (kern held_machine) = threads (kern mutex_machine)"
    and wqs: "wait_queues (kern held_machine) = wait_queues (kern mutex_machine)" "timed held_machine = timed mutex_machine"
    unfolding h using mutex_machine_ready(5) c by (simp_all add: owned_def upd_mutex_def MUTEX_INITIAL_VALUE_def)
  show "mx_magic (mutexes (kern held_machine) 0) = MUTEX_MAGIC" "mx_holder (mutexes (kern held_machine) 0) = Some (Thread 0)"
    using mx by (simp_all add: MUTEX_INITIAL_VALUE_def)
  show "active held_machine (MutexWQ 0)" using mutex_machine_ready(3) wqs by (simp add: active_def)
  show "timed held_machine = {}" using mutex_machine_ready(4) wqs by simp
  show "contract (MutexRelease 0) 0 held_machine"
    using mx cb c cur cts by (simp add: can_block_def is_mutex_held_def MUTEX_INITIAL_VALUE_def)
qed

text \<open>
  C2. Mutual exclusion. In every reachable state at most one thread is between the return of its
  acquisition of a mutex and its release, and it is the one the mutex names as its holder.
\<close>

theorem mutex_exclusion:
  assumes "reachable M" and "mx_magic (mutexes (kern M) m) = MUTEX_MAGIC"
  shows "owns M m = set_option (mx_holder (mutexes (kern M) m)) \<and> card (owns M m) \<le> 1"
proof -
  have "owns M m = set_option (mx_holder (mutexes (kern M) m))"
    using reachable_minv [OF assms(1)] assms(2) by (simp add: minv_def winv_def objects_ok_def)
  then show ?thesis by (cases "mx_holder (mutexes (kern M) m)") simp_all
qed

theorem mutex_exclusion_witness:
  "reachable held_machine \<and> mx_magic (mutexes (kern held_machine) 0) = MUTEX_MAGIC \<and> owns held_machine 0 = {Thread 0}"
  using mutex_exclusion [OF held_machine_ready(2,5)] held_machine_ready(2,5) by (simp add: held_machine_ready(6))










text \<open>
  C10. A signalled event has no waiter: in every reachable state, the queue of an event whose flag is set is
  empty, so that no thread sleeps through a signal.
\<close>

theorem signaled_event_no_waiter:
  assumes "reachable M" and "ev_signaled (events (kern M) e)"
  shows "wq_list (wait_queues (kern M) (EventWQ e)) = []"
  using reachable_minv [OF assms(1)] assms(2) by (simp add: minv_def winv_def objects_ok_def)

definition event_machine :: machine where
  "event_machine = the (exec (EventInit 0 True 0) 0 first_machine)"

theorem signaled_event_no_waiter_witness:
  "reachable event_machine \<and> ev_signaled (events (kern event_machine) 0) \<and>
   wq_list (wait_queues (kern event_machine) (EventWQ 0)) = []"
proof -
  have r: "reachable event_machine"
    using reachable_exec [OF first_machine_reachable, of "EventInit 0 True 0" 0] first_machine_ready
    by (auto simp: event_machine_def)
  have "ev_signaled (events (kern event_machine) 0)"
    by (simp add: event_machine_def event_init_def upd_event_def wait_queue_init_def EVENT_INITIAL_VALUE_def)
  then show ?thesis using r signaled_event_no_waiter [OF r, of 0] by simp
qed

section \<open>The scheduler and the timers\<close>

text \<open>
  C7. The scheduler's choice. With the invariant, the thread taken for a cpu is the first one in the run queue
  of the highest priority that has a thread allowed on that cpu; it leaves its queue, the queue's bit in the
  bitmap is cleared exactly when the queue has become empty, and the idle thread is taken only when no
  queued thread may run there.
\<close>

theorem scheduler_choice:
  assumes "sched_inv s" and "get_top_thread cpu s = (t, s')"
  shows "(t = IdleThread cpu \<and> s' = s \<and> (\<forall>p. \<forall>x \<in> set (run_queue s p). \<not> may_run cpu s x)) \<or>
    (\<exists>p as bs. run_queue s p = as @ t # bs \<and> may_run cpu s t \<and> (\<forall>x \<in> set as. \<not> may_run cpu s x) \<and>
       (\<forall>p'>p. \<forall>x \<in> set (run_queue s p'). \<not> may_run cpu s x) \<and> run_queue s' = (run_queue s)(p := as @ bs) \<and>
       (\<forall>q. bit (run_queue_bitmap s') q \<longleftrightarrow> run_queue s' q \<noteq> []))"
  using assms(1)
proof (cases rule: get_top_thread_cases [where cpu = cpu])
  case idle
  then show ?thesis using assms(2) by auto
next
  case (queued p x as bs)
  have bm: "bit (run_queue_bitmap s) q \<longleftrightarrow> run_queue s q \<noteq> []" for q
    using assms(1) by (simp add: kinv_def queues_ok_def)
  have lt: "run_queue s q \<noteq> [] \<Longrightarrow> q < 32" for q
    using bit_imp_le_length [of "run_queue_bitmap s" q] bm [of q] by simp
  have "t = x" and r: "run_queue s' = (run_queue s)(p := as @ bs)"
    and "run_queue_bitmap s' = (if as @ bs = [] then run_queue_bitmap s AND NOT (push_bit p 1) else run_queue_bitmap s)"
    using queued(5) assms(2) by auto
  then have "bit (run_queue_bitmap s') q \<longleftrightarrow> run_queue s' q \<noteq> []" for q
    using bm lt queued(1) by (auto simp: bit_and_iff bit_not_iff bit_push_bit_iff bit_1_iff bit_exp_iff)
  then show ?thesis using queued(1-4) \<open>t = x\<close> r by blast
qed

theorem scheduler_choice_witness:
  "sched_inv race_state \<and> (\<exists>s'. get_top_thread 0 race_state = (Thread 1, s') \<and> run_queue s' 16 = [])"
proof -
  have c: "builtin_clz 65536 = 15" by code_simp
  have "get_top_loop (\<lambda>t. t_pinned_cpu (threads race_state t) < 0 \<or> t_pinned_cpu (threads race_state t) = 0)
      (run_queue race_state) 65536 = Some (16, Thread 1)"
    by (subst get_top_loop.simps) (simp add: c race_state_def zero_thread_def)
  then obtain s' where s': "get_top_thread 0 race_state = (Thread 1, s')"
    by (simp add: get_top_thread_def race_state_def)
  from scheduler_choice [OF race_state_inv s']
  obtain p as bs where p: "run_queue race_state p = as @ Thread 1 # bs" "run_queue s' = (run_queue race_state)(p := as @ bs)"
    by blast
  moreover have "run_queue race_state = (\<lambda>_. [])(16 := [Thread 1])" by (simp add: race_state_def)
  ultimately have "run_queue s' 16 = []" by (cases as) (auto split: if_splits)
  then show ?thesis using s' race_state_inv by blast
qed

text \<open>
  C9. The timer queues. Inserting a timer into the queue of a cpu keeps it ordered by expiry, and the timer
  goes behind all those with the same expiry: seen from any point \<open>base\<close> in time from which all expiries
  are less than half the range of the clock away, through the wrap-around of the 32-bit time.
\<close>

theorem timer_insert_sorted:
  assumes "queue_sorted base cpu s" and "expiry base s m < 2 ^ 31"
  shows "queue_sorted base cpu (insert_timer_in_queue cpu m s) \<and>
    (\<exists>as bs. timer_queue s cpu = as @ bs \<and> timer_queue (insert_timer_in_queue cpu m s) cpu = as @ m # bs \<and>
       (\<forall>a \<in> set as. expiry base s a \<le> expiry base s m) \<and> (\<forall>b \<in> set bs. expiry base s m < expiry base s b))"
proof -
  let ?f = "\<lambda>m. tm_scheduled_time (timers s m)"
  have x: "expiry base s = (\<lambda>m. unat (?f m - base))" by (simp add: expiry_def fun_eq_iff)
  have e: "expiry base (insert_timer_in_queue cpu m s) = expiry base s"
    by (simp add: expiry_def insert_timer_in_queue_def fun_eq_iff)
  have q: "timer_queue (insert_timer_in_queue cpu m s) cpu = insert_by_time ?f m (timer_queue s cpu)"
    by (simp add: insert_timer_in_queue_def)
  have h: "sorted (map (\<lambda>m. unat (?f m - base)) (timer_queue s cpu))"
      "\<forall>x \<in> set (m # timer_queue s cpu). unat (?f x - base) < 2 ^ 31"
    using assms by (auto simp: queue_sorted_def x)
  show ?thesis
    using insert_by_time_sorted [OF h] insert_by_time_stable [OF h] assms h(2)
    by (simp add: queue_sorted_def e q x)
qed

theorem timer_insert_sorted_witness:
  "queue_sorted (2 ^ 32 - 5) 0 race_state \<and>
   timer_queue (insert_timer_in_queue 0 (StackTimer (Thread 1)) race_state) 0 = [StackTimer (Thread 1), PreemptTimer 0]"
proof -
  have s: "queue_sorted (2 ^ 32 - 5) 0 race_state" and e: "expiry (2 ^ 32 - 5) race_state (StackTimer (Thread 1)) < 2 ^ 31"
    by (simp_all add: queue_sorted_def expiry_def race_state_def TIMER_INITIAL_VALUE_def)
  have "timer_queue race_state 0 = [PreemptTimer 0]"
      "expiry (2 ^ 32 - 5) race_state (StackTimer (Thread 1)) < expiry (2 ^ 32 - 5) race_state (PreemptTimer 0)"
    by (simp_all add: expiry_def race_state_def TIMER_INITIAL_VALUE_def)
  then show ?thesis using timer_insert_sorted [OF s e] s by (auto simp: append_eq_Cons_conv Cons_eq_append_conv)
qed

text \<open>
  C8. The timer interrupt. It ends, with every callback of the kernel run without a failed assertion; no timer
  that is due stays in the queue, periodic ones being queued again for later; the hardware timer is set to
  the first expiry that is left; and the invariant of the scheduler holds.
\<close>

theorem timer_interrupt_ok:
  assumes "sched_inv s" and "current_thread s cpu \<noteq> None" and "tick_window base now cpu s"
  shows "\<exists>ret s'. timer_tick (fire_callback cpu) cpu now s = Some (ret, s') \<and> sched_inv s' \<and>
    (\<forall>m \<in> set (timer_queue s' cpu). TIME_LT now (tm_scheduled_time (timers s' m))) \<and>
    (timer_queue s' cpu \<noteq> [] \<longrightarrow>
       hw_timer s' cpu = Some (tm_scheduled_time (timers s' (hd (timer_queue s' cpu))) - now))"
proof -
  have "cpu = cpu \<and> tick_inv s cpu s" using assms by (simp add: tick_inv_def timeouts.none)
  from ktimer.tick_ok [OF this _ assms(3)] show ?thesis
    using assms(1) by (auto simp: tick_inv_def kinv_def)
qed

theorem timer_interrupt_ok_witness:
  "tick_window 0 10 0 race_state \<and> (\<exists>ret s'. timer_tick (fire_callback 0) 0 10 race_state = Some (ret, s') \<and> sched_inv s')"
proof -
  have w: "tick_window 0 10 0 race_state" and c: "current_thread race_state 0 \<noteq> None"
    by (simp_all add: tick_window_def queue_sorted_def expiry_def race_state_def)
  show ?thesis using timer_interrupt_ok [OF race_state_inv c w] w by blast
qed

text \<open>
  C11. Boot. On the zeroed state, \<^verbatim>\<open>lk_main\<close> brings the scheduler up on the boot cpu without a failed assertion
  and hands the cpu to the second thread: the invariant holds, nobody waits, no thread's timer is armed.
\<close>

theorem boot_ok:
  assumes "0 < smp_max_cpus"
  shows "\<exists>s. lk_main smp_max_cpus entry stack_size (Some (Thread n)) (Some st) (bss ext) = Some s \<and> sched_inv s \<and>
    current_thread s = [0 \<mapsto> Thread n] \<and> (\<forall>w. wq_list (wait_queues s w) = []) \<and>
    (\<forall>t. tm_node (timers s (StackTimer t)) = None)"
  using lk_main_ok [OF assms, of entry stack_size n st ext] by (auto simp: booted_def)

theorem boot_ok_witness:
  "\<exists>s. lk_main 4 0 4096 (Some (Thread 0)) (Some 0) (bss ()) = Some s \<and> sched_inv s \<and> current_thread s 0 = Some (Thread 0)"
proof -
  have "(0 :: nat) < 4" by simp
  from boot_ok [OF this, of 0 4096 0 0 "()"] show ?thesis by auto
qed

end
